(* ===== verification/Prelude.thy ===== *)
theory Prelude
  imports Main "HOL-Library.Word"
begin

text \<open>
  Shared vocabulary of the development: the machine types of a 32-bit freestanding C
  program, the flat byte-addressed memory all components work on (physical memory, one
  byte per 32-bit address, addresses wrap as the hardware's do), the little-endian loads
  and stores a C pointer access compiles to, the C \<open>for\<close> loop over a
  \<open>size_t\<close> index, and the result type of code that may end in a kernel panic. The
  lemmas are the frame rules for loads and stores (an access outside the written bytes
  sees the old memory) and the unfolding rules for the loop.
\<close>

unbundle bit_operations_syntax

named_theorems mem_simps \<open>loads after stores\<close>
named_theorems frame_intros \<open>memory agreement outside a written region\<close>

section \<open>Machine types and results\<close>

type_synonym u8 = "8 word"
type_synonym u16 = "16 word"
type_synonym u32 = "32 word"
type_synonym u64 = "64 word"
type_synonym memory = "u32 \<Rightarrow> u8"

text \<open>
  The ways the kernel gives up: \<open>kernel_panic\<close> with its format string (it prints and
  halts, it never returns to its caller). A fallible operation is \<open>Inl\<close> of the fault
  or \<open>Inr\<close> of the result.
\<close>

datatype fault = Panic string

type_synonym 'a result = "fault + 'a"

section \<open>Memory\<close>

definition load16 :: "memory \<Rightarrow> u32 \<Rightarrow> u16" where
  "load16 m a = ucast (m a) OR push_bit 8 (ucast (m (a + 1)))"

definition store16 :: "memory \<Rightarrow> u32 \<Rightarrow> u16 \<Rightarrow> memory" where
  "store16 m a v = m(a := ucast v, a + 1 := ucast (drop_bit 8 v))"

definition load32 :: "memory \<Rightarrow> u32 \<Rightarrow> u32" where
  "load32 m a = ucast (m a) OR push_bit 8 (ucast (m (a + 1)))
     OR push_bit 16 (ucast (m (a + 2))) OR push_bit 24 (ucast (m (a + 3)))"

definition store32 :: "memory \<Rightarrow> u32 \<Rightarrow> u32 \<Rightarrow> memory" where
  "store32 m a v = m(a := ucast v, a + 1 := ucast (drop_bit 8 v),
     a + 2 := ucast (drop_bit 16 v), a + 3 := ucast (drop_bit 24 v))"

text \<open>\<open>in_region a base n\<close>: the address \<open>a\<close> is one of the \<open>n\<close> bytes from \<open>base\<close> on.\<close>

definition in_region :: "u32 \<Rightarrow> u32 \<Rightarrow> nat \<Rightarrow> bool" where
  "in_region a base n \<longleftrightarrow> unat (a - base) < n"

definition same_outside :: "(u32 \<Rightarrow> bool) \<Rightarrow> memory \<Rightarrow> memory \<Rightarrow> bool" where
  "same_outside W m m' \<longleftrightarrow> (\<forall>a. \<not> W a \<longrightarrow> m' a = m a)"

text \<open>\<open>cstring m s xs\<close>: at \<open>s\<close> the memory holds the bytes \<open>xs\<close>, none of them zero, and then a zero byte.\<close>

fun cstring :: "memory \<Rightarrow> u32 \<Rightarrow> u8 list \<Rightarrow> bool" where
  "cstring m s [] \<longleftrightarrow> m s = 0"
| "cstring m s (x # xs) \<longleftrightarrow> x \<noteq> 0 \<and> m s = x \<and> cstring m (s + 1) xs"

section \<open>The C for loop over an index of type size\_t\<close>

text \<open>\<open>for (size_t i = 0; i < n; i++) s = body i s\<close>.\<close>

definition for_loop :: "u32 \<Rightarrow> (u32 \<Rightarrow> 's \<Rightarrow> 's) \<Rightarrow> 's \<Rightarrow> 's" where
  "for_loop n body s = fold (\<lambda>i. body (of_nat i)) [0..<unat n] s"

text \<open>The same loop with a body that may fault: the fault leaves the loop.\<close>

fun fold_result :: "('i \<Rightarrow> 's \<Rightarrow> 's result) \<Rightarrow> 'i list \<Rightarrow> 's \<Rightarrow> 's result" where
  "fold_result body [] s = Inr s"
| "fold_result body (i # is) s =
     (case body i s of Inl e \<Rightarrow> Inl e | Inr s' \<Rightarrow> fold_result body is s')"

section \<open>Lemmas\<close>

subsection \<open>Loads and stores\<close>

lemma of_nat_lt_numeral_cases:
  "k < 4 \<Longrightarrow> k = 0 \<or> k = 1 \<or> k = 2 \<or> k = (3::nat)"
  by arith

lemma load32_store32 [simp, mem_simps]: "load32 (store32 m a v) a = v"
proof (rule bit_word_eqI)
  fix n
  assume "n < LENGTH(32)"
  then consider "n < 8" | "8 \<le> n" "n < 16" | "16 \<le> n" "n < 24" | "24 \<le> n" "n < 32"
    by fastforce
  then show "bit (load32 (store32 m a v) a) n = bit v n"
    by cases (auto simp: load32_def store32_def bit_simps)
qed

lemma load16_store16 [simp, mem_simps]: "load16 (store16 m a v) a = v"
proof (rule bit_word_eqI)
  fix n
  assume "n < LENGTH(16)"
  then consider "n < 8" | "8 \<le> n" "n < 16"
    by fastforce
  then show "bit (load16 (store16 m a v) a) n = bit v n"
    by cases (auto simp: load16_def store16_def bit_simps)
qed

lemma load32_cong:
  assumes "\<And>k. k < 4 \<Longrightarrow> m (a + of_nat k) = m' (a + of_nat k)"
  shows "load32 m a = load32 m' a"
  using assms [of 0] assms [of 1] assms [of 2] assms [of 3]
  by (simp add: load32_def)

lemma load16_cong:
  assumes "\<And>k. k < 2 \<Longrightarrow> m (a + of_nat k) = m' (a + of_nat k)"
  shows "load16 m a = load16 m' a"
  using assms [of 0] assms [of 1]
  by (simp add: load16_def)

lemma in_region_self [simp]: "0 < n \<Longrightarrow> in_region a a n"
  by (simp add: in_region_def)

lemma in_region_0 [simp]: "\<not> in_region a b 0"
  by (simp add: in_region_def)

lemma in_region_offset: "k < n \<Longrightarrow> n \<le> 2 ^ 32 \<Longrightarrow> in_region (b + of_nat k) b n"
  by (simp add: in_region_def unat_of_nat take_bit_nat_eq_self)

lemma offset_eq_iff:
  fixes a b :: u32
  assumes "i < 4294967296"
  shows "a = b + of_nat i \<longleftrightarrow> unat (a - b) = i"
proof
  assume "a = b + of_nat i"
  then show "unat (a - b) = i"
    using assms by (simp add: unat_of_nat take_bit_nat_eq_self)
next
  assume "unat (a - b) = i"
  then have "of_nat i = (of_nat (unat (a - b)) :: u32)" by simp
  then have "of_nat i = a - b" by simp
  then show "a = b + of_nat i" by simp
qed

lemma unat_lt_2p32: "unat (w :: u32) < 4294967296"
  using unsigned_less [of w] by simp

lemma in_regionE:
  assumes "in_region a b n"
  obtains k where "k < n" "a = b + of_nat k"
proof
  show "unat (a - b) < n" using assms by (simp add: in_region_def)
  show "a = b + of_nat (unat (a - b))" by simp
qed

lemma in_region_mono: "in_region a b n \<Longrightarrow> n \<le> n' \<Longrightarrow> in_region a b n'"
  by (simp add: in_region_def)

lemma store32_apply_outside:
  assumes "\<not> in_region a b 4"
  shows "store32 m b v a = m a"
proof -
  have "a \<noteq> b + of_nat k" if "k < 4" for k
    using assms in_region_offset [of k 4 b] that by auto
  from this [of 0] this [of 1] this [of 2] this [of 3] show ?thesis
    by (simp add: store32_def)
qed

lemma store16_apply_outside:
  assumes "\<not> in_region a b 2"
  shows "store16 m b v a = m a"
proof -
  have "a \<noteq> b + of_nat k" if "k < 2" for k
    using assms in_region_offset [of k 2 b] that by auto
  from this [of 0] this [of 1] show ?thesis
    by (simp add: store16_def)
qed

lemma same_outside_refl [simp, frame_intros]: "same_outside W m m"
  by (simp add: same_outside_def)

lemma same_outside_trans:
  "same_outside W m m' \<Longrightarrow> same_outside W m' m'' \<Longrightarrow> same_outside W m m''"
  by (simp add: same_outside_def)

lemma same_outside_mono:
  "same_outside W m m' \<Longrightarrow> (\<And>a. W a \<Longrightarrow> W' a) \<Longrightarrow> same_outside W' m m'"
  unfolding same_outside_def by blast

lemma same_outsideD: "same_outside W m m' \<Longrightarrow> \<not> W a \<Longrightarrow> m' a = m a"
  by (simp add: same_outside_def)

lemma same_outside_upd [frame_intros]: "W a \<Longrightarrow> same_outside W m (m(a := v))"
  by (auto simp: same_outside_def)

lemma same_outside_store32 [frame_intros]:
  "(\<And>a. in_region a b 4 \<Longrightarrow> W a) \<Longrightarrow> same_outside W m (store32 m b v)"
  unfolding same_outside_def using store32_apply_outside by metis

lemma same_outside_store16 [frame_intros]:
  "(\<And>a. in_region a b 2 \<Longrightarrow> W a) \<Longrightarrow> same_outside W m (store16 m b v)"
  unfolding same_outside_def using store16_apply_outside by metis

lemma load32_same_outside:
  assumes "same_outside W m m'" "\<And>k. k < 4 \<Longrightarrow> \<not> W (a + of_nat k)"
  shows "load32 m' a = load32 m a"
  using assms by (intro load32_cong) (auto dest: same_outsideD)

lemma load16_same_outside:
  assumes "same_outside W m m'" "\<And>k. k < 2 \<Longrightarrow> \<not> W (a + of_nat k)"
  shows "load16 m' a = load16 m a"
  using assms by (intro load16_cong) (auto dest: same_outsideD)

subsection \<open>Signed readings\<close>

lemma unat_less_uint: "unat (w :: 'a::len word) < n \<longleftrightarrow> uint w < int n"
  by (metis of_nat_less_iff uint_nat)

lemma sint_small:
  fixes w :: u32
  assumes "unat w < 2 ^ 31"
  shows "sint w = uint w"
proof -
  have "uint w < 2 ^ 31"
    using assms by (simp add: unat_less_uint)
  then have "signed_take_bit 31 (uint w) = uint w"
    using uint_ge_0 [of w] by (intro signed_take_bit_int_eq_self) linarith+
  then show ?thesis by (simp add: sint_uint)
qed

lemma sint_large:
  fixes w :: u32
  assumes "2 ^ 31 \<le> unat w"
  shows "sint w = uint w - 2 ^ 32"
proof -
  have b: "2 ^ 31 \<le> uint w" "uint w < 2 ^ 32"
    using assms unat_less_uint [of w "2 ^ 31"] uint_lt2p [of w] by auto
  have "signed_take_bit 31 (uint w) = take_bit 32 (uint w + 2 ^ 31) - 2 ^ 31"
    by (simp add: signed_take_bit_eq_take_bit_shift)
  also have "take_bit 32 (uint w + 2 ^ 31) = uint w + 2 ^ 31 - 2 ^ 32"
    using b by (simp add: take_bit_eq_mod mod_pos_geq)
  finally show ?thesis by (simp add: sint_uint)
qed

lemma sint_positive_iff: "0 < sint (w :: u32) \<longleftrightarrow> 0 < unat w \<and> unat w < 2 ^ 31"
proof (cases "unat w < 2 ^ 31")
  case True
  then have "sint w = int (unat w)" by (simp add: sint_small)
  with True show ?thesis by linarith
next
  case False
  then show ?thesis using sint_large [of w] uint_lt2p [of w] by auto
qed

subsection \<open>Masks\<close>

lemma mask_numerals: "(0xFFFF :: u32) = mask 16" "(0xFFF :: u32) = mask 12" "(0xFFFFF :: u32) = mask 20" "(0x3FF :: u32) = mask 10"
  by (simp_all add: mask_eq_exp_minus_1)

subsection \<open>Elements of an array of \<open>w\<close>-byte cells\<close>

text \<open>
  Two cells of one array, at byte offsets below \<open>2\<^sup>3\<^sup>2\<close>, share a byte only if they are the
  same cell; the base cancels, so no assumption on it is needed.
\<close>

lemma cell_bytes_distinct:
  fixes b :: u32
  assumes "b + of_nat (w * i) + of_nat k = b + of_nat (w * j) + of_nat l"
    and "k < w" "l < w" "w * i + k < 2 ^ 32" "w * j + l < 2 ^ 32"
  shows "i = j"
proof -
  have "of_nat (w * i + k) = (of_nat (w * j + l) :: u32)"
    using assms(1) by (simp add: ac_simps)
  then have "unat (of_nat (w * i + k) :: u32) = unat (of_nat (w * j + l) :: u32)"
    by simp
  moreover have "unat (of_nat (w * i + k) :: u32) = w * i + k" "unat (of_nat (w * j + l) :: u32) = w * j + l"
    using assms(4,5) by (simp_all only: unat_of_nat take_bit_nat_eq_self len_num1 len_bit0 mult_1_right)
      (simp_all add: take_bit_nat_eq_self)
  ultimately have eq: "w * i + k = w * j + l"
    by simp
  then have "(w * i + k) div w = (w * j + l) div w"
    by simp
  then show ?thesis
    using assms(2,3) by simp
qed

lemma load32_store32_cell [mem_simps]:
  assumes "i \<noteq> j" "4 * i + 4 \<le> 2 ^ 32" "4 * j + 4 \<le> 2 ^ 32"
  shows "load32 (store32 m (b + of_nat (4 * i)) v) (b + of_nat (4 * j)) = load32 m (b + of_nat (4 * j))"
proof (rule load32_cong)
  fix k :: nat
  assume k: "k < 4"
  have "\<not> in_region (b + of_nat (4 * j) + of_nat k) (b + of_nat (4 * i)) 4"
  proof
    assume "in_region (b + of_nat (4 * j) + of_nat k) (b + of_nat (4 * i)) 4"
    then obtain l where l: "l < 4" "b + of_nat (4 * j) + of_nat k = b + of_nat (4 * i) + of_nat l"
      by (rule in_regionE)
    then have "j = i"
      using assms k by (intro cell_bytes_distinct [of b 4 j k i l]) auto
    with assms(1) show False by simp
  qed
  then show "store32 m (b + of_nat (4 * i)) v (b + of_nat (4 * j) + of_nat k) = m (b + of_nat (4 * j) + of_nat k)"
    by (rule store32_apply_outside)
qed

lemma load16_store16_cell [mem_simps]:
  assumes "i \<noteq> j" "2 * i + 2 \<le> 2 ^ 32" "2 * j + 2 \<le> 2 ^ 32"
  shows "load16 (store16 m (b + of_nat (2 * i)) v) (b + of_nat (2 * j)) = load16 m (b + of_nat (2 * j))"
proof (rule load16_cong)
  fix k :: nat
  assume k: "k < 2"
  have "\<not> in_region (b + of_nat (2 * j) + of_nat k) (b + of_nat (2 * i)) 2"
  proof
    assume "in_region (b + of_nat (2 * j) + of_nat k) (b + of_nat (2 * i)) 2"
    then obtain l where l: "l < 2" "b + of_nat (2 * j) + of_nat k = b + of_nat (2 * i) + of_nat l"
      by (rule in_regionE)
    then have "j = i"
      using assms k by (intro cell_bytes_distinct [of b 2 j k i l]) auto
    with assms(1) show False by simp
  qed
  then show "store16 m (b + of_nat (2 * i)) v (b + of_nat (2 * j) + of_nat k) = m (b + of_nat (2 * j) + of_nat k)"
    by (rule store16_apply_outside)
qed

subsection \<open>Loops\<close>

lemma for_loop_0 [simp]: "for_loop 0 body s = s"
  by (simp add: for_loop_def)

text \<open>An invariant indexed by the number of iterations done.\<close>

lemma fold_upt_invariant:
  assumes "P 0 s" and "\<And>i s. i < n \<Longrightarrow> P i s \<Longrightarrow> P (Suc i) (f i s)"
  shows "P n (fold f [0..<n] s)"
  using assms
proof (induction n)
  case 0
  then show ?case by simp
next
  case (Suc n)
  then have "P n (fold f [0..<n] s)" by simp
  with Suc.prems(2) [of n "fold f [0..<n] s"] show ?case by simp
qed

lemma for_loop_invariant:
  assumes "P 0 s"
    and "\<And>i s. i < unat n \<Longrightarrow> P i s \<Longrightarrow> P (Suc i) (body (of_nat i) s)"
  shows "P (unat n) (for_loop n body s)"
  unfolding for_loop_def by (rule fold_upt_invariant [where P = P]) (use assms in auto)

lemma unat_of_nat_lt [simp]: "i < unat (n :: 'a::len word) \<Longrightarrow> unat (of_nat i :: 'a word) = i"
proof -
  assume "i < unat n"
  also have "unat n < 2 ^ LENGTH('a)" by (rule unsigned_less)
  finally show ?thesis by (simp add: unat_of_nat take_bit_nat_eq_self)
qed

lemma fold_result_append:
  "fold_result body (is @ js) s =
     (case fold_result body is s of Inl e \<Rightarrow> Inl e | Inr s' \<Rightarrow> fold_result body js s')"
  by (induction "is" arbitrary: s) (auto split: sum.splits)

end
