(* ===== verification/Lists.thy ===== *)
theory Lists
  imports Main "HOL-Library.Multiset"
begin

text \<open>
  List facts several components use: lists of optional elements (the present entries of a
  table), what giving one more index a value does to their multiset, and positions in a
  concatenation without repetitions.
\<close>

lemma map_filter_snoc [simp]:
  "List.map_filter g (xs @ [x]) = List.map_filter g xs @ (case g x of None \<Rightarrow> [] | Some y \<Rightarrow> [y])"
  by (auto simp: List.map_filter_def split: option.splits)

lemma set_map_filter_iff: "y \<in> set (List.map_filter g xs) \<longleftrightarrow> (\<exists>x \<in> set xs. g x = Some y)"
  by (force simp: List.map_filter_def)

lemma map_filter_cong_on:
  "(\<And>x. x \<in> set xs \<Longrightarrow> g x = g' x) \<Longrightarrow> List.map_filter g xs = List.map_filter g' xs"
  by (induction xs) (auto simp: List.map_filter_def)

text \<open>Giving one more index a value adds that value.\<close>

lemma mset_map_filter_insert:
  assumes "distinct xs" "k \<in> set xs" "g k = None" "g' k = Some y"
    and "\<And>j. j \<in> set xs \<Longrightarrow> j \<noteq> k \<Longrightarrow> g' j = g j"
  shows "mset (List.map_filter g' xs) = add_mset y (mset (List.map_filter g xs))"
proof -
  from assms(2) obtain as bs where xs: "xs = as @ k # bs" by (auto simp: in_set_conv_decomp)
  have "List.map_filter g' as = List.map_filter g as" "List.map_filter g' bs = List.map_filter g bs"
    using assms(1,5) xs by (auto intro: map_filter_cong_on)
  then show ?thesis
    using assms(3,4) xs by (simp add: List.map_filter_def)
qed

lemma mset_concat_insert:
  assumes "distinct xs" "k \<in> set xs" "mset (F' k) = A + mset (F k)"
    and "\<And>j. j \<in> set xs \<Longrightarrow> j \<noteq> k \<Longrightarrow> F' j = F j"
  shows "mset (concat (map F' xs)) = A + mset (concat (map F xs))"
proof -
  from assms(2) obtain as bs where xs: "xs = as @ k # bs" by (auto simp: in_set_conv_decomp)
  have "map F' as = map F as" "map F' bs = map F bs"
    using assms(1,4) unfolding xs by (intro map_cong; fastforce)+
  then have "concat (map F' as) = concat (map F as)" "concat (map F' bs) = concat (map F bs)"
    by (simp_all only:)
  then show ?thesis
    using assms(3) xs by simp
qed

lemma distinct_concat_map_unique:
  assumes "distinct (concat (map F xs))" "distinct xs" "i \<in> set xs" "j \<in> set xs" "y \<in> set (F i)" "y \<in> set (F j)"
  shows "i = j"
  using assms by (induction xs) auto

end
