(* ===== verification/Memmgnt.thy ===== *)
theory Memmgnt
  imports Prelude
begin

text \<open>
  \<^verbatim>\<open>src/memmgnt.c\<close>: the memory primitives (\<open>memmove\<close>, \<open>memset\<close>, \<open>memzero\<close>, \<open>strlen\<close>,
  \<open>memcmp\<close>), the bump allocator for kernel objects that are never freed
  (\<open>malloc_immortal\<close>, \<open>calloc_immortal\<close>) and the page-frame allocator
  (\<open>malloc_page\<close>, \<open>calloc_page\<close>, \<open>free_page\<close>), whose free list is threaded through the
  first word of the free frames themselves. The interface a client of the frame allocator
  relies on is the locale \<open>frame_allocator\<close>: a simulation between the allocator's state
  and the set of frames that are handed out, interpreted here on the code's model.
\<close>

section \<open>Memory primitives\<close>

definition memmove :: "u32 \<Rightarrow> u32 \<Rightarrow> u32 \<Rightarrow> memory \<Rightarrow> memory" where
  "memmove dest src count m =
     (let distance = dest - src in
      if 0 < sint distance \<and> distance < count
      then for_loop count
             (\<lambda>i m. m(dest + (count - i - 1) := m (src + (count - i - 1)))) m
      else for_loop count (\<lambda>i m. m(dest + i := m (src + i))) m)"

definition memset :: "u32 \<Rightarrow> u32 \<Rightarrow> u32 \<Rightarrow> memory \<Rightarrow> memory" where
  "memset dest ch count m = for_loop count (\<lambda>i m. m(dest + i := ucast ch)) m"

definition memzero :: "u32 \<Rightarrow> u32 \<Rightarrow> memory \<Rightarrow> memory" where
  "memzero dest count m = memset dest 0 count m"

text \<open>\<open>strlen\<close> runs until it meets a zero byte; a memory without one makes it run for ever (\<open>None\<close>).\<close>

partial_function (option) strlen_loop :: "memory \<Rightarrow> u32 \<Rightarrow> u32 \<Rightarrow> u32 option" where
  "strlen_loop m str r =
     (if m str \<noteq> 0 then strlen_loop m (str + 1) (r + 1) else Some r)"

definition strlen :: "memory \<Rightarrow> u32 \<Rightarrow> u32 option" where
  "strlen m str = strlen_loop m str 0"

text \<open>
  \<open>while (num-- && *p1++ == *p2++)\<close>: both pointers advance whenever the bytes were
  compared, equal or not. The bytes are \<open>int8_t\<close>, so the difference is of signed values.
\<close>

function memcmp_loop :: "memory \<Rightarrow> u32 \<Rightarrow> u32 \<Rightarrow> u32 \<Rightarrow> u32 \<times> u32" where
  "memcmp_loop m num p1 p2 =
     (if num = 0 then (p1, p2)
      else if m p1 = m p2 then memcmp_loop m (num - 1) (p1 + 1) (p2 + 1)
      else (p1 + 1, p2 + 1))"
  by pat_completeness auto
termination
  by (relation "measure (\<lambda>(m, num, p1, p2). unat num)") (auto simp: unat_minus_one unat_gt_0)

declare memcmp_loop.simps [simp del]

definition memcmp :: "memory \<Rightarrow> u32 \<Rightarrow> u32 \<Rightarrow> u32 \<Rightarrow> int" where
  "memcmp m ptr1 ptr2 num =
     (if num = 0 then 0
      else let (p1, p2) = memcmp_loop m num ptr1 ptr2 in sint (m (p1 - 1)) - sint (m (p2 - 1)))"

section \<open>The immortal allocator\<close>

definition ARENA_COUNT :: nat where
  "ARENA_COUNT = 2"

definition ARENA_START :: "u32 list" where
  "ARENA_START = [0, 0x100000]"

definition ARENA_END :: "u32 list" where
  "ARENA_END = [0x80000, 0x400000]"

record immortal =
  current :: "u32 list"

definition immortal_initial :: immortal where
  "immortal_initial = \<lparr>current = [ARENA_START ! 0, ARENA_START ! 1]\<rparr>"

text \<open>The linker symbol \<open>__kernel_code_end\<close> is a parameter.\<close>

definition init_immortal_allocator :: "u32 \<Rightarrow> immortal \<Rightarrow> immortal" where
  "init_immortal_allocator kernel_code_end st = st\<lparr>current := (current st)[0 := kernel_code_end]\<rparr>"

fun malloc_immortal_loop :: "u32 \<Rightarrow> u32 \<Rightarrow> nat list \<Rightarrow> immortal \<Rightarrow> (u32 \<times> immortal) result" where
  "malloc_immortal_loop sz alignment [] st = Inl (Panic ''Not enough memory in immortal allocator'')"
| "malloc_immortal_loop sz alignment (i # is) st =
     (let cur = (current st ! i + (alignment - 1)) div alignment * alignment in
      if cur < ARENA_END ! i \<and> sz \<le> ARENA_END ! i - cur
      then Inr (cur, st\<lparr>current := (current st)[i := cur + sz]\<rparr>)
      else malloc_immortal_loop sz alignment is st)"

definition malloc_immortal :: "u32 \<Rightarrow> u32 \<Rightarrow> immortal \<Rightarrow> (u32 \<times> immortal) result" where
  "malloc_immortal sz alignment st =
     (if sz = 0 then Inr (0, st)
      else malloc_immortal_loop sz (if alignment = 0 then 1 else alignment) [1..<ARENA_COUNT] st)"

definition calloc_immortal :: "u32 \<Rightarrow> u32 \<Rightarrow> memory \<times> immortal \<Rightarrow> (u32 \<times> memory \<times> immortal) result" where
  "calloc_immortal sz alignment ms =
     (case malloc_immortal sz alignment (snd ms) of
        Inl e \<Rightarrow> Inl e
      | Inr (p, st') \<Rightarrow> Inr (p, memzero p sz (fst ms), st'))"

section \<open>The page-frame allocator\<close>

definition PAGE_SPACE_START :: u32 where
  "PAGE_SPACE_START = 0x400000"

definition PAGE_SPACE_END :: u32 where
  "PAGE_SPACE_END = 0x40000000"

definition PAGE_SIZE :: u32 where
  "PAGE_SIZE = 0x1000"

text \<open>The static variables; \<open>frame_free_list\<close> is 0 when it is \<open>NULL\<close>.\<close>

record frames =
  frame_edge :: u32
  frame_free_list :: u32

definition frames_initial :: frames where
  "frames_initial = \<lparr>frame_edge = PAGE_SPACE_START, frame_free_list = 0\<rparr>"

definition malloc_page :: "memory \<times> frames \<Rightarrow> (u32 \<times> memory \<times> frames) result" where
  "malloc_page s =
     (let (m, fs) = s in
      if frame_free_list fs \<noteq> 0
      then Inr (frame_free_list fs, m, fs\<lparr>frame_free_list := load32 m (frame_free_list fs)\<rparr>)
      else if PAGE_SPACE_END - PAGE_SIZE \<le> frame_edge fs
      then Inl (Panic ''Out of memory. Download more ram at downloadmoreram.com\<newline>'')
      else Inr (frame_edge fs, m, fs\<lparr>frame_edge := frame_edge fs + PAGE_SIZE\<rparr>))"

definition calloc_page :: "memory \<times> frames \<Rightarrow> (u32 \<times> memory \<times> frames) result" where
  "calloc_page s =
     (case malloc_page s of
        Inl e \<Rightarrow> Inl e
      | Inr (page, m, fs) \<Rightarrow> Inr (page, memzero page PAGE_SIZE m, fs))"

definition free_page :: "u32 \<Rightarrow> memory \<times> frames \<Rightarrow> memory \<times> frames" where
  "free_page page s =
     (let (m, fs) = s in (store32 m page (frame_free_list fs), fs\<lparr>frame_free_list := page\<rparr>))"

section \<open>Lemmas: copying and filling\<close>

lemma memset_apply:
  "memset dest ch count m a = (if in_region a dest (unat count) then ucast ch else m a)"
proof -
  let ?P = "\<lambda>i m'. \<forall>a. m' a = (if unat (a - dest) < i then ucast ch else m a)"
  have "?P (unat count) (for_loop count (\<lambda>i m. m(dest + i := ucast ch)) m)"
  proof (rule for_loop_invariant [where P = ?P])
    fix i m'
    assume i: "i < unat count" and IH: "?P i m'"
    show "?P (Suc i) (m'(dest + of_nat i := ucast ch))"
    proof
      fix a
      have "a = dest + of_nat i \<longleftrightarrow> unat (a - dest) = i"
        using i unat_lt_2p32 [of count] by (intro offset_eq_iff) linarith
      then show "(m'(dest + of_nat i := ucast ch)) a = (if unat (a - dest) < Suc i then ucast ch else m a)"
        using IH by (auto simp: less_Suc_eq)
    qed
  qed simp
  then show ?thesis
    by (simp add: memset_def in_region_def)
qed

lemma memzero_apply [simp]:
  "memzero dest count m a = (if in_region a dest (unat count) then 0 else m a)"
  by (simp add: memzero_def memset_apply)

lemma memmove_forward_step:
  fixes src dest :: u32
  assumes "i < unat count" "unat count \<le> 2 ^ 31"
    and "\<not> (0 < sint (dest - src) \<and> dest - src < count)"
  shows "\<not> unat (src + of_nat i - dest) < i"
proof -
  define d where "d = dest - src"
  have eq: "src + of_nat i - dest = of_nat i - d" by (simp add: d_def)
  have "\<not> (0 < unat d \<and> unat d < 2 ^ 31 \<and> unat d < unat count)"
    using assms(3) by (auto simp: d_def [symmetric] sint_positive_iff word_less_nat_alt)
  moreover have "unat (of_nat i :: u32) = i"
    using assms(1) by simp
  ultimately show ?thesis
    using assms(1,2) unat_lt_2p32 [of d] by (auto simp: eq unat_sub_if')
qed

lemma memmove_backward_step:
  fixes src dest :: u32
  assumes "k < unat count" "unat count \<le> 2 ^ 31"
    and "0 < sint (dest - src)" "dest - src < count"
  shows "\<not> (Suc k \<le> unat (src + of_nat k - dest) \<and> unat (src + of_nat k - dest) < unat count)"
proof -
  define d where "d = dest - src"
  have eq: "src + of_nat k - dest = of_nat k - d" by (simp add: d_def)
  have "0 < unat d" "unat d < unat count"
    using assms(3,4) by (auto simp: d_def [symmetric] sint_positive_iff word_less_nat_alt)
  moreover have "unat (of_nat k :: u32) = k"
    using assms(1) by simp
  ultimately show ?thesis
    using assms(1,2) by (auto simp: eq unat_sub_if')
qed

text \<open>
  Whatever the overlap of the two ranges, every byte of the destination ends up with the
  byte the source held before the call.
\<close>

lemma memmove_apply:
  assumes "unat count \<le> 2 ^ 31"
  shows "memmove dest src count m a =
    (if in_region a dest (unat count) then m (src + (a - dest)) else m a)"
proof (cases "0 < sint (dest - src) \<and> dest - src < count")
  case True
  let ?n = "unat count"
  let ?P = "\<lambda>i m'. \<forall>a. m' a = (if ?n - i \<le> unat (a - dest) \<and> unat (a - dest) < ?n
    then m (src + (a - dest)) else m a)"
  have "?P ?n (for_loop count (\<lambda>i m. m(dest + (count - i - 1) := m (src + (count - i - 1)))) m)"
  proof (rule for_loop_invariant [where P = ?P])
    fix i m'
    assume i: "i < ?n" and IH: "?P i m'"
    define k where "k = ?n - i - 1"
    have k: "k < ?n" "?n - i = Suc k" "?n - Suc i = k"
      using i by (auto simp: k_def)
    have "count - of_nat i - 1 = of_nat (?n - i - 1)"
      using i by (simp add: of_nat_diff)
    then have w: "count - of_nat i - 1 = of_nat k" by (simp add: k_def)
    have src: "m' (src + of_nat k) = m (src + of_nat k)"
      using IH memmove_backward_step [OF k(1) assms] True k(2) by auto
    have iff: "a = dest + of_nat k \<longleftrightarrow> unat (a - dest) = k" for a
      using k(1) unat_lt_2p32 [of count] by (intro offset_eq_iff) linarith
    show "?P (Suc i) (m'(dest + (count - of_nat i - 1) := m' (src + (count - of_nat i - 1))))"
      unfolding w src k(3)
    proof
      fix a
      show "(m'(dest + of_nat k := m (src + of_nat k))) a =
        (if k \<le> unat (a - dest) \<and> unat (a - dest) < ?n then m (src + (a - dest)) else m a)"
        using IH iff [of a] k(1) unfolding k(2)
        by (cases "a = dest + of_nat k") (auto simp del: of_nat_diff)
    qed
  qed auto
  with True show ?thesis
    by (simp add: memmove_def in_region_def)
next
  case False
  let ?n = "unat count"
  let ?P = "\<lambda>i m'. \<forall>a. m' a = (if unat (a - dest) < i then m (src + (a - dest)) else m a)"
  have "?P ?n (for_loop count (\<lambda>i m. m(dest + i := m (src + i))) m)"
  proof (rule for_loop_invariant [where P = ?P])
    fix i m'
    assume i: "i < ?n" and IH: "?P i m'"
    have src: "m' (src + of_nat i) = m (src + of_nat i)"
      using IH memmove_forward_step [OF i assms False] by auto
    have "\<And>a. a = dest + of_nat i \<longleftrightarrow> unat (a - dest) = i"
      using i unat_lt_2p32 [of count] by (intro offset_eq_iff) linarith
    then show "?P (Suc i) (m'(dest + of_nat i := m' (src + of_nat i)))"
      unfolding src using IH by (auto simp: less_Suc_eq)
  qed simp
  with False show ?thesis
    by (auto simp add: memmove_def in_region_def Let_def)
qed

section \<open>Lemmas: strings and comparison\<close>

lemma strlen_loop_cstring:
  "cstring m s xs \<Longrightarrow> strlen_loop m s r = Some (r + of_nat (length xs))"
  by (induction m s xs arbitrary: r rule: cstring.induct)
    (auto simp: strlen_loop.simps ac_simps)

lemma strlen_loop_Some:
  assumes "strlen_loop m s r = Some n"
  shows "\<exists>xs. cstring m s xs \<and> n = r + of_nat (length xs)"
proof (rule strlen_loop.raw_induct
    [where P = "\<lambda>m s r n. \<exists>xs. cstring m s xs \<and> n = r + of_nat (length xs)", OF _ assms])
  fix f :: "memory \<Rightarrow> u32 \<Rightarrow> u32 \<Rightarrow> u32 option" and m s r n
  assume IH: "\<And>m s r n. f m s r = Some n \<Longrightarrow> \<exists>xs. cstring m s xs \<and> n = r + of_nat (length xs)"
    and eq: "(if m s \<noteq> 0 then f m (s + 1) (r + 1) else Some r) = Some n"
  show "\<exists>xs. cstring m s xs \<and> n = r + of_nat (length xs)"
  proof (cases "m s = 0")
    case True
    with eq have "cstring m s [] \<and> n = r + of_nat (length ([] :: u8 list))" by simp
    then show ?thesis by blast
  next
    case False
    with eq IH [of m "s + 1" "r + 1" n]
    obtain xs where "cstring m (s + 1) xs" "n = r + 1 + of_nat (length xs)" by auto
    with False have "cstring m s (m s # xs) \<and> n = r + of_nat (length (m s # xs))"
      by (simp add: ac_simps)
    then show ?thesis by blast
  qed
qed

lemma memcmp_loop_stops:
  assumes "num \<noteq> 0"
  shows "\<exists>k < unat num. memcmp_loop m num p q = (p + of_nat k + 1, q + of_nat k + 1)
    \<and> (\<forall>i < k. m (p + of_nat i) = m (q + of_nat i))
    \<and> (Suc k < unat num \<longrightarrow> m (p + of_nat k) \<noteq> m (q + of_nat k))"
  using assms
proof (induction m num p q rule: memcmp_loop.induct)
  case (1 m num p q)
  show ?case
  proof (cases "m p = m q \<and> num \<noteq> 1")
    case False
    have "0 < unat num" using "1.prems" by (simp add: unat_gt_0)
    moreover have "unat num = 1 \<longrightarrow> num = 1" by unat_arith
    ultimately show ?thesis
      using False "1.prems"
      by (intro exI [of _ 0]) (auto simp: memcmp_loop.simps [of m num p q] memcmp_loop.simps [of m 0])
  next
    case True
    then have "num - 1 \<noteq> 0" by simp
    with True "1.prems" "1.IH" obtain k where k: "k < unat (num - 1)"
      "memcmp_loop m (num - 1) (p + 1) (q + 1) = (p + 1 + of_nat k + 1, q + 1 + of_nat k + 1)"
      "\<forall>i < k. m (p + 1 + of_nat i) = m (q + 1 + of_nat i)"
      "Suc k < unat (num - 1) \<longrightarrow> m (p + 1 + of_nat k) \<noteq> m (q + 1 + of_nat k)"
      by blast
    have u: "unat (num - 1) = unat num - 1" using "1.prems" by (rule unat_minus_one)
    have "\<forall>i < Suc k. m (p + of_nat i) = m (q + of_nat i)"
      using True k(3) by (auto simp: less_Suc_eq_0_disj ac_simps)
    with k u True "1.prems" show ?thesis
      by (intro exI [of _ "Suc k"]) (auto simp: memcmp_loop.simps [of m num p q] ac_simps)
  qed
qed

lemma memcmp_first_difference:
  assumes "\<forall>i < k. m (p + of_nat i) = m (q + of_nat i)" "k < unat num"
    and "m (p + of_nat k) \<noteq> m (q + of_nat k)"
  shows "memcmp m p q num = sint (m (p + of_nat k)) - sint (m (q + of_nat k))"
proof -
  from assms(2) have nz: "num \<noteq> 0" by auto
  from memcmp_loop_stops [OF nz, of m p q] obtain l where l: "l < unat num"
    "memcmp_loop m num p q = (p + of_nat l + 1, q + of_nat l + 1)"
    "\<forall>i < l. m (p + of_nat i) = m (q + of_nat i)"
    "Suc l < unat num \<longrightarrow> m (p + of_nat l) \<noteq> m (q + of_nat l)"
    by blast
  have "l = k"
    using assms l(1,3,4) by (cases l k rule: linorder_cases) auto
  with l(2) nz show ?thesis by (simp add: memcmp_def)
qed

lemma memcmp_equal:
  assumes "\<forall>i < unat num. m (p + of_nat i) = m (q + of_nat i)"
  shows "memcmp m p q num = 0"
proof (cases "num = 0")
  case False
  then show ?thesis
    using memcmp_loop_stops [OF False, of m p q] assms by (auto simp: memcmp_def)
qed (simp add: memcmp_def)

lemma memcmp_eq_0_iff:
  "memcmp m p q num = 0 \<longleftrightarrow> (\<forall>i < unat num. m (p + of_nat i) = m (q + of_nat i))"
proof
  assume zero: "memcmp m p q num = 0"
  show "\<forall>i < unat num. m (p + of_nat i) = m (q + of_nat i)"
  proof (rule ccontr)
    assume "\<not> (\<forall>i < unat num. m (p + of_nat i) = m (q + of_nat i))"
    then obtain j where "j < unat num \<and> m (p + of_nat j) \<noteq> m (q + of_nat j)"
      by blast
    then obtain k where k: "k < unat num \<and> m (p + of_nat k) \<noteq> m (q + of_nat k)"
      and least: "\<forall>i < k. \<not> (i < unat num \<and> m (p + of_nat i) \<noteq> m (q + of_nat i))"
      using exists_least_iff [of "\<lambda>j. j < unat num \<and> m (p + of_nat j) \<noteq> m (q + of_nat j)"] by blast
    then have "sint (m (p + of_nat k)) = sint (m (q + of_nat k))"
      using memcmp_first_difference [of k m p q num] zero by auto
    with k show False by (simp add: signed_word_eqI)
  qed
qed (rule memcmp_equal)

section \<open>Lemmas: the immortal allocator\<close>

text \<open>The allocator's invariant: two arenas, and the one in use is filled up to some point of it.\<close>

definition immortal_inv :: "immortal \<Rightarrow> bool" where
  "immortal_inv st \<longleftrightarrow> length (current st) = 2
     \<and> 0x100000 \<le> unat (current st ! 1) \<and> unat (current st ! 1) \<le> 0x400000"

lemma arena_numbers [simp]: "[Suc 0..<ARENA_COUNT] = [Suc 0]" "ARENA_END ! Suc 0 = 0x400000"
  by (simp_all add: ARENA_COUNT_def ARENA_END_def upt_rec)

lemma immortal_inv_initial: "immortal_inv immortal_initial"
  by (simp add: immortal_inv_def immortal_initial_def ARENA_START_def)

lemma immortal_inv_init: "immortal_inv st \<Longrightarrow> immortal_inv (init_immortal_allocator e st)"
  by (simp add: immortal_inv_def init_immortal_allocator_def)

lemma round_up_div:
  fixes c k :: nat
  assumes "0 < k"
  shows "c \<le> (c + (k - 1)) div k * k" "(c + (k - 1)) div k * k < c + k" "k dvd (c + (k - 1)) div k * k"
proof -
  let ?q = "(c + (k - 1)) div k" and ?r = "(c + (k - 1)) mod k"
  have "?q * k + ?r = c + (k - 1)" by simp
  moreover have "?r < k" using assms by simp
  ultimately show "c \<le> ?q * k" "?q * k < c + k" using assms by linarith+
qed simp

lemma malloc_immortal_cases:
  assumes "immortal_inv st" "sz \<noteq> 0" "unat alignment \<le> 2 ^ 31"
    and "malloc_immortal sz alignment st = r"
  obtains (ok) p where "r = Inr (p, st\<lparr>current := (current st)[1 := p + sz]\<rparr>)"
      "unat (current st ! 1) \<le> unat p" "unat p + unat sz \<le> 0x400000" "max 1 (unat alignment) dvd unat p"
      "unat p < unat (current st ! 1) + max 1 (unat alignment)"
  | (full) "r = Inl (Panic ''Not enough memory in immortal allocator'')"
      "0x400000 < unat (current st ! 1) + max 1 (unat alignment) + unat sz"
proof -
  define k where "k = (if alignment = 0 then 1 else alignment)"
  define c where "c = current st ! 1"
  define p where "p = (c + (k - 1)) div k * k"
  have k: "unat k = max 1 (unat alignment)" "0 < unat k" "unat k \<le> 2 ^ 31"
    using assms(3) unat_gt_0 [of alignment] by (auto simp: k_def max_def)
  have c: "unat c \<le> 0x400000"
    using assms(1) by (simp add: immortal_inv_def c_def)
  have k1: "unat (k - 1) = unat k - 1"
    using k(2) by (intro unat_minus_one) auto
  have s: "unat (c + (k - 1)) = unat c + (unat k - 1)"
    using c k k1 by (simp add: unat_word_ariths)
  let ?t = "(unat c + (unat k - 1)) div unat k * unat k"
  note t = round_up_div [OF k(2), of "unat c"]
  have "?t < 2 ^ 32" using t(2) c k(3) by simp
  moreover have "unat ((c + (k - 1)) div k) = (unat c + (unat k - 1)) div unat k"
    by (simp only: unat_div s)
  ultimately have p: "unat p = ?t"
    unfolding p_def by (simp only: unat_word_ariths(2) len_bit0 len_num1 mult_1_right mod_less) simp
  have r: "r = (if p < 0x400000 \<and> sz \<le> 0x400000 - p
      then Inr (p, st\<lparr>current := (current st)[1 := p + sz]\<rparr>)
      else Inl (Panic ''Not enough memory in immortal allocator''))"
    using assms(2,4) by (auto simp: malloc_immortal_def Let_def p_def k_def [symmetric] c_def)
  show thesis
  proof (cases "p < 0x400000 \<and> sz \<le> 0x400000 - p")
    case True
    then have "unat p + unat sz \<le> 0x400000"
      by (auto simp: word_less_nat_alt word_le_nat_alt unat_sub_if')
    show thesis
    proof (rule ok [of p])
      show "r = Inr (p, st\<lparr>current := (current st)[1 := p + sz]\<rparr>)" using r True by simp
      show "unat (current st ! 1) \<le> unat p" using t(1) p unfolding c_def by simp
      show "unat p < unat (current st ! 1) + max 1 (unat alignment)"
        using t(2) p k(1) unfolding c_def by simp
      show "max 1 (unat alignment) dvd unat p" using t(3) p k(1) by simp
    qed fact
  next
    case False
    have "0 < unat sz" using assms(2) by (simp add: unat_gt_0)
    with False have "0x400000 < unat p + unat sz"
      by (auto simp: word_less_nat_alt word_le_nat_alt unat_sub_if' split: if_splits)
    moreover have "unat p < unat c + unat k" using t(2) p by simp
    ultimately have "0x400000 < unat (current st ! 1) + max 1 (unat alignment) + unat sz"
      unfolding k(1) c_def by linarith
    then show thesis using False r by (intro full) auto
  qed
qed

text \<open>A run of allocation requests \<open>(sz, alignment)\<close>: the blocks handed out, in order.\<close>

fun malloc_immortal_run :: "(u32 \<times> u32) list \<Rightarrow> immortal \<Rightarrow> ((u32 \<times> u32) list \<times> immortal) result" where
  "malloc_immortal_run [] st = Inr ([], st)"
| "malloc_immortal_run ((sz, alignment) # rs) st =
     (case malloc_immortal sz alignment st of
        Inl e \<Rightarrow> Inl e
      | Inr (p, st') \<Rightarrow>
          (case malloc_immortal_run rs st' of
             Inl e \<Rightarrow> Inl e
           | Inr (bs, st'') \<Rightarrow> Inr ((p, sz) # bs, st'')))"

definition blocks_apart :: "u32 \<times> u32 \<Rightarrow> u32 \<times> u32 \<Rightarrow> bool" where
  "blocks_apart b c \<longleftrightarrow> unat (fst b) + unat (snd b) \<le> unat (fst c)"

lemma malloc_immortal_ok:
  assumes "immortal_inv st" "sz \<noteq> 0" "unat alignment \<le> 2 ^ 31"
    and "malloc_immortal sz alignment st = Inr (p, st')"
  shows "immortal_inv st'" "unat (current st ! 1) \<le> unat p"
    "unat (current st' ! 1) = unat p + unat sz" "unat p + unat sz \<le> 0x400000"
    "max 1 (unat alignment) dvd unat p" "0x100000 \<le> unat p"
proof -
  from assms obtain "st' = st\<lparr>current := (current st)[1 := p + sz]\<rparr>"
    and p: "unat (current st ! 1) \<le> unat p" "unat p + unat sz \<le> 0x400000" "max 1 (unat alignment) dvd unat p"
    by (cases rule: malloc_immortal_cases [OF assms(1-4)]) auto
  moreover have "unat (p + sz) = unat p + unat sz"
    using p(2) by (simp add: unat_word_ariths)
  ultimately show "immortal_inv st'" "unat (current st ! 1) \<le> unat p"
    "unat (current st' ! 1) = unat p + unat sz" "unat p + unat sz \<le> 0x400000"
    "max 1 (unat alignment) dvd unat p" "0x100000 \<le> unat p"
    using assms(1) by (auto simp: immortal_inv_def)
qed

lemma malloc_immortal_run_blocks:
  assumes "immortal_inv st" "\<forall>(sz, alignment) \<in> set rs. sz \<noteq> 0 \<and> unat alignment \<le> 2 ^ 31"
    and "malloc_immortal_run rs st = Inr (bs, st')"
  shows "immortal_inv st' \<and> sorted_wrt blocks_apart bs
    \<and> (\<forall>b \<in> set bs. unat (current st ! 1) \<le> unat (fst b) \<and> unat (fst b) + unat (snd b) \<le> 0x400000)"
  using assms
proof (induction rs arbitrary: st bs)
  case Nil
  then show ?case by simp
next
  case (Cons req rs)
  obtain sz alignment where req: "req = (sz, alignment)" by fastforce
  from Cons.prems(3) obtain p st1 bs1 where step: "malloc_immortal sz alignment st = Inr (p, st1)"
    "malloc_immortal_run rs st1 = Inr (bs1, st')" "bs = (p, sz) # bs1"
    by (auto simp: req split: sum.splits prod.splits)
  have "sz \<noteq> 0" "unat alignment \<le> 2 ^ 31"
    using Cons.prems(2) by (auto simp: req)
  note ok = malloc_immortal_ok [OF Cons.prems(1) this step(1)]
  have rest: "\<forall>(sz, alignment) \<in> set rs. sz \<noteq> 0 \<and> unat alignment \<le> 2 ^ 31"
    using Cons.prems(2) by auto
  from Cons.IH [OF ok(1) rest step(2)] ok step(3) show ?case
    by (auto simp: blocks_apart_def)
qed

section \<open>The interface of the frame allocator\<close>

text \<open>
  What a client relies on: a state \<open>s\<close> (memory and allocator variables) \<open>rel\<close>ated to the
  set \<open>L\<close> of frames that are handed out. Allocation hands out a frame that was not; freeing
  takes it back; a client may write to the frames it holds and to nothing else of the page
  space.
\<close>

definition page_space :: "u32 \<Rightarrow> bool" where
  "page_space p \<longleftrightarrow> 4096 dvd unat p \<and> 0x400000 \<le> unat p \<and> unat p < 0x3FFFF000"

definition in_frames :: "u32 set \<Rightarrow> u32 \<Rightarrow> bool" where
  "in_frames L a \<longleftrightarrow> (\<exists>p \<in> L. in_region a p 4096)"

lemma card_page_space: "card {p. page_space p} = 261119"
proof -
  have u: "unat (of_nat (4096 * i) :: u32) = 4096 * i" if "i < 0x3FFFF" for i
    using that by (simp add: unat_of_nat take_bit_nat_eq_self del: of_nat_mult)
  have "{p. page_space p} = (\<lambda>i. of_nat (4096 * i)) ` {0x400 ..< 0x3FFFF}"
  proof (intro equalityI subsetI)
    fix p assume "p \<in> {p. page_space p}"
    then have p: "4096 dvd unat p" "0x400000 \<le> unat p" "unat p < 0x3FFFF000" by (simp_all add: page_space_def)
    then obtain i where i: "unat p = 4096 * i" by (auto elim: dvdE)
    have "of_nat (unat p) = p" by simp
    then have "p = of_nat (4096 * i)" unfolding i ..
    then show "p \<in> (\<lambda>i. of_nat (4096 * i)) ` {0x400 ..< 0x3FFFF}" using p i by (intro image_eqI [of _ _ i]) auto
  qed (auto simp: page_space_def u simp del: of_nat_mult)
  moreover have "inj_on (\<lambda>i. of_nat (4096 * i) :: u32) {0x400 ..< 0x3FFFF}"
  proof (rule inj_onI)
    fix i j assume ij: "i \<in> {0x400 ..< 0x3FFFF}" "j \<in> {0x400 ..< 0x3FFFF}" "(of_nat (4096 * i) :: u32) = of_nat (4096 * j)"
    from arg_cong [OF this(3), of unat] show "i = j" using u [of i] u [of j] ij(1,2) by simp
  qed
  ultimately show ?thesis by (simp add: card_image)
qed

definition outside_page_space :: "u32 \<Rightarrow> bool" where
  "outside_page_space a \<longleftrightarrow> unat a < 0x400000 \<or> 0x3FFFF000 \<le> unat a"

locale frame_allocator =
  fixes alloc :: "memory \<times> 'f \<Rightarrow> (u32 \<times> memory \<times> 'f) result"
    and free :: "u32 \<Rightarrow> memory \<times> 'f \<Rightarrow> memory \<times> 'f"
    and rel :: "memory \<times> 'f \<Rightarrow> u32 set \<Rightarrow> bool"
  assumes alloc_rel: "rel s L \<Longrightarrow> alloc s = Inr (p, s') \<Longrightarrow> rel s' (insert p L)"
    and alloc_fresh: "rel s L \<Longrightarrow> alloc s = Inr (p, s') \<Longrightarrow> p \<notin> L"
    and alloc_mem: "alloc s = Inr (p, s') \<Longrightarrow> fst s' = fst s"
    and free_rel: "rel s L \<Longrightarrow> p \<in> L \<Longrightarrow> rel (free p s) (L - {p})"
    and free_mem: "same_outside (\<lambda>a. in_region a p 4) (fst s) (fst (free p s))"
    and live_frames: "rel s L \<Longrightarrow> p \<in> L \<Longrightarrow> page_space p"
    and write_rel: "rel (m, f) L \<Longrightarrow> same_outside (\<lambda>a. in_frames L a \<or> outside_page_space a) m m'
      \<Longrightarrow> rel (m', f) L"
begin

lemma alloc_frame: "rel s L \<Longrightarrow> alloc s = Inr (p, s') \<Longrightarrow> page_space p"
  using alloc_rel live_frames by blast

lemma alloc_nonnull: "rel s L \<Longrightarrow> alloc s = Inr (p, s') \<Longrightarrow> p \<noteq> 0"
  using alloc_frame [of s L p s'] by (auto simp: page_space_def)

text \<open>Two requests in a row never return the same frame.\<close>

lemma alloc_alloc_distinct:
  assumes "rel s L" "alloc s = Inr (p, s1)" "alloc s1 = Inr (q, s2)"
  shows "p \<noteq> q" "q \<notin> L" "rel s2 (insert q (insert p L))"
  using alloc_rel [OF assms(1,2)] alloc_fresh [of s1 "insert p L" q s2] alloc_rel [of s1 "insert p L" q s2] assms(3)
  by auto

lemma free_same_elsewhere:
  "\<not> in_region a p 4 \<Longrightarrow> fst (free p s) a = fst s a"
  using free_mem by (rule same_outsideD)

lemma alloc_write_rel:
  assumes "rel s L" "alloc s = Inr (p, m, f)" "same_outside (\<lambda>a. in_region a p 4096) m m'"
  shows "rel (m', f) (insert p L)"
  using alloc_rel [OF assms(1,2)]
  by (rule write_rel) (rule same_outside_mono [OF assms(3)], simp add: in_frames_def)

end

text \<open>An allocator that also clears the frame.\<close>

locale clearing_allocator = frame_allocator +
  fixes clear_alloc :: "memory \<times> 'f \<Rightarrow> (u32 \<times> memory \<times> 'f) result"
  assumes clear_alloc_eq: "clear_alloc s = (case alloc s of
      Inl e \<Rightarrow> Inl e | Inr (p, m, f) \<Rightarrow> Inr (p, memzero p 0x1000 m, f))"
begin

lemma clear_allocE:
  assumes "clear_alloc s = Inr (p, m', f)"
  obtains "alloc s = Inr (p, fst s, f)" "m' = memzero p 0x1000 (fst s)"
  using assms alloc_mem [of s p "(fst s, f)"]
  by (auto simp: clear_alloc_eq split: sum.splits prod.splits dest: alloc_mem)

lemma clear_alloc_rel:
  assumes "rel s L" "clear_alloc s = Inr (p, m', f)"
  shows "rel (m', f) (insert p L)"
  using assms(2)
proof (rule clear_allocE)
  assume "alloc s = Inr (p, fst s, f)" "m' = memzero p 0x1000 (fst s)"
  with assms(1) show ?thesis
    by (intro alloc_write_rel [of s L p "fst s" f]) (auto simp: same_outside_def)
qed

lemma clear_alloc_fresh:
  "rel s L \<Longrightarrow> clear_alloc s = Inr (p, m', f) \<Longrightarrow> p \<notin> L \<and> page_space p"
  by (erule clear_allocE) (auto dest: alloc_fresh alloc_frame)

lemma clear_alloc_zero:
  "clear_alloc s = Inr (p, m', f) \<Longrightarrow> m' a = (if in_region a p 4096 then 0 else fst s a)"
  by (erule clear_allocE) simp

end

section \<open>The code's allocator provides the interface\<close>

text \<open>The free list: from \<open>p\<close>, following the word at the start of each frame, the frames \<open>xs\<close>.\<close>

fun free_chain :: "memory \<Rightarrow> u32 \<Rightarrow> u32 list \<Rightarrow> bool" where
  "free_chain m p [] \<longleftrightarrow> p = 0"
| "free_chain m p (x # xs) \<longleftrightarrow> p \<noteq> 0 \<and> p = x \<and> free_chain m (load32 m x) xs"

definition frames_below :: "u32 \<Rightarrow> u32 set" where
  "frames_below edge = {p. 4096 dvd unat p \<and> 0x400000 \<le> unat p \<and> unat p < unat edge}"

definition frames_inv :: "memory \<times> frames \<Rightarrow> u32 list \<Rightarrow> bool" where
  "frames_inv s xs \<longleftrightarrow> free_chain (fst s) (frame_free_list (snd s)) xs \<and> distinct xs
     \<and> set xs \<subseteq> frames_below (frame_edge (snd s))
     \<and> 4096 dvd unat (frame_edge (snd s)) \<and> 0x400000 \<le> unat (frame_edge (snd s))
     \<and> unat (frame_edge (snd s)) \<le> 0x3FFFF000"

definition frames_rel :: "memory \<times> frames \<Rightarrow> u32 set \<Rightarrow> bool" where
  "frames_rel s L \<longleftrightarrow> (\<exists>xs. frames_inv s xs \<and> L = frames_below (frame_edge (snd s)) - set xs)"

lemma page_numbers: "PAGE_SPACE_END = 0x40000000" "PAGE_SPACE_START = 0x400000" "PAGE_SIZE = 0x1000"
  by (simp_all add: PAGE_SPACE_END_def PAGE_SIZE_def PAGE_SPACE_START_def)

lemma frames_below_page_space:
  "p \<in> frames_below e \<Longrightarrow> unat e \<le> 0x3FFFF000 \<Longrightarrow> page_space p"
  by (auto simp: frames_below_def page_space_def)

lemma aligned_region_unique:
  fixes p q :: u32
  assumes "4096 dvd unat p" "4096 dvd unat q" "in_region a p 4096" "in_region a q 4096"
  shows "p = q"
proof -
  have "unat a div 4096 * 4096 = unat r" if "4096 dvd unat r" "in_region a r 4096" for r
  proof -
    from that(1) obtain k where k: "unat r = 4096 * k" by (elim dvdE)
    then have "unat r + 4096 \<le> 2 ^ 32" using unat_lt_2p32 [of r] by simp
    with that(2) have "unat (r + (a - r)) = unat r + unat (a - r)"
      unfolding in_region_def by (subst unat_word_ariths(1)) simp
    with that(2) k show ?thesis by (simp add: in_region_def)
  qed
  from this [OF assms(1,3)] this [OF assms(2,4)] have "unat p = unat q" by simp
  then show ?thesis by (simp add: word_unat_eq_iff)
qed

lemma free_chain_cong:
  "free_chain m p xs \<Longrightarrow> (\<And>x. x \<in> set xs \<Longrightarrow> load32 m' x = load32 m x) \<Longrightarrow> free_chain m' p xs"
  by (induction m p xs rule: free_chain.induct) auto

lemma frames_inv_initial: "frames_inv (m, frames_initial) []"
  by (simp add: frames_inv_def frames_initial_def page_numbers)

lemma malloc_page_mem: "malloc_page s = Inr (p, s') \<Longrightarrow> fst s' = fst s"
  by (auto simp: malloc_page_def Let_def split: prod.splits if_splits)

text \<open>The two branches of \<open>malloc_page\<close>: reuse the head of the free list, or move the edge.\<close>

lemma malloc_page_reuse:
  assumes "frames_inv s (x # xs)"
  shows "malloc_page s = Inr (x, fst s, (snd s)\<lparr>frame_free_list := load32 (fst s) x\<rparr>)"
    "frames_inv (fst s, (snd s)\<lparr>frame_free_list := load32 (fst s) x\<rparr>) xs"
  using assms by (auto simp: frames_inv_def malloc_page_def split: prod.splits)

lemma malloc_page_extend:
  assumes "frames_inv s []" "unat (frame_edge (snd s)) < 0x3FFFF000"
  shows "malloc_page s = Inr (frame_edge (snd s), fst s, (snd s)\<lparr>frame_edge := frame_edge (snd s) + 0x1000\<rparr>)"
    "frames_inv (fst s, (snd s)\<lparr>frame_edge := frame_edge (snd s) + 0x1000\<rparr>) []"
    "frames_below (frame_edge (snd s) + 0x1000) = insert (frame_edge (snd s)) (frames_below (frame_edge (snd s)))"
proof -
  let ?e = "frame_edge (snd s)"
  have e: "4096 dvd unat ?e" "0x400000 \<le> unat ?e" using assms(1) by (auto simp: frames_inv_def)
  have u: "unat (?e + 0x1000) = unat ?e + 4096"
    using assms(2) by (simp add: unat_word_ariths)
  have "frame_free_list (snd s) = 0" "\<not> 0x3FFFF000 \<le> ?e"
    using assms by (auto simp: frames_inv_def word_le_nat_alt)
  then show "malloc_page s = Inr (?e, fst s, (snd s)\<lparr>frame_edge := ?e + 0x1000\<rparr>)"
    by (simp add: malloc_page_def page_numbers case_prod_beta)
  from e(1) obtain k where k: "unat ?e = 4096 * k" by (elim dvdE)
  with assms(2) have "k < 0x3FFFF" by simp
  with k have "unat ?e + 4096 \<le> 0x3FFFF000" by simp
  then show "frames_inv (fst s, (snd s)\<lparr>frame_edge := ?e + 0x1000\<rparr>) []"
    using assms(1) e u by (auto simp: frames_inv_def)
  have "q = ?e" if "4096 dvd unat q" "\<not> unat q < unat ?e" "unat q < unat ?e + 4096" for q
  proof (rule aligned_region_unique [OF that(1) e(1), of q])
    show "in_region q q 4096" by simp
    show "in_region q ?e 4096"
      unfolding in_region_def unat_sub_if' using that(2,3) by simp
  qed
  then show "frames_below (?e + 0x1000) = insert ?e (frames_below ?e)"
    using e u by (auto simp: frames_below_def)
qed

lemma malloc_page_full:
  assumes "frames_inv s []" "unat (frame_edge (snd s)) = 0x3FFFF000"
  shows "\<exists>msg. malloc_page s = Inl (Panic msg)"
proof -
  have "frame_free_list (snd s) = 0" "0x3FFFF000 \<le> frame_edge (snd s)"
    using assms by (auto simp: frames_inv_def word_le_nat_alt)
  then show ?thesis by (simp add: malloc_page_def page_numbers case_prod_beta)
qed

lemma frames_invE:
  assumes "frames_inv s xs"
  obtains (reuse) x ys where "xs = x # ys"
  | (extend) "xs = []" "unat (frame_edge (snd s)) < 0x3FFFF000"
  | (full) "xs = []" "unat (frame_edge (snd s)) = 0x3FFFF000"
  using assms by (cases xs) (auto simp: frames_inv_def le_less)

lemma frames_below_self: "e \<notin> frames_below e"
  by (simp add: frames_below_def)

lemma malloc_page_sim:
  assumes "frames_inv s xs" "malloc_page s = Inr (p, s')"
  shows "\<exists>ys. frames_inv s' ys \<and> p \<notin> frames_below (frame_edge (snd s)) - set xs
    \<and> frames_below (frame_edge (snd s')) - set ys = insert p (frames_below (frame_edge (snd s)) - set xs)"
  using assms(1)
proof (cases rule: frames_invE)
  case (reuse x ys)
  with assms have "distinct xs" "set xs \<subseteq> frames_below (frame_edge (snd s))"
    by (auto simp: frames_inv_def)
  with malloc_page_reuse [of s x ys] assms reuse show ?thesis by auto
next
  case extend
  with malloc_page_extend [of s] assms frames_below_self [of "frame_edge (snd s)"] show ?thesis by auto
next
  case full
  with malloc_page_full [of s] assms show ?thesis by auto
qed

lemma free_page_sim:
  assumes "frames_inv s xs" "p \<in> frames_below (frame_edge (snd s)) - set xs"
  shows "frames_inv (free_page p s) (p # xs)"
proof -
  have xs: "4096 dvd unat x" if "x \<in> set xs" for x
    using assms(1) that by (auto simp: frames_inv_def frames_below_def)
  have p: "4096 dvd unat p" "p \<noteq> 0" "p \<notin> set xs" using assms(2) by (auto simp: frames_below_def)
  have keep: "load32 (store32 (fst s) p v) x = load32 (fst s) x" if "x \<in> set xs" for x v
  proof (rule load32_same_outside [of "\<lambda>a. in_region a p 4"])
    show "same_outside (\<lambda>a. in_region a p 4) (fst s) (store32 (fst s) p v)"
      by (rule same_outside_store32)
    show "\<not> in_region (x + of_nat k) p 4" if "k < 4" for k
    proof
      assume "in_region (x + of_nat k) p 4"
      then have "x = p"
        using that xs [OF \<open>x \<in> set xs\<close>] p(1)
        by (intro aligned_region_unique [of x p "x + of_nat k"]) (auto intro: in_region_offset in_region_mono)
      with p(3) \<open>x \<in> set xs\<close> show False by simp
    qed
  qed
  with assms p show ?thesis
    by (auto simp: frames_inv_def free_page_def split: prod.splits intro: free_chain_cong)
qed

lemma frames_write_rel:
  assumes "frames_rel (m, f) L"
    and "same_outside (\<lambda>a. in_frames L a \<or> outside_page_space a) m m'"
  shows "frames_rel (m', f) L"
proof -
  from assms(1) obtain xs where inv: "frames_inv (m, f) xs"
    and L: "L = frames_below (frame_edge f) - set xs"
    by (auto simp: frames_rel_def)
  have "load32 m' x = load32 m x" if x: "x \<in> set xs" for x
  proof (rule load32_same_outside [OF assms(2)])
    fix k :: nat
    assume k: "k < 4"
    have ps: "page_space x"
      using inv x frames_below_page_space by (auto simp: frames_inv_def)
    then have nowrap: "unat (x + of_nat k) = unat x + k"
      using k by (simp add: page_space_def unat_word_ariths unat_of_nat take_bit_nat_eq_self)
    have "\<not> in_frames L (x + of_nat k)"
    proof
      assume "in_frames L (x + of_nat k)"
      then obtain p where p: "p \<in> L" "in_region (x + of_nat k) p 4096"
        by (auto simp: in_frames_def)
      then have "p = x"
        using k ps L by (intro aligned_region_unique [of p x "x + of_nat k"])
          (auto simp: frames_below_def page_space_def intro: in_region_offset)
      with p(1) L x show False by simp
    qed
    moreover have "\<not> outside_page_space (x + of_nat k)"
      using ps k by (auto simp: outside_page_space_def page_space_def nowrap elim!: dvdE)
    ultimately show "\<not> (in_frames L (x + of_nat k) \<or> outside_page_space (x + of_nat k))" by simp
  qed
  with inv L show ?thesis
    by (auto simp: frames_rel_def frames_inv_def intro!: exI [of _ xs] intro: free_chain_cong)
qed

interpretation pages: frame_allocator malloc_page free_page frames_rel
proof unfold_locales
  show "frames_rel s' (insert p L)" if "frames_rel s L" "malloc_page s = Inr (p, s')" for s L p s'
    using that malloc_page_sim [of s _ p s'] by (fastforce simp: frames_rel_def)
  show "p \<notin> L" if "frames_rel s L" "malloc_page s = Inr (p, s')" for s L p s'
    using that malloc_page_sim [of s _ p s'] by (fastforce simp: frames_rel_def)
  show "fst s' = fst s" if "malloc_page s = Inr (p, s')" for s p s'
    using that by (rule malloc_page_mem)
  show "frames_rel (free_page p s) (L - {p})" if "frames_rel s L" "p \<in> L" for s L p
  proof -
    from that obtain xs where "frames_inv s xs" "L = frames_below (frame_edge (snd s)) - set xs"
      by (auto simp: frames_rel_def)
    moreover from this that(2) have "frames_inv (free_page p s) (p # xs)"
      by (intro free_page_sim) auto
    moreover have "frame_edge (snd (free_page p s)) = frame_edge (snd s)"
      by (auto simp: free_page_def split: prod.splits)
    ultimately show ?thesis
      by (auto simp: frames_rel_def intro!: exI [of _ "p # xs"])
  qed
  show "same_outside (\<lambda>a. in_region a p 4) (fst s) (fst (free_page p s))" for s p
    by (auto simp: free_page_def split: prod.splits intro: same_outside_store32)
  show "page_space p" if "frames_rel s L" "p \<in> L" for s L p
    using that frames_below_page_space by (auto simp: frames_rel_def frames_inv_def)
  show "frames_rel (m', f) L"
    if "frames_rel (m, f) L" "same_outside (\<lambda>a. in_frames L a \<or> outside_page_space a) m m'" for m f L m'
    using that by (rule frames_write_rel)
qed

interpretation cleared_pages: clearing_allocator malloc_page free_page frames_rel calloc_page
  by unfold_locales (auto simp: calloc_page_def PAGE_SIZE_def split: sum.splits prod.splits)

section \<open>Properties\<close>

text \<open>
  Any history of the frame allocator: allocations (cleared or not), frees of frames that
  are held, and writes by the holders, which may touch the frames they hold and the memory
  outside the page space. \<open>L\<close> is the set of frames held.
\<close>

inductive page_run :: "memory \<times> frames \<Rightarrow> u32 set \<Rightarrow> bool" where
  start: "page_run (m, frames_initial) {}"
| alloc: "page_run s L \<Longrightarrow> malloc_page s = Inr (p, s') \<Longrightarrow> page_run s' (insert p L)"
| clear: "page_run s L \<Longrightarrow> calloc_page s = Inr (p, s') \<Longrightarrow> page_run s' (insert p L)"
| free: "page_run s L \<Longrightarrow> p \<in> L \<Longrightarrow> page_run (free_page p s) (L - {p})"
| client_write: "page_run (m, f) L \<Longrightarrow> same_outside (\<lambda>a. in_frames L a \<or> outside_page_space a) m m'
    \<Longrightarrow> page_run (m', f) L"

lemma frames_rel_initial: "frames_rel (m, frames_initial) {}"
  using frames_inv_initial [of m]
  by (auto simp: frames_rel_def frames_initial_def frames_below_def page_numbers intro!: exI [of _ "[]"])

lemma page_run_rel: "page_run s L \<Longrightarrow> frames_rel s L"
proof (induction rule: page_run.induct)
  case (clear s L p s')
  then show ?case by (cases s') (auto intro: cleared_pages.clear_alloc_rel)
qed (auto intro: frames_rel_initial pages.alloc_rel pages.free_rel pages.write_rel)

lemma frames_rel_full_iff:
  assumes "frames_rel s L"
  shows "(\<exists>msg. malloc_page s = Inl (Panic msg)) \<longleftrightarrow> L = {p. page_space p}"
proof -
  from assms obtain xs where inv: "frames_inv s xs" and L: "L = frames_below (frame_edge (snd s)) - set xs"
    by (auto simp: frames_rel_def)
  from inv have sub: "set xs \<subseteq> frames_below (frame_edge (snd s))" "frames_below (frame_edge (snd s)) \<subseteq> {p. page_space p}"
    using frames_below_page_space by (auto simp: frames_inv_def)
  from inv show ?thesis
  proof (cases rule: frames_invE)
    case (reuse x ys)
    with malloc_page_reuse [of s x ys] inv sub L show ?thesis by auto
  next
    case extend
    then have "page_space (frame_edge (snd s))" "frame_edge (snd s) \<notin> L"
      using inv L by (auto simp: frames_inv_def page_space_def frames_below_def)
    with malloc_page_extend(1) [of s] inv extend show ?thesis by auto
  next
    case full
    then have "frames_below (frame_edge (snd s)) = {p. page_space p}"
      by (auto simp: frames_below_def page_space_def)
    with malloc_page_full [of s] inv L full show ?thesis by auto
  qed
qed

lemma frames_rel_below: "frames_rel s L \<Longrightarrow> L \<subseteq> frames_below (frame_edge (snd s))"
  by (auto simp: frames_rel_def)

lemma card_frames_below: "card (frames_below e) \<le> unat e div 4096"
proof -
  have "frames_below e \<subseteq> (\<lambda>i. of_nat (4096 * i)) ` {..< unat e div 4096 + 1} - {0}"
  proof
    fix p assume "p \<in> frames_below e"
    then have p: "4096 dvd unat p" "unat p < unat e" "p \<noteq> 0" by (auto simp: frames_below_def)
    then obtain i where i: "unat p = 4096 * i" by (auto elim: dvdE)
    have "of_nat (unat p) = p" by simp
    then have "p = of_nat (4096 * i)" unfolding i ..
    with p i show "p \<in> (\<lambda>i. of_nat (4096 * i)) ` {..< unat e div 4096 + 1} - {0}" by (auto intro!: image_eqI [of _ _ i])
  qed
  then have "card (frames_below e) \<le> card ((\<lambda>i. of_nat (4096 * i) :: u32) ` {..< unat e div 4096 + 1} - {0})"
    by (intro card_mono) simp_all
  also have "\<dots> < card ((\<lambda>i. of_nat (4096 * i) :: u32) ` {..< unat e div 4096 + 1})"
    by (intro card_Diff1_less) (auto intro!: image_eqI [of _ _ 0])
  also have "\<dots> \<le> unat e div 4096 + 1" using card_image_le [of "{..< unat e div 4096 + 1}"] by fastforce
  finally show ?thesis by simp
qed

text \<open>The store determines which frames are taken, and a request fails only when all are.\<close>

lemma free_chain_unique: "free_chain m p xs \<Longrightarrow> free_chain m p ys \<Longrightarrow> xs = ys"
proof (induction m p xs arbitrary: ys rule: free_chain.induct)
  case (1 m p)
  then show ?case by (cases ys) auto
next
  case (2 m p x xs)
  then show ?case by (cases ys) auto
qed

lemma frames_rel_unique: "frames_rel s L \<Longrightarrow> frames_rel s L' \<Longrightarrow> L = L'"
  by (auto simp: frames_rel_def frames_inv_def dest: free_chain_unique)

lemma malloc_page_available:
  assumes "frames_rel s L" "card L < 261119"
  shows "\<exists>p m f. malloc_page s = Inr (p, m, f) \<and> frames_rel (m, f) (insert p L) \<and> p \<notin> L"
proof (cases "malloc_page s")
  case (Inl e)
  then have "\<exists>msg. malloc_page s = Inl (Panic msg)" by (cases e) simp
  then show ?thesis using frames_rel_full_iff [OF assms(1)] assms(2) card_page_space by simp
next
  case (Inr r)
  obtain p m f where "r = (p, m, f)" by (cases r)
  with Inr show ?thesis using pages.alloc_rel [OF assms(1)] pages.alloc_fresh [OF assms(1)] by blast
qed

lemma calloc_page_available:
  assumes "frames_rel s L" "card L < 261119"
  shows "\<exists>p m f. calloc_page s = Inr (p, m, f) \<and> frames_rel (m, f) (insert p L) \<and> p \<notin> L"
proof -
  from malloc_page_available [OF assms] obtain p m f where "malloc_page s = Inr (p, m, f)" by blast
  then have "calloc_page s = Inr (p, memzero p 0x1000 m, f)" by (simp add: cleared_pages.clear_alloc_eq)
  then show ?thesis using cleared_pages.clear_alloc_rel [OF assms(1)] cleared_pages.clear_alloc_fresh [OF assms(1)] by blast
qed

text \<open>
  C11: whatever the history of allocations, frees and client writes, a page request that
  succeeds returns an aligned frame of the page space that nobody holds, leaves the memory
  as it was, and the frame shares no byte with a held one.
\<close>

theorem malloc_page_exclusive:
  assumes "page_run s L" "malloc_page s = Inr (p, s')"
  shows "p \<notin> L \<and> page_space p \<and> fst s' = fst s
    \<and> (\<forall>q \<in> L. \<forall>a. \<not> (in_region a p 4096 \<and> in_region a q 4096))"
proof -
  note rel = page_run_rel [OF assms(1)]
  have "p \<notin> L" "page_space p" "fst s' = fst s"
    using pages.alloc_fresh [OF rel assms(2)] pages.alloc_frame [OF rel assms(2)] pages.alloc_mem [OF assms(2)]
    by blast+
  then show ?thesis
    using pages.live_frames [OF rel] aligned_region_unique by (auto simp: page_space_def)
qed

theorem malloc_page_exclusive_witness:
  "0x400000 \<notin> ({} :: u32 set) \<and> page_space 0x400000"
proof -
  have "malloc_page (\<lambda>_. 0, frames_initial) = Inr (0x400000, \<lambda>_. 0, \<lparr>frame_edge = 0x401000, frame_free_list = 0\<rparr>)"
    by (simp add: malloc_page_def frames_initial_def page_numbers)
  from malloc_page_exclusive [OF page_run.start this] show ?thesis by simp
qed

text \<open>
  C12: the allocator panics exactly when every frame from \<open>PAGE_SPACE_START\<close> up to (and not
  including) the last one before \<open>PAGE_SPACE_END\<close> is held: no frame is lost by a free, and
  the last frame is never handed out.
\<close>

theorem malloc_page_exhaustion:
  assumes "page_run s L"
  shows "(\<exists>msg. malloc_page s = Inl (Panic msg)) \<longleftrightarrow> L = {p. page_space p}"
  using frames_rel_full_iff [OF page_run_rel [OF assms]] .

theorem malloc_page_exhaustion_witness:
  "(\<exists>msg. malloc_page (\<lambda>_. 0, frames_initial) = Inl (Panic msg)) \<longleftrightarrow> {} = {p. page_space p}"
  using malloc_page_exhaustion [OF page_run.start [of "\<lambda>_. 0"]] .

text \<open>
  C36: \<open>memmove\<close> copies correctly however source and destination overlap (also across the
  wrap of the address space), and writes nothing outside the destination, for counts up to
  \<open>2\<^sup>3\<^sup>1\<close>, the largest for which the signed distance it tests is meaningful.
\<close>

theorem memmove_correct:
  assumes "unat count \<le> 2 ^ 31"
  shows "memmove dest src count m a =
    (if in_region a dest (unat count) then m (src + (a - dest)) else m a)"
  using memmove_apply [OF assms] .

theorem memmove_correct_witness:
  "memmove 0x102 0x100 4 (\<lambda>a. ucast a) 0x105 = 3"
  by (subst memmove_correct) (simp_all add: in_region_def)

text \<open>
  C37: \<open>strlen\<close> returns \<open>n\<close> exactly when the memory at its argument holds \<open>n\<close> non-zero bytes
  and then a zero byte; in particular it returns on every terminated string, and runs for
  ever when there is no terminator.
\<close>

theorem strlen_correct:
  "strlen m s = Some n \<longleftrightarrow> (\<exists>xs. cstring m s xs \<and> n = of_nat (length xs))"
  using strlen_loop_cstring [of m s _ 0] strlen_loop_Some [of m s 0 n] by (auto simp: strlen_def)

text \<open>
  \<open>memcmp\<close> is 0 exactly when the ranges agree, and otherwise the difference of the first
  two bytes that differ, read as signed bytes.
\<close>

theorem memcmp_correct:
  "(memcmp m p q num = 0 \<longleftrightarrow> (\<forall>i < unat num. m (p + of_nat i) = m (q + of_nat i)))
   \<and> (\<forall>k < unat num. (\<forall>i < k. m (p + of_nat i) = m (q + of_nat i)) \<and> m (p + of_nat k) \<noteq> m (q + of_nat k)
        \<longrightarrow> memcmp m p q num = sint (m (p + of_nat k)) - sint (m (q + of_nat k)))"
  using memcmp_eq_0_iff [of m p q num] memcmp_first_difference [of _ m p q num] by blast

theorem memcmp_correct_witness:
  "memcmp (\<lambda>a. if a = 0x11 then 2 else if a = 0x21 then 0xFF else 7) 0x10 0x20 3 = 3"
proof -
  let ?m = "\<lambda>a :: u32. if a = 0x11 then 2 else if a = 0x21 then 0xFF else (7 :: u8)"
  have "memcmp ?m 0x10 0x20 3 = sint (?m (0x10 + of_nat 1)) - sint (?m (0x20 + of_nat 1))"
    by (rule memcmp_correct [THEN conjunct2, rule_format]) simp_all
  then show ?thesis by simp
qed

text \<open>
  The blocks a run of immortal allocations hands out lie in the arena
  \<open>[0x100000, 0x400000)\<close>, one after the other, so no two of them overlap, and the
  allocator's invariant holds at the end.
\<close>

theorem immortal_blocks_disjoint:
  assumes "immortal_inv st" "\<forall>(sz, alignment) \<in> set rs. sz \<noteq> 0 \<and> unat alignment \<le> 2 ^ 31"
    and "malloc_immortal_run rs st = Inr (bs, st')"
  shows "immortal_inv st' \<and> sorted_wrt blocks_apart bs
    \<and> (\<forall>(p, sz) \<in> set bs. 0x100000 \<le> unat p \<and> unat p + unat sz \<le> 0x400000)"
  using malloc_immortal_run_blocks [OF assms] assms(1) by (fastforce simp: immortal_inv_def)

theorem immortal_blocks_disjoint_witness:
  "sorted_wrt blocks_apart [(0x100000, 3), (0x100008, 8)]"
proof -
  have "malloc_immortal_run [(3, 0), (8, 8)] immortal_initial
    = Inr ([(0x100000, 3), (0x100008, 8)], \<lparr>current = [0, 0x100010]\<rparr>)"
    by (simp add: malloc_immortal_def immortal_initial_def ARENA_START_def)
  from immortal_blocks_disjoint [OF immortal_inv_initial _ this] show ?thesis by simp
qed

text \<open>
  An immortal allocation fails only when the request, with its alignment padding, does
  not fit in what is left of the arena.
\<close>

theorem malloc_immortal_fails_only_when_full:
  assumes "immortal_inv st" "unat alignment \<le> 2 ^ 31" "malloc_immortal sz alignment st = Inl e"
  shows "0x400000 < unat (current st ! 1) + max 1 (unat alignment) + unat sz"
proof (cases "sz = 0")
  case True
  with assms(3) show ?thesis by (simp add: malloc_immortal_def)
next
  case False
  from malloc_immortal_cases [OF assms(1) False assms(2,3)] show ?thesis by auto
qed

theorem malloc_immortal_fails_only_when_full_witness:
  "(0x400000 :: nat) < 0x100000 + 8 + 0x300000"
proof -
  have "malloc_immortal 0x300000 8 (\<lparr>current = [0, 0x100001]\<rparr>)
    = Inl (Panic ''Not enough memory in immortal allocator'')"
    by (simp add: malloc_immortal_def)
  from malloc_immortal_fails_only_when_full [OF _ _ this] show ?thesis
    by (simp add: immortal_inv_def)
qed

end
