(* ===== verification/Ports.thy ===== *)
theory Ports
  imports Prelude
begin

text \<open>
  \<^verbatim>\<open>src/ports.h\<close>: port input and output. The devices behind the ports are hardware, not
  code of the program: a \<open>bus\<close> with its device state is a parameter of every definition that
  does port I/O. Reading a port may change the device (a data port pops a byte), so \<open>inb\<close>
  returns the new device state as well. \<open>log_bus\<close>, a bus that records what is written, is what
  the statements about the order of writes are evaluated on.
\<close>

section \<open>The bus\<close>

record 'd bus =
  dev_out :: "u16 \<Rightarrow> u8 \<Rightarrow> 'd \<Rightarrow> 'd"
  dev_in :: "u16 \<Rightarrow> 'd \<Rightarrow> u8 \<times> 'd"

definition outb :: "'d bus \<Rightarrow> u16 \<Rightarrow> u8 \<Rightarrow> 'd \<Rightarrow> 'd" where
  "outb B p v d = dev_out B p v d"

definition inb :: "'d bus \<Rightarrow> u16 \<Rightarrow> 'd \<Rightarrow> u8 \<times> 'd" where
  "inb B p d = dev_in B p d"

definition pseudodelay :: "'d bus \<Rightarrow> 'd \<Rightarrow> 'd" where
  "pseudodelay B d = for_loop 300 (\<lambda>i. outb B 0x80 0xff) d"

section \<open>A recording bus\<close>

text \<open>Writes are appended to the log (the newest first); reads are served from a script.\<close>

type_synonym log = "(u16 \<times> u8) list \<times> u8 list"

definition log_bus :: "log bus" where
  "log_bus = \<lparr>dev_out = (\<lambda>p v (ws, rs). ((p, v) # ws, rs)),
     dev_in = (\<lambda>p (ws, rs). case rs of [] \<Rightarrow> (0, (ws, rs)) | r # rs' \<Rightarrow> (r, (ws, rs')))\<rparr>"

lemma outb_log [simp]: "outb log_bus p v (ws, rs) = ((p, v) # ws, rs)"
  by (simp add: outb_def log_bus_def)

lemma inb_log [simp]: "inb log_bus p (ws, r # rs) = (r, (ws, rs))"
  by (simp add: inb_def log_bus_def)

text \<open>A delay is 300 writes to the unused port \<open>0x80\<close>; a device that ignores the port sees nothing of it.\<close>

lemma pseudodelay_ignored:
  assumes "\<And>d. dev_out B 0x80 0xff d = d"
  shows "pseudodelay B d = d"
proof -
  have "fold (\<lambda>i. outb B 0x80 0xff) is d = d" for "is" :: "nat list"
    by (induction "is") (auto simp: outb_def assms)
  then show ?thesis by (simp add: pseudodelay_def for_loop_def)
qed

lemma fold_out_log: "fold (\<lambda>i. outb log_bus p v) is (ws, rs) = (replicate (length is) (p, v) @ ws, rs)"
  by (induction "is" arbitrary: ws) (auto simp: replicate_app_Cons_same)

lemma pseudodelay_log: "pseudodelay log_bus (ws, rs) = (replicate 300 (0x80, 0xff) @ ws, rs)"
  by (simp add: pseudodelay_def for_loop_def fold_out_log)

end
