(* ===== verification/Interrupts.thy ===== *)
theory Interrupts
  imports Prelude Memmgnt Ports
begin

text \<open>
  \<^verbatim>\<open>src/interrupts.c\<close>, \<^verbatim>\<open>src/interrupts.h\<close>, \<^verbatim>\<open>src/utils.h\<close>: the interrupt
  descriptor table and its gates, the generated trampolines that normalise the stack and
  jump to \<open>collect_ctx\<close>, the table of handlers and the dispatcher, and the two 8259
  interrupt controllers. The trampolines are machine code the C code writes byte by byte, so
  they live in the flat memory; the gates and the handler table are lists of 256 entries.
  Code addresses (\<open>collect_ctx\<close>, the handlers) are parameters.
\<close>

section \<open>Constants and types of the headers\<close>

datatype PrivilegeLevel = RING_0 | RING_1 | RING_2 | RING_3

fun pl_code :: "PrivilegeLevel \<Rightarrow> 2 word" where
  "pl_code RING_0 = 0" | "pl_code RING_1 = 1" | "pl_code RING_2 = 2" | "pl_code RING_3 = 3"

abbreviation KERNEL_PL :: PrivilegeLevel where "KERNEL_PL \<equiv> RING_0"
abbreviation USER_PL :: PrivilegeLevel where "USER_PL \<equiv> RING_3"

datatype Segment = KERNEL_CODE_SEGMENT | KERNEL_DATA_SEGMENT | APP_CODE_SEGMENT | APP_DATA_SEGMENT | TSS_SEGMENT

fun segment_code :: "Segment \<Rightarrow> u16" where
  "segment_code KERNEL_CODE_SEGMENT = 0x8"
| "segment_code KERNEL_DATA_SEGMENT = 0x10"
| "segment_code APP_CODE_SEGMENT = 0x18 OR ucast (pl_code USER_PL)"
| "segment_code APP_DATA_SEGMENT = 0x20 OR ucast (pl_code USER_PL)"
| "segment_code TSS_SEGMENT = 0x28"

datatype GateDescriptorType = INTERRUPT_GATE | TRAP_GATE

fun gate_type_code :: "GateDescriptorType \<Rightarrow> 4 word" where
  "gate_type_code INTERRUPT_GATE = 0xE" | "gate_type_code TRAP_GATE = 0xF"

definition DOUBLE_FAULT_VECTOR :: u8 where "DOUBLE_FAULT_VECTOR = 0x08"
definition INVALID_TSS_VECTOR :: u8 where "INVALID_TSS_VECTOR = 0x0A"
definition SEGMENT_NOT_PRESENT_VECTOR :: u8 where "SEGMENT_NOT_PRESENT_VECTOR = 0x0B"
definition STACK_SEGMENT_FAULT_VECTOR :: u8 where "STACK_SEGMENT_FAULT_VECTOR = 0x0C"
definition GENERAL_PROTECTION_FAULT_VECTOR :: u8 where "GENERAL_PROTECTION_FAULT_VECTOR = 0x0D"
definition PAGE_FAULT_VECTOR :: u8 where "PAGE_FAULT_VECTOR = 0x0E"
definition ALIGNMENT_CHECK_VECTOR :: u8 where "ALIGNMENT_CHECK_VECTOR = 0x11"
definition CONTROL_PROTECTION_VECTOR :: u8 where "CONTROL_PROTECTION_VECTOR = 0x15"

definition PIC_MASTER_COMMAND_PORT :: u16 where "PIC_MASTER_COMMAND_PORT = 0x20"
definition PIC_MASTER_DATA_PORT :: u16 where "PIC_MASTER_DATA_PORT = 0x21"
definition PIC_SLAVE_COMMAND_PORT :: u16 where "PIC_SLAVE_COMMAND_PORT = 0xA0"
definition PIC_SLAVE_DATA_PORT :: u16 where "PIC_SLAVE_DATA_PORT = 0xA1"
definition PIC_MASTER_VECTOR_RANGE_START :: u8 where "PIC_MASTER_VECTOR_RANGE_START = 0x20"
definition PIC_SLAVE_VECTOR_RANGE_START :: u8 where "PIC_SLAVE_VECTOR_RANGE_START = 0x28"

definition SYSTEM_TIMER :: u32 where "SYSTEM_TIMER = 0x1"
definition KEYBOARD :: u32 where "KEYBOARD = push_bit 1 0x1"
definition MOUSE :: u32 where "MOUSE = push_bit 4 0x1 OR 0x100"
definition ATA_CHANNEL_1 :: u32 where "ATA_CHANNEL_1 = push_bit 6 0x1 OR 0x100"
definition FLOPPY :: u32 where "FLOPPY = push_bit 6 0x1"
definition ALL_DEVICES :: u32 where "ALL_DEVICES = 0xffff"

definition SYSTEM_TIMER_VECTOR :: u8 where "SYSTEM_TIMER_VECTOR = PIC_MASTER_VECTOR_RANGE_START"
definition KEYBOARD_VECTOR :: u8 where "KEYBOARD_VECTOR = PIC_MASTER_VECTOR_RANGE_START + 1"
definition MOUSE_VECTOR :: u8 where "MOUSE_VECTOR = PIC_SLAVE_VECTOR_RANGE_START + 4"

datatype EOIType = NON_AUTOMATIC_EOI | AUTOMATIC_EOI

text \<open>The registers an interrupt saves, and the control registers.\<close>

record Context =
  edi :: u32
  esi :: u32
  ebp :: u32
  esp :: u32
  ebx :: u32
  edx :: u32
  ecx :: u32
  eax :: u32
  gs :: u16
  fs :: u16
  es :: u16
  ds :: u16
  vector :: u8
  error_code :: u32
  eip :: u32
  cs :: u16
  eflags :: u32

record CRContext =
  cr0 :: u32
  cr2 :: u32
  cr3 :: u32
  cr4 :: u32

text \<open>The gate descriptor, with its bit fields at their widths.\<close>

record GateDescriptor =
  offset_low :: u16
  segment_selector :: u16
  reserved :: "5 word"
  fixed1 :: "3 word"
  gate_type :: "4 word"
  fixed2 :: "1 word"
  descriptor_privilege_level :: "2 word"
  present :: "1 word"
  offset_high :: u16

text \<open>The union's \<open>qword\<close> view: the fields packed from bit 0 on, as the processor reads them.\<close>

definition gate_qword :: "GateDescriptor \<Rightarrow> u64" where
  "gate_qword g = ucast (offset_low g) OR push_bit 16 (ucast (segment_selector g))
     OR push_bit 32 (ucast (reserved g)) OR push_bit 37 (ucast (fixed1 g))
     OR push_bit 40 (ucast (gate_type g)) OR push_bit 44 (ucast (fixed2 g))
     OR push_bit 45 (ucast (descriptor_privilege_level g)) OR push_bit 47 (ucast (present g))
     OR push_bit 48 (ucast (offset_high g))"

definition gate_of_qword :: "u64 \<Rightarrow> GateDescriptor" where
  "gate_of_qword q = \<lparr>offset_low = ucast q, segment_selector = ucast (drop_bit 16 q),
     reserved = ucast (drop_bit 32 q), fixed1 = ucast (drop_bit 37 q),
     gate_type = ucast (drop_bit 40 q), fixed2 = ucast (drop_bit 44 q),
     descriptor_privilege_level = ucast (drop_bit 45 q), present = ucast (drop_bit 47 q),
     offset_high = ucast (drop_bit 48 q)\<rparr>"

section \<open>The interrupt descriptor table\<close>

text \<open>
  The static variables of \<^verbatim>\<open>interrupts.c\<close>: the table of gates with its address, the
  handlers (0 is \<open>NULL\<close>), the address of the trampolines, and the limit and base the
  processor was given by \<open>lidt\<close>.
\<close>

record interrupts =
  idt :: "GateDescriptor list"
  idt_address :: u32
  handlerTable :: "u32 list"
  trampolines :: u32
  idtr :: "u16 \<times> u32"

definition VECTOR_COUNT :: nat where "VECTOR_COUNT = 256"
definition EXCEPTION_COUNT :: nat where "EXCEPTION_COUNT = 0x20"
definition TRAMPOLINE_SIZE :: u32 where "TRAMPOLINE_SIZE = 8"

definition has_error_code :: "u8 \<Rightarrow> bool" where
  "has_error_code v \<longleftrightarrow> v \<in> {DOUBLE_FAULT_VECTOR, INVALID_TSS_VECTOR, SEGMENT_NOT_PRESENT_VECTOR,
     STACK_SEGMENT_FAULT_VECTOR, GENERAL_PROTECTION_FAULT_VECTOR, PAGE_FAULT_VECTOR,
     ALIGNMENT_CHECK_VECTOR, CONTROL_PROTECTION_VECTOR, 0x1D, 0x1E}"

text \<open>One round of the loop: \<open>push cs\<close> where the processor pushes no error code, \<open>push vector\<close>, \<open>jmp collect_ctx\<close>.\<close>

definition trampoline_step :: "u32 \<Rightarrow> u32 \<Rightarrow> memory \<times> u32 \<Rightarrow> memory \<times> u32" where
  "trampoline_step collect_ctx v s =
     (let (m, t) = s;
          f = has_error_code (ucast v);
          (m, t) = (if \<not> f then (m(t := 0x0E), t + 1) else (m, t));
          (m, t) = (m(t := 0x6A), t + 1);
          (m, t) = (m(t := ucast v), t + 1);
          (m, t) = (m(t := 0xE9), t + 1);
          m = store32 m t (collect_ctx - t - 4);
          t = t + 4
      in (m, t + of_bool f))"

definition generate_trampolines :: "u32 \<Rightarrow> memory \<times> immortal \<Rightarrow> (u32 \<times> memory \<times> immortal) result" where
  "generate_trampolines collect_ctx ms =
     (case malloc_immortal (of_nat VECTOR_COUNT * TRAMPOLINE_SIZE) 8 (snd ms) of
        Inl e \<Rightarrow> Inl e
      | Inr (ts, im) \<Rightarrow>
          Inr (ts, fst (for_loop (of_nat VECTOR_COUNT) (trampoline_step collect_ctx) (fst ms, ts)), im))"

definition write_descriptor :: "u32 \<Rightarrow> GateDescriptorType \<Rightarrow> bool \<Rightarrow> GateDescriptor" where
  "write_descriptor trampoline ty pr = \<lparr>
     offset_low = ucast (trampoline AND 0xFFFF),
     segment_selector = segment_code KERNEL_CODE_SEGMENT,
     reserved = 0,
     fixed1 = 0,
     gate_type = gate_type_code ty,
     fixed2 = 0,
     descriptor_privilege_level = pl_code KERNEL_PL,
     present = of_bool pr,
     offset_high = ucast (drop_bit 16 trampoline AND 0xFFFF)\<rparr>"

definition generate_idt :: "u32 \<Rightarrow> memory \<times> immortal \<times> interrupts \<Rightarrow> (memory \<times> immortal \<times> interrupts) result" where
  "generate_idt collect_ctx s =
     (let (m, im, st) = s in
      case generate_trampolines collect_ctx (m, im) of
        Inl e \<Rightarrow> Inl e
      | Inr (ts, m, im) \<Rightarrow>
          (case malloc_immortal (8 * of_nat VECTOR_COUNT) 8 im of
             Inl e \<Rightarrow> Inl e
           | Inr (a, im) \<Rightarrow>
               Inr (m, im, st\<lparr>trampolines := ts, idt_address := a,
                 idt := map (\<lambda>i. write_descriptor (ts + TRAMPOLINE_SIZE * of_nat i) INTERRUPT_GATE False) [0..<VECTOR_COUNT],
                 idtr := (8 * of_nat VECTOR_COUNT - 1, a)\<rparr>)))"

definition init_exceptions :: "interrupts \<Rightarrow> interrupts" where
  "init_exceptions st = st\<lparr>idt := fold (\<lambda>i t. t[i := (t ! i)\<lparr>present := 1\<rparr>]) [0..<EXCEPTION_COUNT] (idt st)\<rparr>"

definition direct_set_interrupt_handler :: "u8 \<Rightarrow> GateDescriptorType \<Rightarrow> PrivilegeLevel \<Rightarrow> u32 \<Rightarrow> interrupts \<Rightarrow> interrupts" where
  "direct_set_interrupt_handler v ty dpl handler st =
     st\<lparr>idt := (idt st)[unat v := (idt st ! unat v)\<lparr>
       gate_type := gate_type_code ty,
       descriptor_privilege_level := pl_code dpl,
       offset_low := ucast (handler AND 0xFFFF),
       offset_high := ucast (drop_bit 16 handler AND 0xFFFF),
       present := 1\<rparr>]\<rparr>"

definition set_interrupt_handler :: "u8 \<Rightarrow> GateDescriptorType \<Rightarrow> PrivilegeLevel \<Rightarrow> u32 \<Rightarrow> interrupts \<Rightarrow> interrupts" where
  "set_interrupt_handler v ty dpl handler st =
     direct_set_interrupt_handler v ty dpl (trampolines st + ucast v * TRAMPOLINE_SIZE)
       (st\<lparr>handlerTable := (handlerTable st)[unat v := handler]\<rparr>)"

definition init_interrupts :: "u32 \<Rightarrow> u32 \<Rightarrow> memory \<times> immortal \<times> interrupts \<Rightarrow> (memory \<times> immortal \<times> interrupts) result" where
  "init_interrupts collect_ctx pagefault_handler s =
     (case generate_idt collect_ctx s of
        Inl e \<Rightarrow> Inl e
      | Inr (m, im, st) \<Rightarrow>
          (case calloc_immortal (4 * of_nat VECTOR_COUNT) 8 (m, im) of
             Inl e \<Rightarrow> Inl e
           | Inr (_, m, im) \<Rightarrow>
               Inr (m, im, set_interrupt_handler PAGE_FAULT_VECTOR INTERRUPT_GATE KERNEL_PL pagefault_handler
                 (init_exceptions (st\<lparr>handlerTable := replicate VECTOR_COUNT 0\<rparr>)))))"

section \<open>Dispatch\<close>

definition PANIC_MESSAGE :: string where
  "PANIC_MESSAGE =
     ''Kernel panic: unhandled interrupt #%#010x at %#010x:%#010x\<newline>\<newline>'' @
     ''Registers:\<newline>'' @
     ''  EAX: %#010x, ECX: %#010x, EDX: %#010x, EBX: %#010x\<newline>'' @
     ''  ESP: %#010x, EBP: %#010x, ESI: %#010x, EDI: %#010x\<newline>\<newline>'' @
     ''EFLAGS:\<newline>  %#010x\<newline>''"

definition ERROR_CODE_MESSAGE :: string where
  "ERROR_CODE_MESSAGE = ''Error code: %#010x\<newline>''"

definition CR_MESSAGE :: string where
  "CR_MESSAGE = ''Control registers:\<newline>'' @ ''  CR0: %#010x\<newline>'' @ ''  CR2: %#010x\<newline>''
     @ ''  CR3: %#010x\<newline>'' @ ''  CR4: %#010x\<newline>''"

definition UNPACK_CONTEXT :: "Context \<Rightarrow> u32 list" where
  "UNPACK_CONTEXT ctx = [ucast (vector ctx), ucast (cs ctx), eip ctx, eax ctx, ecx ctx, edx ctx, ebx ctx,
     esp ctx, ebp ctx, esi ctx, edi ctx, eflags ctx]"

definition UNPACK_CR :: "CRContext \<Rightarrow> u32 list" where
  "UNPACK_CR crctx = [cr0 crctx, cr2 crctx, cr3 crctx, cr4 crctx]"

text \<open>What the dispatcher does: call a handler, or \<open>kernel_panic\<close> with a format and its arguments.\<close>

datatype dispatch = Call u32 Context | KernelPanic string "u32 list"

definition universal_interrupt_handler :: "interrupts \<Rightarrow> Context \<Rightarrow> dispatch" where
  "universal_interrupt_handler st ctx =
     (let handler = handlerTable st ! unat (vector ctx) in
      if handler \<noteq> 0 then Call handler ctx
      else if has_error_code (vector ctx)
      then KernelPanic (PANIC_MESSAGE @ ''\<newline>'' @ ERROR_CODE_MESSAGE) (UNPACK_CONTEXT ctx @ [error_code ctx])
      else KernelPanic PANIC_MESSAGE (UNPACK_CONTEXT ctx))"

section \<open>The 8259 controllers\<close>

text \<open>The initialisation command words, packed from their bit fields.\<close>

definition ICW1_byte :: "1 word \<Rightarrow> 1 word \<Rightarrow> 1 word \<Rightarrow> 1 word \<Rightarrow> 1 word \<Rightarrow> u8" where
  "ICW1_byte ICW4_needed sngl zero2 trigger_mode one =
     ucast ICW4_needed OR push_bit 1 (ucast sngl) OR push_bit 2 (ucast zero2)
     OR push_bit 3 (ucast trigger_mode) OR push_bit 4 (ucast one)"

definition ICW2_byte :: "3 word \<Rightarrow> 5 word \<Rightarrow> u8" where
  "ICW2_byte zero vec = ucast zero OR push_bit 3 (ucast vec)"

definition ICW4_byte :: "1 word \<Rightarrow> EOIType \<Rightarrow> 2 word \<Rightarrow> bool \<Rightarrow> u8" where
  "ICW4_byte mode automatic_EOI buffer_mode special_fully_nested_mode =
     ucast mode OR push_bit 1 (case automatic_EOI of NON_AUTOMATIC_EOI \<Rightarrow> 0 | AUTOMATIC_EOI \<Rightarrow> 1)
     OR push_bit 2 (ucast buffer_mode) OR push_bit 4 (of_bool special_fully_nested_mode)"

definition PIC_SLAVE_IRQ_LINE :: nat where "PIC_SLAVE_IRQ_LINE = 2"

definition init_pic :: "'d bus \<Rightarrow> EOIType \<Rightarrow> 'd \<Rightarrow> 'd" where
  "init_pic B automatic_EOI d =
     (let ICW1 = ICW1_byte 1 0 0 0 1;
          ICW2_master = ICW2_byte 0 (ucast (drop_bit 3 PIC_MASTER_VECTOR_RANGE_START));
          ICW2_slave = ICW2_byte 0 (ucast (drop_bit 3 PIC_SLAVE_VECTOR_RANGE_START));
          ICW3_master = push_bit PIC_SLAVE_IRQ_LINE 1;
          ICW3_slave = of_nat PIC_SLAVE_IRQ_LINE;
          ICW4 = ICW4_byte 1 automatic_EOI 0 False;
          d = outb B PIC_MASTER_COMMAND_PORT ICW1 d;
          d = outb B PIC_SLAVE_COMMAND_PORT ICW1 d;
          d = pseudodelay B d;
          d = outb B PIC_MASTER_DATA_PORT ICW2_master d;
          d = outb B PIC_SLAVE_DATA_PORT ICW2_slave d;
          d = pseudodelay B d;
          d = outb B PIC_MASTER_DATA_PORT ICW3_master d;
          d = outb B PIC_SLAVE_DATA_PORT ICW3_slave d;
          d = pseudodelay B d;
          d = outb B PIC_MASTER_DATA_PORT ICW4 d;
          d = outb B PIC_SLAVE_DATA_PORT ICW4 d;
          d = pseudodelay B d;
          d = outb B PIC_MASTER_DATA_PORT 0xff d
      in outb B PIC_SLAVE_DATA_PORT 0xff d)"

definition enable_io_devices :: "'d bus \<Rightarrow> u32 \<Rightarrow> 'd \<Rightarrow> 'd" where
  "enable_io_devices B devices d =
     (let d = (if devices AND 0x100 \<noteq> 0
               then let (mask, d) = inb B PIC_SLAVE_DATA_PORT d
                    in outb B PIC_SLAVE_DATA_PORT (mask AND NOT (ucast devices)) d
               else d)
      in if devices AND 0x100 = 0 \<or> devices = ALL_DEVICES
         then let (mask, d) = inb B PIC_MASTER_DATA_PORT d
              in outb B PIC_MASTER_DATA_PORT (mask AND NOT (ucast devices)) d
         else d)"

definition disable_io_devices :: "'d bus \<Rightarrow> u32 \<Rightarrow> 'd \<Rightarrow> 'd" where
  "disable_io_devices B devices d =
     (let d = (if devices AND 0x100 \<noteq> 0
               then let (mask, d) = inb B PIC_SLAVE_DATA_PORT d
                    in outb B PIC_SLAVE_DATA_PORT (mask OR ucast devices) d
               else d)
      in if devices AND 0x100 = 0 \<or> devices = ALL_DEVICES
         then let (mask, d) = inb B PIC_MASTER_DATA_PORT d
              in outb B PIC_MASTER_DATA_PORT (mask OR ucast devices) d
         else d)"

section \<open>Lemmas: trampolines\<close>

text \<open>
  What the processor does at an address, for the three instructions a trampoline is made of
  (\<open>0E\<close> push cs, \<open>6A ib\<close> push imm8, \<open>E9 cd\<close> jmp rel32): whether a filler word is pushed, the
  byte pushed, and the address jumped to.
\<close>

definition entry_effect :: "memory \<Rightarrow> u32 \<Rightarrow> (bool \<times> u8 \<times> u32) option" where
  "entry_effect m a =
     (let filler = (m a = 0x0E); b = (if filler then a + 1 else a) in
      if m b = 0x6A \<and> m (b + 2) = 0xE9
      then Some (filler, m (b + 1), b + 7 + load32 m (b + 3)) else None)"

lemma entry_effect_cong:
  assumes "\<And>k. k < 8 \<Longrightarrow> m (a + of_nat k) = m' (a + of_nat k)"
  shows "entry_effect m a = entry_effect m' a"
  using assms [of 0] assms [of 1] assms [of 2] assms [of 3] assms [of 4] assms [of 5] assms [of 6] assms [of 7]
  by (simp add: entry_effect_def load32_def Let_def ac_simps)

lemma store32_before [simp]:
  "store32 m (4 + t) v t = m t" "store32 m (4 + t) v (t + 1) = m (t + 1)"
  "store32 m (4 + t) v (2 + t) = m (2 + t)" "store32 m (4 + t) v (3 + t) = m (3 + t)"
  "store32 m (3 + t) v t = m t" "store32 m (3 + t) v (t + 1) = m (t + 1)"
  "store32 m (3 + t) v (2 + t) = m (2 + t)" "store32 m (3 + t) v (t + 2) = m (2 + t)"
  "load32 (store32 m (3 + t) v) (t + 3) = v"
  using load32_store32 [of m "3 + t" v] by (simp_all add: store32_def add.commute [of t])

lemma trampoline_step_effect:
  assumes "trampoline_step cc v (m, t) = (m', t')"
  shows "t' = t + 8" "entry_effect m' t = Some (\<not> has_error_code (ucast v), ucast v, cc)"
    "same_outside (\<lambda>a. in_region a t 8) m m'"
proof -
  have in8: "in_region (t + of_nat k) t 8" if "k < 8" for k
    using that by (intro in_region_offset) auto
  have *: "in_region (t + 1) t 8" "in_region (2 + t) t 8" "in_region (3 + t) t 8"
    "in_region (4 + t) t 8" "in_region (5 + t) t 8" "in_region (6 + t) t 8" "in_region (7 + t) t 8"
    using in8 [of 1] in8 [of 2] in8 [of 3] in8 [of 4] in8 [of 5] in8 [of 6] in8 [of 7]
    by (simp_all add: ac_simps)
  show "t' = t + 8"
    using assms by (auto simp: trampoline_step_def Let_def split: if_splits)
  show "same_outside (\<lambda>a. in_region a t 8) m m'"
    using assms * by (auto simp: trampoline_step_def Let_def same_outside_def store32_def split: if_splits)
  show "entry_effect m' t = Some (\<not> has_error_code (ucast v), ucast v, cc)"
    using assms
    by (auto simp: trampoline_step_def Let_def entry_effect_def split: if_splits)
qed

lemma word_of_index: "v < 256 \<Longrightarrow> ucast (of_nat v :: u32) = (of_nat v :: u8)"
  by (simp add: unsigned_of_nat take_bit_nat_eq_self)

text \<open>The loop writes 256 entries of 8 bytes each, end to end.\<close>

lemma trampoline_loop:
  assumes "for_loop (of_nat VECTOR_COUNT) (trampoline_step cc) (m, ts) = (m', t')"
  shows "t' = ts + 2048" "same_outside (\<lambda>a. in_region a ts 2048) m m'"
    "v < 256 \<Longrightarrow> entry_effect m' (ts + of_nat (8 * v)) = Some (\<not> has_error_code (of_nat v), of_nat v, cc)"
proof -
  let ?P = "\<lambda>i (m', t'). t' = ts + of_nat (8 * i) \<and> same_outside (\<lambda>a. in_region a ts (8 * i)) m m'
    \<and> (\<forall>v < i. entry_effect m' (ts + of_nat (8 * v)) = Some (\<not> has_error_code (of_nat v), of_nat v, cc))"
  have n: "unat (of_nat VECTOR_COUNT :: u32) = 256" by (simp add: VECTOR_COUNT_def)
  have "?P (unat (of_nat VECTOR_COUNT :: u32)) (for_loop (of_nat VECTOR_COUNT) (trampoline_step cc) (m, ts))"
  proof (rule for_loop_invariant [where P = ?P])
    fix i s
    assume i: "i < unat (of_nat VECTOR_COUNT :: u32)" and IH: "?P i s"
    obtain m1 t1 where s: "s = (m1, t1)" by fastforce
    obtain m2 t2 where step: "trampoline_step cc (of_nat i) (m1, t1) = (m2, t2)" by fastforce
    have i256: "i < 256" using i n by simp
    from IH s have t1: "t1 = ts + of_nat (8 * i)" and fr: "same_outside (\<lambda>a. in_region a ts (8 * i)) m m1"
      and old: "\<forall>v < i. entry_effect m1 (ts + of_nat (8 * v)) = Some (\<not> has_error_code (of_nat v), of_nat v, cc)"
      by auto
    note e = trampoline_step_effect [OF step]
    have sub: "in_region a ts (8 * Suc i)" if "in_region a t1 8 \<or> in_region a ts (8 * i)" for a
      using that
    proof
      assume "in_region a t1 8"
      then obtain k where "k < 8" "a = t1 + of_nat k" by (rule in_regionE)
      then have "a = ts + of_nat (8 * i + k)" "8 * i + k < 8 * Suc i" using t1 by auto
      have "in_region (ts + of_nat (8 * i + k)) ts (8 * Suc i)"
        using i256 \<open>8 * i + k < 8 * Suc i\<close> by (intro in_region_offset) auto
      then show ?thesis using \<open>a = ts + of_nat (8 * i + k)\<close> by (simp only:)
    qed (auto elim: in_region_mono)
    have keep: "entry_effect m2 (ts + of_nat (8 * v)) = entry_effect m1 (ts + of_nat (8 * v))" if "v < i" for v
    proof (rule entry_effect_cong)
      fix k :: nat
      assume k: "k < 8"
      have "\<not> in_region (ts + of_nat (8 * v) + of_nat k) t1 8"
      proof
        assume "in_region (ts + of_nat (8 * v) + of_nat k) t1 8"
        then obtain l where "l < 8" "ts + of_nat (8 * v) + of_nat k = ts + of_nat (8 * i) + of_nat l"
          unfolding t1 by (rule in_regionE)
        with k i256 that have "v = i" by (intro cell_bytes_distinct [of ts 8 v k i l]) auto
        with that show False by simp
      qed
      with e(3) show "m2 (ts + of_nat (8 * v) + of_nat k) = m1 (ts + of_nat (8 * v) + of_nat k)"
        by (rule same_outsideD)
    qed
    have "same_outside (\<lambda>a. in_region a ts (8 * Suc i)) m m2"
      by (rule same_outside_trans [OF same_outside_mono [OF fr] same_outside_mono [OF e(3)]]) (use sub in auto)
    moreover have "\<forall>v < Suc i. entry_effect m2 (ts + of_nat (8 * v)) = Some (\<not> has_error_code (of_nat v), of_nat v, cc)"
      using old keep e(2) t1 word_of_index [OF i256] by (auto simp: less_Suc_eq)
    moreover have "t2 = ts + of_nat (8 * Suc i)" using e(1) t1 by simp
    ultimately show "?P (Suc i) (trampoline_step cc (of_nat i) s)"
      unfolding s step by simp
  qed simp
  with assms n show "t' = ts + 2048" "same_outside (\<lambda>a. in_region a ts 2048) m m'"
    "v < 256 \<Longrightarrow> entry_effect m' (ts + of_nat (8 * v)) = Some (\<not> has_error_code (of_nat v), of_nat v, cc)"
    by simp_all
qed

section \<open>Lemmas: gates and handlers\<close>

text \<open>The address the processor reads out of a gate.\<close>

definition gate_target :: "GateDescriptor \<Rightarrow> u32" where
  "gate_target g = push_bit 16 (ucast (offset_high g)) OR ucast (offset_low g)"

lemma split_offset:
  "push_bit 16 (ucast (ucast (drop_bit 16 a AND 0xFFFF :: u32) :: u16)) OR ucast (ucast (a AND 0xFFFF :: u32) :: u16) = (a :: u32)"
proof (rule bit_word_eqI)
  fix n
  assume n: "n < LENGTH(32)"
  show "bit (push_bit 16 (ucast (ucast (drop_bit 16 a AND 0xFFFF :: u32) :: u16)) OR ucast (ucast (a AND 0xFFFF :: u32) :: u16) :: u32) n
    = bit a n"
    using n unfolding mask_numerals by (cases "n < 16") (auto simp: bit_simps)
qed

lemma gate_target_write [simp]: "gate_target (write_descriptor t ty pr) = t"
  by (simp add: gate_target_def write_descriptor_def split_offset)

text \<open>
  The invariant of the table: 256 gates and 256 handlers, and every vector with a handler
  has a present gate that leads to its trampoline.
\<close>

definition idt_inv :: "interrupts \<Rightarrow> bool" where
  "idt_inv st \<longleftrightarrow> length (idt st) = 256 \<and> length (handlerTable st) = 256
     \<and> (\<forall>v < 256. handlerTable st ! v \<noteq> 0 \<longrightarrow>
          present (idt st ! v) = 1 \<and> gate_target (idt st ! v) = trampolines st + of_nat (8 * v))"

lemma u8_index [simp]: "unat (v :: u8) < 256"
  using unsigned_less [of v] by simp

lemma set_interrupt_handler_fields [simp]:
  "length (idt (set_interrupt_handler v ty dpl h st)) = length (idt st)"
  "handlerTable (set_interrupt_handler v ty dpl h st) = (handlerTable st)[unat v := h]"
  "trampolines (set_interrupt_handler v ty dpl h st) = trampolines st"
  "idt_address (set_interrupt_handler v ty dpl h st) = idt_address st"
  by (simp_all add: set_interrupt_handler_def direct_set_interrupt_handler_def)

lemma trampoline_address: "ucast (v :: u8) * TRAMPOLINE_SIZE = of_nat (8 * unat v)"
  by (simp add: TRAMPOLINE_SIZE_def)

lemma set_interrupt_handler_gate:
  assumes "length (idt st) = 256"
  shows "gate_target (idt (set_interrupt_handler v ty dpl h st) ! unat v) = trampolines st + of_nat (8 * unat v)"
    "present (idt (set_interrupt_handler v ty dpl h st) ! unat v) = 1"
    "gate_type (idt (set_interrupt_handler v ty dpl h st) ! unat v) = gate_type_code ty"
    "descriptor_privilege_level (idt (set_interrupt_handler v ty dpl h st) ! unat v) = pl_code dpl"
    "\<And>w. w \<noteq> unat v \<Longrightarrow> idt (set_interrupt_handler v ty dpl h st) ! w = idt st ! w"
  using assms
  by (simp_all add: set_interrupt_handler_def direct_set_interrupt_handler_def gate_target_def split_offset trampoline_address)

lemma set_interrupt_handler_inv:
  assumes "idt_inv st"
  shows "idt_inv (set_interrupt_handler v ty dpl h st)"
  unfolding idt_inv_def
proof (intro conjI allI impI)
  show "length (idt (set_interrupt_handler v ty dpl h st)) = 256"
    "length (handlerTable (set_interrupt_handler v ty dpl h st)) = 256"
    using assms by (simp_all add: idt_inv_def)
  fix w :: nat
  assume w: "w < 256" "handlerTable (set_interrupt_handler v ty dpl h st) ! w \<noteq> 0"
  have len: "length (idt st) = 256" using assms by (simp add: idt_inv_def)
  note gates = set_interrupt_handler_gate [OF len]
  have "present (idt (set_interrupt_handler v ty dpl h st) ! w) = 1
    \<and> gate_target (idt (set_interrupt_handler v ty dpl h st) ! w) = trampolines st + of_nat (8 * w)"
  proof (cases "w = unat v")
    case True
    then show ?thesis by (simp only: gates)
  next
    case False
    with assms w show ?thesis by (simp add: gates idt_inv_def)
  qed
  then show "present (idt (set_interrupt_handler v ty dpl h st) ! w) = 1"
    "gate_target (idt (set_interrupt_handler v ty dpl h st) ! w) = trampolines (set_interrupt_handler v ty dpl h st) + of_nat (8 * w)"
    by simp_all
qed

lemma init_exceptions_nth:
  assumes "n \<le> length t" "v < length t"
  shows "fold (\<lambda>i t. t[i := (t ! i)\<lparr>present := 1\<rparr>]) [0..<n] t ! v
    = (if v < n then (t ! v)\<lparr>present := 1\<rparr> else t ! v)
    \<and> length (fold (\<lambda>i t. t[i := (t ! i)\<lparr>present := 1\<rparr>]) [0..<n] t) = length t"
  using assms by (induction n) (auto simp: nth_list_update less_Suc_eq)

lemma region_below_disjoint:
  assumes "in_region a b n" "unat b + n \<le> unat c" "unat c + k \<le> 2 ^ 32"
  shows "\<not> in_region a c k"
proof
  assume "in_region a c k"
  then obtain j where j: "j < k" "a = c + of_nat j" by (rule in_regionE)
  obtain i where i: "i < n" "a = b + of_nat i" using assms(1) by (rule in_regionE)
  have "unat a = unat c + j"
    using j assms(3) by (simp add: unat_word_ariths unat_of_nat take_bit_nat_eq_self)
  moreover have "unat a = unat b + i"
    using i assms(2) unat_lt_2p32 [of c] by (simp add: unat_word_ariths unat_of_nat take_bit_nat_eq_self)
  ultimately show False using i(1) assms(2) by simp
qed

text \<open>The tables as \<open>generate_idt\<close> leaves them, for trampolines at \<open>ts\<close> and a table at \<open>a\<close>, with no handler yet.\<close>

definition fresh_tables :: "u32 \<Rightarrow> u32 \<Rightarrow> interrupts \<Rightarrow> interrupts" where
  "fresh_tables ts a st = st\<lparr>trampolines := ts, idt_address := a,
     idt := map (\<lambda>i. write_descriptor (ts + TRAMPOLINE_SIZE * of_nat i) INTERRUPT_GATE False) [0..<VECTOR_COUNT],
     idtr := (2047, a), handlerTable := replicate VECTOR_COUNT 0\<rparr>"

lemma fresh_tables_fields:
  "trampolines (init_exceptions (fresh_tables ts a st)) = ts"
  "handlerTable (init_exceptions (fresh_tables ts a st)) = replicate 256 0"
  "idtr (init_exceptions (fresh_tables ts a st)) = (2047, a)"
  "idt_address (init_exceptions (fresh_tables ts a st)) = a"
  by (simp_all add: init_exceptions_def fresh_tables_def VECTOR_COUNT_def)

lemma fresh_gates:
  "length (idt (init_exceptions (fresh_tables ts a st))) = 256"
  "v < 256 \<Longrightarrow> idt (init_exceptions (fresh_tables ts a st)) ! v =
     (write_descriptor (ts + of_nat (8 * v)) INTERRUPT_GATE False)\<lparr>present := of_bool (v < 32)\<rparr>"
  using init_exceptions_nth [of EXCEPTION_COUNT "idt (fresh_tables ts a st)" v]
    init_exceptions_nth [of EXCEPTION_COUNT "idt (fresh_tables ts a st)" 0]
  by (auto simp: init_exceptions_def fresh_tables_def EXCEPTION_COUNT_def VECTOR_COUNT_def
      TRAMPOLINE_SIZE_def write_descriptor_def)

lemma gate_target_present [simp]: "gate_target (g\<lparr>present := p\<rparr>) = gate_target g"
  by (simp add: gate_target_def)

lemma set_interrupt_handler_rest [simp]:
  "idtr (set_interrupt_handler v ty dpl h st) = idtr st"
  "length (idt st) = 256 \<Longrightarrow>
    segment_selector (idt (set_interrupt_handler v ty dpl h st) ! w) = segment_selector (idt st ! w)"
  by (auto simp: set_interrupt_handler_def direct_set_interrupt_handler_def nth_list_update)

text \<open>The gates and handlers once the page fault handler is installed.\<close>

lemma tables_with_handler:
  fixes st :: interrupts
  defines "st' ts a pf \<equiv> set_interrupt_handler PAGE_FAULT_VECTOR INTERRUPT_GATE KERNEL_PL pf
    (init_exceptions (fresh_tables ts a st))"
  assumes "v < 256"
  shows "gate_target (idt (st' ts a pf) ! v) = ts + of_nat (8 * v)"
    "present (idt (st' ts a pf) ! v) = 1 \<longleftrightarrow> v < 32"
    "segment_selector (idt (st' ts a pf) ! v) = 8"
    "handlerTable (st' ts a pf) ! v = (if v = 14 then pf else 0)"
    "descriptor_privilege_level (idt (st' ts a pf) ! v) = pl_code KERNEL_PL"
proof -
  have pfv: "unat PAGE_FAULT_VECTOR = 14" by (simp add: PAGE_FAULT_VECTOR_def)
  note s = set_interrupt_handler_gate [OF fresh_gates(1) [of ts a st], where v = PAGE_FAULT_VECTOR
      and ty = INTERRUPT_GATE and dpl = KERNEL_PL and h = pf, unfolded pfv, folded st'_def]
  show "gate_target (idt (st' ts a pf) ! v) = ts + of_nat (8 * v)"
    using s fresh_gates(2) [OF assms(2)] by (cases "v = 14") (auto simp: fresh_tables_fields)
  show "present (idt (st' ts a pf) ! v) = 1 \<longleftrightarrow> v < 32"
    using s fresh_gates(2) [OF assms(2)] by (cases "v = 14") auto
  show "segment_selector (idt (st' ts a pf) ! v) = 8"
    using fresh_gates(2) [OF assms(2)] by (simp add: st'_def fresh_gates(1) write_descriptor_def)
  show "handlerTable (st' ts a pf) ! v = (if v = 14 then pf else 0)"
    using assms(2) by (simp add: st'_def fresh_tables_fields pfv nth_list_update)
  show "descriptor_privilege_level (idt (st' ts a pf) ! v) = pl_code KERNEL_PL"
    using s fresh_gates(2) [OF assms(2)] by (cases "v = 14") (auto simp: write_descriptor_def)
qed

lemma init_interruptsE:
  assumes "init_interrupts cc pf (m, im, st) = Inr (m', im', st')" "immortal_inv im"
  obtains m1 t1 a h where
    "for_loop (of_nat VECTOR_COUNT) (trampoline_step cc) (m, trampolines st') = (m1, t1)"
    "m' = memzero h 1024 m1" "unat (trampolines st') + 2048 \<le> unat h" "unat h + 1024 \<le> 0x400000"
    "unat (current im ! 1) \<le> unat (trampolines st')"
    "st' = set_interrupt_handler PAGE_FAULT_VECTOR INTERRUPT_GATE KERNEL_PL pf
       (init_exceptions (fresh_tables (trampolines st') a st))"
proof -
  have n: "of_nat VECTOR_COUNT * TRAMPOLINE_SIZE = (2048 :: u32)" "8 * of_nat VECTOR_COUNT = (2048 :: u32)"
    "8 * of_nat VECTOR_COUNT - 1 = (2047 :: u16)" "4 * of_nat VECTOR_COUNT = (1024 :: u32)"
    by (simp_all add: VECTOR_COUNT_def TRAMPOLINE_SIZE_def)
  from assms(1) obtain ts im1 a im2 h where
    1: "malloc_immortal 2048 8 im = Inr (ts, im1)" and 2: "malloc_immortal 2048 8 im1 = Inr (a, im2)"
    and 3: "malloc_immortal 1024 8 im2 = Inr (h, im')"
    and m': "m' = memzero h 1024 (fst (for_loop (of_nat VECTOR_COUNT) (trampoline_step cc) (m, ts)))"
    and st': "st' = set_interrupt_handler PAGE_FAULT_VECTOR INTERRUPT_GATE KERNEL_PL pf
       (init_exceptions (fresh_tables ts a st))"
    unfolding init_interrupts_def generate_idt_def generate_trampolines_def calloc_immortal_def n fresh_tables_def
    by (auto split: sum.splits prod.splits)
  note b1 = malloc_immortal_ok [OF assms(2) _ _ 1]
  note b2 = malloc_immortal_ok [OF b1(1) _ _ 2]
  note b3 = malloc_immortal_ok [OF b2(1) _ _ 3]
  have ts: "trampolines st' = ts" by (simp add: st' fresh_tables_fields)
  obtain m1 t1 where loop: "for_loop (of_nat VECTOR_COUNT) (trampoline_step cc) (m, ts) = (m1, t1)" by fastforce
  show thesis
    using that [of m1 t1 h a] b1 b2 b3 loop m' st' unfolding ts by simp
qed

text \<open>Clearing the handler table, which lies above the trampolines, keeps the entries.\<close>

lemma entries_kept:
  assumes "unat ts + 2048 \<le> unat h" "unat h + 1024 \<le> 0x400000" "v < 256"
  shows "entry_effect (memzero h 1024 m) (ts + of_nat (8 * v)) = entry_effect m (ts + of_nat (8 * v))"
proof (rule entry_effect_cong)
  fix k :: nat
  assume k: "k < 8"
  have "in_region (ts + of_nat (8 * v + k)) ts 2048"
    using assms(3) k by (intro in_region_offset) auto
  then have "in_region (ts + of_nat (8 * v) + of_nat k) ts 2048" by (simp add: ac_simps)
  then have "\<not> in_region (ts + of_nat (8 * v) + of_nat k) h 1024"
    by (rule region_below_disjoint) (use assms in auto)
  then show "memzero h 1024 m (ts + of_nat (8 * v) + of_nat k) = m (ts + of_nat (8 * v) + of_nat k)"
    by simp
qed

lemma init_interrupts_immortal:
  assumes "init_interrupts cc pf (m, im, st) = Inr (m', im', st')" "immortal_inv im"
  shows "immortal_inv im'"
proof -
  have n: "of_nat VECTOR_COUNT * TRAMPOLINE_SIZE = (2048 :: u32)" "8 * of_nat VECTOR_COUNT = (2048 :: u32)"
    "4 * of_nat VECTOR_COUNT = (1024 :: u32)"
    by (simp_all add: VECTOR_COUNT_def TRAMPOLINE_SIZE_def)
  from assms(1) obtain p im1 q im2 r where 1: "malloc_immortal 2048 8 im = Inr (p, im1)"
    and 2: "malloc_immortal 2048 8 im1 = Inr (q, im2)" and 3: "malloc_immortal 1024 8 im2 = Inr (r, im')"
    unfolding init_interrupts_def generate_idt_def generate_trampolines_def calloc_immortal_def n
    by (auto split: sum.splits prod.splits)
  note b1 = malloc_immortal_ok(1) [OF assms(2) _ _ 1]
  note b2 = malloc_immortal_ok(1) [OF b1 _ _ 2]
  show ?thesis using malloc_immortal_ok(1) [OF b2 _ _ 3] by simp
qed

text \<open>What is written lies above everything allocated before.\<close>

lemma init_interrupts_memory:
  assumes "init_interrupts cc pf (m, im, st) = Inr (m', im', st')" "immortal_inv im"
  shows "same_outside (\<lambda>a. unat (current im ! 1) \<le> unat a \<and> unat a < 0x400000) m m'"
    "unat (current im ! 1) \<le> unat (trampolines st')" "unat (trampolines st') + 2048 \<le> 0x400000"
    "v < 256 \<Longrightarrow> entry_effect m' (trampolines st' + of_nat (8 * v)) = Some (\<not> has_error_code (of_nat v), of_nat v, cc)"
proof -
  obtain m1 t1 a h where loop: "for_loop (of_nat VECTOR_COUNT) (trampoline_step cc) (m, trampolines st') = (m1, t1)"
    and m': "m' = memzero h 1024 m1" and h: "unat (trampolines st') + 2048 \<le> unat h" "unat h + 1024 \<le> 0x400000"
      "unat (current im ! 1) \<le> unat (trampolines st')"
    by (rule init_interruptsE [OF assms])
  have area: "unat (current im ! 1) \<le> unat x \<and> unat x < 0x400000"
    if "in_region x b n" "unat (current im ! 1) \<le> unat b" "unat b + n \<le> 0x400000" for x b n
  proof -
    from that(1) obtain i where "i < n" "x = b + of_nat i" by (rule in_regionE)
    then show ?thesis using that(2,3) by (simp add: unat_word_ariths unat_of_nat take_bit_nat_eq_self)
  qed
  have "same_outside (\<lambda>a. in_region a (trampolines st') 2048) m m1" by (rule trampoline_loop(2) [OF loop])
  then have "same_outside (\<lambda>a. unat (current im ! 1) \<le> unat a \<and> unat a < 0x400000) m m1"
    using h area by (auto elim!: same_outside_mono)
  moreover have "same_outside (\<lambda>a. unat (current im ! 1) \<le> unat a \<and> unat a < 0x400000) m1 m'"
    unfolding m' same_outside_def using h area [of _ h 1024] by auto
  ultimately show "same_outside (\<lambda>a. unat (current im ! 1) \<le> unat a \<and> unat a < 0x400000) m m'"
    by (rule same_outside_trans)
  show "unat (current im ! 1) \<le> unat (trampolines st')" "unat (trampolines st') + 2048 \<le> 0x400000" using h by simp_all
  show "entry_effect m' (trampolines st' + of_nat (8 * v)) = Some (\<not> has_error_code (of_nat v), of_nat v, cc)" if "v < 256"
    using trampoline_loop(3) [OF loop that] entries_kept [OF h(1,2) that] by (simp add: m')
qed

text \<open>
  The state after \<open>init_interrupts\<close>: the gates, the trampolines they lead to and the handlers.
\<close>

lemma init_interrupts_tables:
  assumes "init_interrupts collect_ctx pf (m, im, st) = Inr (m', im', st')" "immortal_inv im"
  shows "idt_inv st' \<and> idtr st' = (2047, idt_address st') \<and>
    (\<forall>v < 256. let g = idt st' ! v in
       (present g = 1 \<longleftrightarrow> v < 32) \<and> segment_selector g = 8 \<and>
       handlerTable st' ! v = (if v = 14 then pf else 0) \<and>
       entry_effect m' (gate_target g) = Some (\<not> has_error_code (of_nat v), of_nat v, collect_ctx))"
  using assms
proof (rule init_interruptsE)
  fix m1 t1 a h
  define ts where "ts = trampolines st'"
  assume loop: "for_loop (of_nat VECTOR_COUNT) (trampoline_step collect_ctx) (m, trampolines st') = (m1, t1)"
    and m': "m' = memzero h 1024 m1" and h: "unat (trampolines st') + 2048 \<le> unat h" "unat h + 1024 \<le> 0x400000"
    and st': "st' = set_interrupt_handler PAGE_FAULT_VECTOR INTERRUPT_GATE KERNEL_PL pf
       (init_exceptions (fresh_tables (trampolines st') a st))"
  note gates = tables_with_handler [where st = st and ts = ts and a = a and pf = pf,
      folded st' [folded ts_def]]
  have effect: "entry_effect m' (ts + of_nat (8 * v)) = Some (\<not> has_error_code (of_nat v), of_nat v, collect_ctx)"
    if "v < 256" for v
    using trampoline_loop(3) [OF loop that] entries_kept [OF h that] by (simp add: m' ts_def)
  have "length (idt st') = 256" "length (handlerTable st') = 256" "idtr st' = (2047, idt_address st')"
    by (subst st', simp add: fresh_gates(1) fresh_tables_fields)+
  with gates effect show ?thesis
    by (auto simp: idt_inv_def Let_def ts_def)
qed

text \<open>The rings in their order; the inner ones are the more privileged.\<close>

instantiation PrivilegeLevel :: linorder
begin

definition less_eq_PrivilegeLevel :: "PrivilegeLevel \<Rightarrow> PrivilegeLevel \<Rightarrow> bool" where
  "p \<le> q \<longleftrightarrow> pl_code p \<le> pl_code q"

definition less_PrivilegeLevel :: "PrivilegeLevel \<Rightarrow> PrivilegeLevel \<Rightarrow> bool" where
  "p < q \<longleftrightarrow> pl_code p < pl_code q"

instance
proof
  fix p q :: PrivilegeLevel
  show "p = q" if "p \<le> q" "q \<le> p"
  proof -
    have "pl_code p = pl_code q" using that by (simp add: less_eq_PrivilegeLevel_def)
    then show ?thesis by (cases p; cases q) simp_all
  qed
qed (auto simp: less_eq_PrivilegeLevel_def less_PrivilegeLevel_def)

end

text \<open>Whether the processor lets code of ring \<open>r\<close> raise the vector of a gate with \<open>int\<close>.\<close>

definition callable_from :: "PrivilegeLevel \<Rightarrow> GateDescriptor \<Rightarrow> bool" where
  "callable_from r g \<longleftrightarrow> present g = 1 \<and> pl_code r \<le> descriptor_privilege_level g"

lemma callable_from_level:
  "descriptor_privilege_level g = pl_code q \<Longrightarrow> callable_from p g \<longleftrightarrow> present g = 1 \<and> p \<le> q"
  by (simp add: callable_from_def less_eq_PrivilegeLevel_def)

lemma kernel_ring_least [simp]: "KERNEL_PL \<le> p" "p \<le> KERNEL_PL \<longleftrightarrow> p = KERNEL_PL"
  by (cases p; simp add: less_eq_PrivilegeLevel_def)+

lemma init_interrupts_privilege:
  assumes "init_interrupts collect_ctx pf (m, im, st) = Inr (m', im', st')" "immortal_inv im" "v < 256"
  shows "descriptor_privilege_level (idt st' ! v) = pl_code KERNEL_PL"
proof (rule init_interruptsE [OF assms(1,2)])
  fix a
  assume st': "st' = set_interrupt_handler PAGE_FAULT_VECTOR INTERRUPT_GATE KERNEL_PL pf
       (init_exceptions (fresh_tables (trampolines st') a st))"
  show ?thesis by (subst st') (rule tables_with_handler(5) [OF assms(3)])
qed

section \<open>Properties\<close>

text \<open>
  After \<open>init_interrupts\<close> every one of the 256 gates leads to its own trampoline, at which
  the processor pushes a filler word exactly where it has not pushed an error code itself,
  pushes the vector number and jumps to \<open>collect_ctx\<close>; exactly the 32 exception vectors are
  present, and the page fault is the only vector with a handler. The handler table, cleared
  after the trampolines are written, does not overlap them.
\<close>

theorem init_interrupts_entries:
  assumes "init_interrupts collect_ctx pf (m, im, st) = Inr (m', im', st')" "immortal_inv im"
  shows "idt_inv st' \<and> idtr st' = (2047, idt_address st') \<and>
    (\<forall>v < 256. let g = idt st' ! v in
       (present g = 1 \<longleftrightarrow> v < 32) \<and> segment_selector g = 8 \<and>
       handlerTable st' ! v = (if v = 14 then pf else 0) \<and>
       entry_effect m' (gate_target g) = Some (\<not> has_error_code (of_nat v), of_nat v, collect_ctx))"
  using assms by (rule init_interrupts_tables)

theorem init_interrupts_entries_witness:
  "\<exists>m' im' st'. init_interrupts 0x9000 0xA000
      (\<lambda>_. 0, immortal_initial, \<lparr>idt = [], idt_address = 0, handlerTable = [], trampolines = 0, idtr = (0, 0)\<rparr>)
      = Inr (m', im', st')
    \<and> entry_effect m' (gate_target (idt st' ! 14)) = Some (False, 14, 0x9000) \<and> handlerTable st' ! 14 = 0xA000"
proof -
  let ?s = "(\<lambda>_. 0, immortal_initial, \<lparr>idt = [], idt_address = 0, handlerTable = [], trampolines = 0, idtr = (0, 0)\<rparr>)"
  have n: "of_nat VECTOR_COUNT * TRAMPOLINE_SIZE = (2048 :: u32)" "8 * of_nat VECTOR_COUNT = (2048 :: u32)"
    "4 * of_nat VECTOR_COUNT = (1024 :: u32)"
    by (simp_all add: VECTOR_COUNT_def TRAMPOLINE_SIZE_def)
  have "\<exists>r. init_interrupts 0x9000 0xA000 ?s = Inr r"
    unfolding init_interrupts_def generate_idt_def generate_trampolines_def calloc_immortal_def n
    by (simp add: malloc_immortal_def immortal_initial_def ARENA_START_def)
  then obtain m' im' st' where ok: "init_interrupts 0x9000 0xA000 ?s = Inr (m', im', st')"
    by (metis prod_cases3)
  have "(14 :: nat) < 256" by simp
  with init_interrupts_entries [OF ok immortal_inv_initial]
  have "handlerTable st' ! 14 = 0xA000"
    "entry_effect m' (gate_target (idt st' ! 14)) = Some (\<not> has_error_code (of_nat 14), of_nat 14, 0x9000)"
    unfolding Let_def by (metis, blast)
  with ok show ?thesis
    by (simp add: has_error_code_def PAGE_FAULT_VECTOR_def)
qed

text \<open>
  Installing a handler makes the dispatcher call it for its vector, through a present
  gate of the given type and privilege that leads to the vector's trampoline; the gates and
  the dispatch of every other vector stay as they were, and the table's invariant is kept.
\<close>

theorem set_interrupt_handler_dispatch:
  assumes "idt_inv st" "h \<noteq> 0"
  shows "let st' = set_interrupt_handler v ty dpl h st; g = idt st' ! unat v in
    idt_inv st' \<and> gate_target g = trampolines st + of_nat (8 * unat v) \<and> present g = 1
    \<and> gate_type g = gate_type_code ty \<and> descriptor_privilege_level g = pl_code dpl
    \<and> (\<forall>ctx. universal_interrupt_handler st' ctx =
          (if vector ctx = v then Call h ctx else universal_interrupt_handler st ctx))
    \<and> (\<forall>w. w \<noteq> unat v \<longrightarrow> idt st' ! w = idt st ! w)"
proof -
  have len: "length (idt st) = 256" "length (handlerTable st) = 256" using assms(1) by (simp_all add: idt_inv_def)
  have call: "universal_interrupt_handler (set_interrupt_handler v ty dpl h st) ctx =
    (if vector ctx = v then Call h ctx else universal_interrupt_handler st ctx)" for ctx :: Context
  proof (cases "vector ctx = v")
    case True
    with len(2) assms(2) show ?thesis by (simp add: universal_interrupt_handler_def)
  next
    case False
    then have "unat v \<noteq> unat (vector ctx)" by (simp add: word_unat_eq_iff)
    with False show ?thesis by (simp add: universal_interrupt_handler_def)
  qed
  note gate = set_interrupt_handler_gate [OF len(1)]
  show ?thesis
    unfolding Let_def
    by (intro conjI allI impI)
      (rule gate(1-4) call set_interrupt_handler_inv [OF assms(1)] | erule gate(5))+
qed

theorem set_interrupt_handler_dispatch_witness:
  "universal_interrupt_handler (set_interrupt_handler 0x31 INTERRUPT_GATE USER_PL 0xB000
     \<lparr>idt = replicate 256 (write_descriptor 0 INTERRUPT_GATE False), idt_address = 0,
      handlerTable = replicate 256 0, trampolines = 0x100000, idtr = (2047, 0)\<rparr>)
     \<lparr>edi = 0, esi = 0, ebp = 0, esp = 0, ebx = 0, edx = 0, ecx = 0, eax = 7, gs = 0, fs = 0, es = 0, ds = 0,
      vector = 0x31, error_code = 0, eip = 0, cs = 0, eflags = 0\<rparr>
   = Call 0xB000 \<lparr>edi = 0, esi = 0, ebp = 0, esp = 0, ebx = 0, edx = 0, ecx = 0, eax = 7, gs = 0, fs = 0, es = 0, ds = 0,
      vector = 0x31, error_code = 0, eip = 0, cs = 0, eflags = 0\<rparr>"
proof -
  let ?st = "\<lparr>idt = replicate 256 (write_descriptor 0 INTERRUPT_GATE False), idt_address = 0,
      handlerTable = replicate 256 0, trampolines = 0x100000, idtr = (2047, 0)\<rparr>"
  have inv: "idt_inv ?st" and h: "(0xB000 :: u32) \<noteq> 0" by (simp_all add: idt_inv_def)
  from set_interrupt_handler_dispatch [OF inv h, where v = "0x31" and ty = INTERRUPT_GATE and dpl = USER_PL]
  show ?thesis unfolding Let_def by simp
qed

text \<open>
  The packed form of a gate and its fields determine each other: every field comes back
  out of the 64-bit descriptor the processor reads, and no bit of the descriptor is lost.
\<close>

theorem gate_qword_roundtrip:
  "gate_of_qword (gate_qword g) = g \<and> gate_qword (gate_of_qword q) = q"
proof
  have "ucast (gate_qword g) = offset_low g"
    "ucast (drop_bit 16 (gate_qword g)) = segment_selector g"
    "ucast (drop_bit 32 (gate_qword g)) = reserved g" "ucast (drop_bit 37 (gate_qword g)) = fixed1 g"
    "ucast (drop_bit 40 (gate_qword g)) = gate_type g" "ucast (drop_bit 44 (gate_qword g)) = fixed2 g"
    "ucast (drop_bit 45 (gate_qword g)) = descriptor_privilege_level g"
    "ucast (drop_bit 47 (gate_qword g)) = present g" "ucast (drop_bit 48 (gate_qword g)) = offset_high g"
    by (rule bit_word_eqI; auto simp: gate_qword_def bit_simps dest: bit_imp_le_length)+
  then show "gate_of_qword (gate_qword g) = g"
    by (simp add: gate_of_qword_def)
  show "gate_qword (gate_of_qword q) = q"
  proof (rule bit_word_eqI)
    fix n
    assume "n < LENGTH(64)"
    then consider "n < 16" | "16 \<le> n" "n < 32" | "32 \<le> n" "n < 37" | "37 \<le> n" "n < 40" | "40 \<le> n" "n < 44"
      | "n = 44" | "45 \<le> n" "n < 47" | "n = 47" | "48 \<le> n" "n < 64"
      by fastforce
    then show "bit (gate_qword (gate_of_qword q)) n = bit q n"
      by cases (auto simp: gate_qword_def gate_of_qword_def bit_simps)
  qed
qed

text \<open>
  What the code relies on of the two controllers, once they are initialised (\<open>ready\<close>): the
  data port of each reads back its interrupt mask and sets it, without touching the other.
\<close>

definition pic_masks :: "'d bus \<Rightarrow> ('d \<Rightarrow> bool) \<Rightarrow> ('d \<Rightarrow> u8) \<Rightarrow> ('d \<Rightarrow> u8) \<Rightarrow> bool" where
  "pic_masks B ready master slave \<longleftrightarrow> (\<forall>d v. ready d \<longrightarrow>
     dev_in B PIC_MASTER_DATA_PORT d = (master d, d) \<and> dev_in B PIC_SLAVE_DATA_PORT d = (slave d, d) \<and>
     ready (dev_out B PIC_MASTER_DATA_PORT v d) \<and> ready (dev_out B PIC_SLAVE_DATA_PORT v d) \<and>
     master (dev_out B PIC_MASTER_DATA_PORT v d) = v \<and> slave (dev_out B PIC_MASTER_DATA_PORT v d) = slave d \<and>
     slave (dev_out B PIC_SLAVE_DATA_PORT v d) = v \<and> master (dev_out B PIC_SLAVE_DATA_PORT v d) = master d)"

text \<open>
  Enabling a device clears exactly its bits in the mask of its own controller (of both
  for \<open>ALL_DEVICES\<close>), disabling sets exactly those bits, and every other mask bit, and the mask
  of the other controller, is kept. In particular enabling a device of the slave leaves the
  cascade line of the master masked if it was.
\<close>

theorem io_devices_masks:
  assumes "pic_masks B ready master slave" "ready d"
  shows "let on_slave = (devices AND 0x100 \<noteq> 0); on_master = (devices AND 0x100 = 0 \<or> devices = ALL_DEVICES);
      e = enable_io_devices B devices d; x = disable_io_devices B devices d in
    slave e = (if on_slave then slave d AND NOT (ucast devices) else slave d) \<and>
    master e = (if on_master then master d AND NOT (ucast devices) else master d) \<and>
    slave x = (if on_slave then slave d OR ucast devices else slave d) \<and>
    master x = (if on_master then master d OR ucast devices else master d) \<and> ready e \<and> ready x"
  using assms unfolding pic_masks_def enable_io_devices_def disable_io_devices_def outb_def inb_def
  by (auto simp: Let_def)

theorem io_devices_masks_witness:
  "enable_io_devices
     \<lparr>dev_out = (\<lambda>p v (a, b). if p = PIC_MASTER_DATA_PORT then (v, b) else (a, v)),
      dev_in = (\<lambda>p (a, b). (if p = PIC_MASTER_DATA_PORT then a else b, (a, b)))\<rparr> MOUSE (0xff, 0xff)
   = (0xff :: u8, 0xef :: u8)"
proof -
  let ?B = "\<lparr>dev_out = (\<lambda>p v (a, b). if p = PIC_MASTER_DATA_PORT then (v, b) else (a, v)),
      dev_in = (\<lambda>p (a, b). (if p = PIC_MASTER_DATA_PORT then a else b, (a, b)))\<rparr> :: (u8 \<times> u8) bus"
  have "pic_masks ?B (\<lambda>_. True) fst snd"
    by (auto simp: pic_masks_def PIC_MASTER_DATA_PORT_def PIC_SLAVE_DATA_PORT_def)
  from io_devices_masks [OF this TrueI, where devices = MOUSE and d = "(0xff, 0xff)"] show ?thesis
    by (auto simp: Let_def MOUSE_def ALL_DEVICES_def prod_eq_iff)
qed

text \<open>
  \<open>init_pic\<close> starts both controllers with the same first command word, gives the master
  vectors from \<open>0x20\<close> and the slave vectors from \<open>0x28\<close>, tells each how the two are cascaded,
  sets the end-of-interrupt mode it was asked for, and leaves every line masked, in that
  order; between the words there is nothing but the 300 writes of each delay.
\<close>

theorem init_pic_sequence:
  "fst (init_pic log_bus eoi ([], rs)) =
     (let w4 = (case eoi of NON_AUTOMATIC_EOI \<Rightarrow> 0x01 | AUTOMATIC_EOI \<Rightarrow> 0x03);
          delay = replicate 300 (0x80, 0xff) in
      [(0xA1, 0xff), (0x21, 0xff)] @ delay @ [(0xA1, w4), (0x21, w4)] @ delay
      @ [(0xA1, 0x02), (0x21, 0x04)] @ delay @ [(0xA1, 0x28), (0x21, 0x20)] @ delay
      @ [(0xA0, 0x11), (0x20, 0x11)])"
  by (cases eoi)
    (simp_all add: init_pic_def Let_def pseudodelay_log ICW1_byte_def ICW2_byte_def ICW4_byte_def
      PIC_SLAVE_IRQ_LINE_def PIC_MASTER_COMMAND_PORT_def PIC_MASTER_DATA_PORT_def PIC_SLAVE_COMMAND_PORT_def
      PIC_SLAVE_DATA_PORT_def PIC_MASTER_VECTOR_RANGE_START_def PIC_SLAVE_VECTOR_RANGE_START_def)

end
