(* ===== verification/Paging.thy ===== *)
theory Paging
  imports Prelude Lists Memmgnt
begin

text \<open>
  \<^verbatim>\<open>src/paging.c\<close>, \<^verbatim>\<open>src/paging.h\<close>: page tables and page directories as words in
  page frames of the flat memory, with the entries' bit fields; the kernel's identity map,
  the operations that mount a page, create an address space and release one. The meaning of
  a directory is given by \<open>translate\<close> and \<open>user_access\<close>, what the processor makes of it; the
  lemmas reduce every operation to reads and writes of (frame, index) entries.
\<close>

section \<open>Entries\<close>

text \<open>The \<open>mapped\<close> view of \<open>PageTableEntry\<close>.\<close>

record PageTableEntry =
  pte_present :: bool
  pte_writable :: bool
  pte_user :: bool
  pte_write_through :: bool
  pte_disable_caching :: bool
  pte_accessed :: bool
  pte_dirty :: bool
  pte_pat :: bool
  pte_global :: bool
  pte_available :: "3 word"
  pte_address :: "20 word"

text \<open>The \<open>directory\<close> view of \<open>PageDirectoryEntry\<close>; the \<open>page\<close> and \<open>unmapped\<close> views share its bits 0 and 7.\<close>

record PageDirectoryEntry =
  pde_present :: bool
  pde_writable :: bool
  pde_user :: bool
  pde_write_through :: bool
  pde_disable_caching :: bool
  pde_accessed :: bool
  pde_available0 :: bool
  pde_page_size :: bool
  pde_available1 :: "4 word"
  pde_address :: "20 word"

definition pte_word :: "PageTableEntry \<Rightarrow> u32" where
  "pte_word e = of_bool (pte_present e) OR push_bit 1 (of_bool (pte_writable e)) OR push_bit 2 (of_bool (pte_user e))
     OR push_bit 3 (of_bool (pte_write_through e)) OR push_bit 4 (of_bool (pte_disable_caching e))
     OR push_bit 5 (of_bool (pte_accessed e)) OR push_bit 6 (of_bool (pte_dirty e)) OR push_bit 7 (of_bool (pte_pat e))
     OR push_bit 8 (of_bool (pte_global e)) OR push_bit 9 (ucast (pte_available e)) OR push_bit 12 (ucast (pte_address e))"

definition pte_of :: "u32 \<Rightarrow> PageTableEntry" where
  "pte_of w = \<lparr>pte_present = bit w 0, pte_writable = bit w 1, pte_user = bit w 2, pte_write_through = bit w 3,
     pte_disable_caching = bit w 4, pte_accessed = bit w 5, pte_dirty = bit w 6, pte_pat = bit w 7,
     pte_global = bit w 8, pte_available = ucast (drop_bit 9 w), pte_address = ucast (drop_bit 12 w)\<rparr>"

definition pde_word :: "PageDirectoryEntry \<Rightarrow> u32" where
  "pde_word e = of_bool (pde_present e) OR push_bit 1 (of_bool (pde_writable e)) OR push_bit 2 (of_bool (pde_user e))
     OR push_bit 3 (of_bool (pde_write_through e)) OR push_bit 4 (of_bool (pde_disable_caching e))
     OR push_bit 5 (of_bool (pde_accessed e)) OR push_bit 6 (of_bool (pde_available0 e)) OR push_bit 7 (of_bool (pde_page_size e))
     OR push_bit 8 (ucast (pde_available1 e)) OR push_bit 12 (ucast (pde_address e))"

definition pde_of :: "u32 \<Rightarrow> PageDirectoryEntry" where
  "pde_of w = \<lparr>pde_present = bit w 0, pde_writable = bit w 1, pde_user = bit w 2, pde_write_through = bit w 3,
     pde_disable_caching = bit w 4, pde_accessed = bit w 5, pde_available0 = bit w 6, pde_page_size = bit w 7,
     pde_available1 = ucast (drop_bit 8 w), pde_address = ucast (drop_bit 12 w)\<rparr>"

text \<open>The initialisers of the code set four fields and zero the rest.\<close>

definition mapped_entry :: "bool \<Rightarrow> bool \<Rightarrow> bool \<Rightarrow> 20 word \<Rightarrow> PageTableEntry" where
  "mapped_entry pr wr us ad = \<lparr>pte_present = pr, pte_writable = wr, pte_user = us, pte_write_through = False,
     pte_disable_caching = False, pte_accessed = False, pte_dirty = False, pte_pat = False, pte_global = False,
     pte_available = 0, pte_address = ad\<rparr>"

definition directory_entry :: "bool \<Rightarrow> bool \<Rightarrow> bool \<Rightarrow> 20 word \<Rightarrow> PageDirectoryEntry" where
  "directory_entry pr wr us ad = \<lparr>pde_present = pr, pde_writable = wr, pde_user = us, pde_write_through = False,
     pde_disable_caching = False, pde_accessed = False, pde_available0 = False, pde_page_size = False,
     pde_available1 = 0, pde_address = ad\<rparr>"

text \<open>\<open>table[i]\<close> for a table of 4-byte entries, read and written.\<close>

definition entry :: "memory \<Rightarrow> u32 \<Rightarrow> u32 \<Rightarrow> u32" where
  "entry m table i = load32 m (table + 4 * i)"

definition set_entry :: "u32 \<Rightarrow> u32 \<Rightarrow> u32 \<Rightarrow> memory \<Rightarrow> memory" where
  "set_entry table i v m = store32 m (table + 4 * i) v"

text \<open>\<open>(size\_t) address << 12\<close> and its inverse \<open>.address = (size\_t) p >> 12\<close>.\<close>

definition frame_pointer :: "20 word \<Rightarrow> u32" where
  "frame_pointer ad = push_bit 12 (ucast ad)"

definition frame_number :: "u32 \<Rightarrow> 20 word" where
  "frame_number p = ucast (drop_bit 12 p)"

section \<open>Operations\<close>

record kernel_paging =
  kernel_pt :: u32
  kernel_pde :: PageDirectoryEntry

definition setup_kernel_paging :: "memory \<times> frames \<Rightarrow> (kernel_paging \<times> memory \<times> frames) result" where
  "setup_kernel_paging s =
     (case calloc_page s of
        Inl e \<Rightarrow> Inl e
      | Inr (pt, m, f) \<Rightarrow>
          (let m = for_loop 1024 (\<lambda>i. set_entry pt i
                     (pte_word (mapped_entry True True (0x7 \<le> i \<and> i < 0x80) (ucast (i AND 0xFFFFF))))) m
           in Inr (\<lparr>kernel_pt = pt,
                kernel_pde = directory_entry True True True (ucast (drop_bit 12 pt AND 0xFFFFF))\<rparr>, m, f)))"

definition is_mounted :: "memory \<Rightarrow> u32 \<Rightarrow> u32 \<Rightarrow> bool" where
  "is_mounted m pdt virtual =
     (let pde = pde_of (entry m pdt (drop_bit 22 virtual)) in
      pde_present pde \<and>
      (pde_page_size pde \<or>
       pte_present (pte_of (entry m (frame_pointer (pde_address pde)) (drop_bit 12 virtual AND 0x3ff)))))"

definition mount_page :: "u32 \<Rightarrow> u32 \<Rightarrow> u32 \<Rightarrow> bool \<Rightarrow> bool \<Rightarrow> memory \<times> frames \<Rightarrow> (memory \<times> frames) result" where
  "mount_page pdt virtual physical writable user s =
     (case (if \<not> pde_present (pde_of (entry (fst s) pdt (drop_bit 22 virtual)))
            then (case calloc_page s of
                    Inl e \<Rightarrow> Inl e
                  | Inr (p, m, f) \<Rightarrow>
                      Inr (set_entry pdt (drop_bit 22 virtual)
                             (pde_word (directory_entry True True True (frame_number p))) m, f))
            else Inr s) of
        Inl e \<Rightarrow> Inl e
      | Inr (m, f) \<Rightarrow>
          (let pde = pde_of (entry m pdt (drop_bit 22 virtual)) in
           Inr (if \<not> pde_page_size pde
                then set_entry (frame_pointer (pde_address pde)) (drop_bit 12 virtual AND 0x3ff)
                       (pte_word (mapped_entry True writable user (frame_number physical))) m
                else m, f)))"

definition create_VAS :: "kernel_paging \<Rightarrow> memory \<times> frames \<Rightarrow> (u32 \<times> memory \<times> frames) result" where
  "create_VAS kp s =
     (case calloc_page s of
        Inl e \<Rightarrow> Inl e
      | Inr (pdt, m, f) \<Rightarrow>
          (let m = set_entry pdt 0 (pde_word (kernel_pde kp)) m in
           case calloc_page (m, f) of
             Inl e \<Rightarrow> Inl e
           | Inr (stack_pt, m, f) \<Rightarrow>
               (case malloc_page (m, f) of
                  Inl e \<Rightarrow> Inl e
                | Inr (p, m, f) \<Rightarrow>
                    (let m = set_entry stack_pt 1023
                               (pte_word (mapped_entry True True True (ucast (drop_bit 12 p AND 0xFFFFF)))) m;
                         m = set_entry pdt 1
                               (pde_word (directory_entry True True True (ucast (drop_bit 12 stack_pt AND 0xFFFFF)))) m
                     in Inr (pdt, m, f)))))"

definition free_pagetable :: "u32 \<Rightarrow> memory \<times> frames \<Rightarrow> memory \<times> frames" where
  "free_pagetable pt s =
     for_loop 1024 (\<lambda>i s. let e = pte_of (entry (fst s) pt i) in
       if pte_present e then free_page (frame_pointer (pte_address e)) s else s) s"

text \<open>The loop of \<open>free_VAS\<close> starts at index 1: the kernel's entry 0 is shared by every address space.\<close>

definition free_VAS_step :: "u32 \<Rightarrow> u32 \<Rightarrow> memory \<times> frames \<Rightarrow> memory \<times> frames" where
  "free_VAS_step pdt i s =
     (let e = pde_of (entry (fst s) pdt i) in
      if pde_present e
      then if \<not> pde_page_size e
           then free_page (frame_pointer (pde_address e)) (free_pagetable (frame_pointer (pde_address e)) s)
           else s
      else s)"

definition free_VAS :: "u32 \<Rightarrow> memory \<times> frames \<Rightarrow> memory \<times> frames" where
  "free_VAS pdt s = fold (\<lambda>i. free_VAS_step pdt (of_nat i)) [1..<1024] s"

section \<open>What the processor makes of a page directory\<close>

definition translate :: "memory \<Rightarrow> u32 \<Rightarrow> u32 \<Rightarrow> u32 option" where
  "translate m pdt va =
     (let d = entry m pdt (drop_bit 22 va); pde = pde_of d in
      if \<not> pde_present pde then None
      else if pde_page_size pde then Some (push_bit 22 (drop_bit 22 d) OR (va AND mask 22))
      else let pte = pte_of (entry m (frame_pointer (pde_address pde)) (drop_bit 12 va AND 0x3ff)) in
        if pte_present pte then Some (frame_pointer (pte_address pte) OR (va AND mask 12)) else None)"

text \<open>Whether user code may reach the address, and whether it may write there.\<close>

definition access_rights :: "memory \<Rightarrow> u32 \<Rightarrow> u32 \<Rightarrow> bool \<times> bool" where
  "access_rights m pdt va =
     (let pde = pde_of (entry m pdt (drop_bit 22 va));
          pte = pte_of (entry m (frame_pointer (pde_address pde)) (drop_bit 12 va AND 0x3ff)) in
      (pde_user pde \<and> pte_user pte, pde_writable pde \<and> pte_writable pte))"

section \<open>Lemmas: words and entries\<close>

lemma pte_of_word [simp]: "pte_of (pte_word e) = e"
proof -
  have "ucast (drop_bit 9 (pte_word e)) = pte_available e" "ucast (drop_bit 12 (pte_word e)) = pte_address e"
    by (rule bit_word_eqI; auto simp: pte_word_def bit_simps dest: bit_imp_le_length)+
  then show ?thesis
    by (simp add: pte_of_def) (simp add: pte_word_def bit_simps)
qed

lemma pde_of_word [simp]: "pde_of (pde_word e) = e"
proof -
  have "ucast (drop_bit 8 (pde_word e)) = pde_available1 e" "ucast (drop_bit 12 (pde_word e)) = pde_address e"
    by (rule bit_word_eqI; auto simp: pde_word_def bit_simps dest: bit_imp_le_length)+
  then show ?thesis
    by (simp add: pde_of_def) (simp add: pde_word_def bit_simps)
qed

lemma aligned_low_bits:
  assumes "4096 dvd unat (p :: u32)"
  shows "n < 12 \<Longrightarrow> \<not> bit p n"
proof -
  have "take_bit 12 p = 0"
    using assms by (simp add: take_bit_eq_mod word_unat_eq_iff unat_mod dvd_imp_mod_0)
  then show "n < 12 \<Longrightarrow> \<not> bit p n"
    by (metis bit_0_eq bit_take_bit_iff bot_apply bot_bool_def)
qed

lemma frame_pointer_number [simp]:
  assumes "4096 dvd unat p"
  shows "frame_pointer (frame_number p) = p"
proof (rule bit_word_eqI)
  fix n
  assume "n < LENGTH(32)"
  then show "bit (frame_pointer (frame_number p)) n = bit p n"
    using aligned_low_bits [OF assms, of n]
    by (cases "n < 12") (simp_all add: frame_pointer_def frame_number_def bit_simps, auto)
qed

lemma frame_number_masked [simp]: "ucast (drop_bit 12 p AND 0xFFFFF) = frame_number p"
  unfolding frame_number_def mask_numerals by (intro bit_word_eqI) (auto simp: bit_simps)

lemma frame_pointer_aligned [simp]: "4096 dvd unat (frame_pointer ad)"
proof -
  have "take_bit 12 (frame_pointer ad) = 0"
    by (rule bit_word_eqI) (auto simp: frame_pointer_def bit_simps)
  then have "unat (frame_pointer ad) mod 4096 = 0"
    by (simp add: take_bit_eq_mod word_unat_eq_iff unat_mod)
  then show ?thesis by (simp add: mod_eq_0_iff_dvd)
qed

lemma frame_number_pointer [simp]: "frame_number (frame_pointer ad) = ad"
  by (rule bit_word_eqI) (auto simp: frame_pointer_def frame_number_def bit_simps dest: bit_imp_le_length)

lemma entry_fields [simp]:
  "pte_present (mapped_entry pr wr us ad) = pr" "pte_address (mapped_entry pr wr us ad) = ad"
  "pte_writable (mapped_entry pr wr us ad) = wr" "pte_user (mapped_entry pr wr us ad) = us"
  "pde_present (directory_entry pr wr us ad) = pr" "pde_address (directory_entry pr wr us ad) = ad"
  "pde_writable (directory_entry pr wr us ad) = wr" "pde_user (directory_entry pr wr us ad) = us"
  "\<not> pde_page_size (directory_entry pr wr us ad)"
  by (simp_all add: mapped_entry_def directory_entry_def)

lemma zero_entries [simp]: "\<not> pde_present (pde_of 0)" "\<not> pte_present (pte_of 0)"
  by (simp_all add: pde_of_def pte_of_def)

text \<open>The two indices of a virtual address.\<close>

lemma unat_directory_index: "unat (drop_bit 22 (va :: u32)) < 1024"
proof -
  have "unat (drop_bit 22 va) = unat va div 2 ^ 22"
    by (subst unat_drop_bit_eq) (rule drop_bit_eq_div)
  moreover have "unat va div 2 ^ 22 < 1024"
    using unat_lt_2p32 [of va] by (simp add: less_mult_imp_div_less)
  ultimately show ?thesis by simp
qed

lemma unat_table_index: "unat (drop_bit 12 (va :: u32) AND 0x3ff) < 1024"
proof -
  have "drop_bit 12 va AND 0x3ff = take_bit 10 (drop_bit 12 va)"
    unfolding mask_numerals take_bit_eq_mask ..
  then show ?thesis by (simp add: take_bit_eq_mod unat_mod)
qed

lemma index_address:
  "unat i < 1024 \<Longrightarrow> (p :: u32) + 4 * i = p + of_nat (4 * unat i)"
  by simp

lemma entry_in_frame:
  assumes "unat i < 1024" "k < 4"
  shows "in_region (p + 4 * i + of_nat k) p 4096"
proof -
  have "in_region (p + of_nat (4 * unat i + k)) p 4096"
    using assms by (intro in_region_offset) auto
  then show ?thesis by (simp add: ac_simps)
qed

text \<open>The basic law of entries: a table is an array of 1024 independent words.\<close>

lemma entry_set_entry [mem_simps]:
  assumes "4096 dvd unat p" "4096 dvd unat q" "unat i < 1024" "unat j < 1024"
  shows "entry (set_entry p i v m) q j = (if q = p \<and> j = i then v else entry m q j)"
proof (cases "q = p")
  case True
  have "load32 (store32 m (p + of_nat (4 * unat i)) v) (p + of_nat (4 * unat j)) = load32 m (p + of_nat (4 * unat j))"
    if "j \<noteq> i"
    using that assms by (intro load32_store32_cell) (auto simp: word_unat_eq_iff)
  then show ?thesis
    using True by (auto simp: entry_def set_entry_def)
next
  case False
  have "load32 (store32 m (p + 4 * i) v) (q + 4 * j) = load32 m (q + 4 * j)"
  proof (rule load32_same_outside [of "\<lambda>a. in_region a (p + 4 * i) 4"])
    show "\<not> in_region (q + 4 * j + of_nat k) (p + 4 * i) 4" if k: "k < 4" for k
    proof
      assume "in_region (q + 4 * j + of_nat k) (p + 4 * i) 4"
      then obtain l where "l < 4" "q + 4 * j + of_nat k = p + 4 * i + of_nat l"
        by (rule in_regionE)
      then have "q = p"
        using assms k entry_in_frame [of j k q] entry_in_frame [of i l p]
        by (intro aligned_region_unique [of q p "q + 4 * j + of_nat k"]) auto
      with False show False ..
    qed
  qed (rule same_outside_store32)
  with False show ?thesis by (simp add: entry_def set_entry_def)
qed

lemma set_entry_frame [frame_intros]:
  assumes "unat i < 1024" "\<And>a. in_region a p 4096 \<Longrightarrow> W a"
  shows "same_outside W m (set_entry p i v m)"
  unfolding set_entry_def
  by (rule same_outside_store32) (auto elim!: in_regionE intro: entry_in_frame assms)

text \<open>Tables outside the frames a step writes keep their entries.\<close>

lemma entry_same_outside:
  assumes "same_outside (in_frames F) m m'" "q \<notin> F" "4096 dvd unat q" "unat i < 1024"
    and "\<And>p. p \<in> F \<Longrightarrow> 4096 dvd unat p"
  shows "entry m' q i = entry m q i"
  unfolding entry_def
proof (rule load32_same_outside [OF assms(1)])
  fix k :: nat
  assume "k < 4"
  then have r: "in_region (q + 4 * i + of_nat k) q 4096"
    using assms(4) by (rule entry_in_frame [rotated])
  show "\<not> in_frames F (q + 4 * i + of_nat k)"
  proof
    assume "in_frames F (q + 4 * i + of_nat k)"
    then obtain p where "p \<in> F" "in_region (q + 4 * i + of_nat k) p 4096"
      by (auto simp: in_frames_def)
    with r assms(3,5) have "p = q" by (intro aligned_region_unique [of p q]) auto
    with \<open>p \<in> F\<close> assms(2) show False by simp
  qed
qed

lemma entry_memzero:
  assumes "4096 dvd unat p" "4096 dvd unat q" "unat i < 1024"
  shows "entry (memzero p 0x1000 m) q i = (if q = p then 0 else entry m q i)"
proof (cases "q = p")
  case True
  have "load32 (memzero p 0x1000 m) (p + 4 * i) = load32 (\<lambda>_. 0) (p + 4 * i)"
    using entry_in_frame [of i _ p] assms(3) by (intro load32_cong) simp
  with True show ?thesis by (simp add: entry_def) (simp add: load32_def)
next
  case False
  have "same_outside (in_frames {p}) m (memzero p 0x1000 m)"
    by (simp add: same_outside_def in_frames_def)
  then have "entry (memzero p 0x1000 m) q i = entry m q i"
    by (rule entry_same_outside) (use False assms in auto)
  with False show ?thesis by simp
qed

section \<open>Lemmas: freeing whole tables\<close>

context frame_allocator begin

lemma free_all_rel:
  "rel s L \<Longrightarrow> distinct ps \<Longrightarrow> set ps \<subseteq> L \<Longrightarrow> rel (fold free ps s) (L - set ps)"
proof (induction ps arbitrary: s L)
  case (Cons p ps)
  then have "rel (fold free ps (free p s)) (L - {p} - set ps)"
    by (intro Cons.IH free_rel) auto
  moreover have "L - {p} - set ps = L - set (p # ps)" by auto
  ultimately show ?case by simp
qed simp

lemma free_all_mem:
  "same_outside (in_frames (set ps)) (fst s) (fst (fold free ps s))"
proof (induction ps arbitrary: s)
  case (Cons p ps)
  have "same_outside (in_frames (set (p # ps))) (fst s) (fst (free p s))"
    by (rule same_outside_mono [OF free_mem]) (auto simp: in_frames_def intro: in_region_mono)
  moreover have "same_outside (in_frames (set (p # ps))) (fst (free p s)) (fst (fold free ps (free p s)))"
    by (rule same_outside_mono [OF Cons.IH]) (auto simp: in_frames_def)
  ultimately show ?case by (auto intro: same_outside_trans)
qed simp

end

text \<open>The frames an address space holds below its directory, in the order \<open>free_VAS\<close> frees them.\<close>

definition has_table :: "memory \<Rightarrow> u32 \<Rightarrow> u32 \<Rightarrow> bool" where
  "has_table m pdt i \<longleftrightarrow> pde_present (pde_of (entry m pdt i)) \<and> \<not> pde_page_size (pde_of (entry m pdt i))"

definition table_of :: "memory \<Rightarrow> u32 \<Rightarrow> u32 \<Rightarrow> u32" where
  "table_of m pdt i = frame_pointer (pde_address (pde_of (entry m pdt i)))"

definition leaf :: "memory \<Rightarrow> u32 \<Rightarrow> nat \<Rightarrow> u32 option" where
  "leaf m pt i = (let e = pte_of (entry m pt (of_nat i)) in
     if pte_present e then Some (frame_pointer (pte_address e)) else None)"

definition pt_frames :: "memory \<Rightarrow> u32 \<Rightarrow> u32 list" where
  "pt_frames m pt = List.map_filter (leaf m pt) [0..<1024]"

definition dir_frames :: "memory \<Rightarrow> u32 \<Rightarrow> nat \<Rightarrow> u32 list" where
  "dir_frames m pdt i = (if has_table m pdt (of_nat i)
     then pt_frames m (table_of m pdt (of_nat i)) @ [table_of m pdt (of_nat i)] else [])"

definition vas_frames :: "memory \<Rightarrow> u32 \<Rightarrow> u32 list" where
  "vas_frames m pdt = concat (map (dir_frames m pdt) [1..<1024])"

lemma table_of_aligned [simp]: "4096 dvd unat (table_of m pdt i)"
  by (simp add: table_of_def)

lemma leaf_aligned: "leaf m pt i = Some p \<Longrightarrow> 4096 dvd unat p"
  by (auto simp: leaf_def Let_def split: if_splits)

lemma pt_frames_aligned: "p \<in> set (pt_frames m pt) \<Longrightarrow> 4096 dvd unat p"
  by (auto simp: pt_frames_def List.map_filter_def dest: leaf_aligned)

lemma dir_frames_aligned: "p \<in> set (dir_frames m pdt i) \<Longrightarrow> 4096 dvd unat p"
  by (auto simp: dir_frames_def pt_frames_aligned split: if_splits)

lemma vas_frames_aligned: "p \<in> set (vas_frames m pdt) \<Longrightarrow> 4096 dvd unat p"
  by (auto simp: vas_frames_def dest: dir_frames_aligned)

lemma free_pagetable_frees:
  assumes "4096 dvd unat pt" "pt \<notin> set (pt_frames m pt)"
  shows "free_pagetable pt (m, f) = fold free_page (pt_frames m pt) (m, f)"
proof -
  define step where "step = (\<lambda>i s. let e = pte_of (entry (fst s) pt (of_nat i)) in
    if pte_present e then free_page (frame_pointer (pte_address e)) s else s)"
  have "fold step [0..<n] (m, f) = fold free_page (List.map_filter (leaf m pt) [0..<n]) (m, f)"
    if "n \<le> 1024" for n
    using that
  proof (induction n)
    case (Suc n)
    let ?ps = "List.map_filter (leaf m pt) [0..<n]"
    let ?s = "fold free_page ?ps (m, f)"
    have out: "same_outside (in_frames (set ?ps)) m (fst ?s)"
      using pages.free_all_mem [of ?ps "(m, f)"] by simp
    have "set ?ps \<subseteq> set (pt_frames m pt)"
      using Suc.prems by (fastforce simp: pt_frames_def set_map_filter_iff)
    moreover have "unat (of_nat n :: u32) < 1024"
      using Suc.prems by (simp add: unat_of_nat take_bit_nat_eq_self)
    ultimately have "entry (fst ?s) pt (of_nat n) = entry m pt (of_nat n)"
      using assms pt_frames_aligned by (intro entry_same_outside [OF out]) auto
    then have "step n ?s = (case leaf m pt n of None \<Rightarrow> ?s | Some p \<Rightarrow> free_page p ?s)"
      by (simp add: step_def leaf_def Let_def)
    with Suc show ?case by (simp split: option.split)
  qed simp
  from this [of 1024] show ?thesis
    by (simp add: free_pagetable_def for_loop_def step_def pt_frames_def)
qed

text \<open>Tables of which no frame was written keep their frames.\<close>

lemma leaf_cong: "entry m' pt (of_nat i) = entry m pt (of_nat i) \<Longrightarrow> leaf m' pt i = leaf m pt i"
  by (simp add: leaf_def)

lemma unat_small_index: "i < 1024 \<Longrightarrow> unat (of_nat i :: u32) = i"
  by (simp add: unat_of_nat take_bit_nat_eq_self)

lemma pt_frames_same_outside:
  assumes "same_outside (in_frames F) m m'" "pt \<notin> F" "4096 dvd unat pt" "\<And>p. p \<in> F \<Longrightarrow> 4096 dvd unat p"
  shows "pt_frames m' pt = pt_frames m pt"
  unfolding pt_frames_def
  by (rule map_filter_cong_on, rule leaf_cong, rule entry_same_outside)
    (use assms in \<open>auto simp: unat_small_index\<close>)

lemma dir_frames_same_outside:
  assumes "same_outside (in_frames F) m m'" "\<And>p. p \<in> F \<Longrightarrow> 4096 dvd unat p"
    and "entry m' pdt (of_nat i) = entry m pdt (of_nat i)" "set (dir_frames m pdt i) \<inter> F = {}"
  shows "dir_frames m' pdt i = dir_frames m pdt i"
proof -
  have "has_table m' pdt (of_nat i) = has_table m pdt (of_nat i)" "table_of m' pdt (of_nat i) = table_of m pdt (of_nat i)"
    using assms(3) by (simp_all add: has_table_def table_of_def)
  moreover have "pt_frames m' (table_of m pdt (of_nat i)) = pt_frames m (table_of m pdt (of_nat i))"
    if "has_table m pdt (of_nat i)"
    by (rule pt_frames_same_outside [OF assms(1)]) (use that assms(2,4) in \<open>auto simp: dir_frames_def\<close>)
  ultimately show ?thesis by (auto simp: dir_frames_def)
qed

lemma free_VAS_step_frees:
  assumes "distinct (dir_frames m pdt i)"
  shows "free_VAS_step pdt (of_nat i) (m, f) = fold free_page (dir_frames m pdt i) (m, f)"
proof (cases "has_table m pdt (of_nat i)")
  case True
  let ?t = "table_of m pdt (of_nat i)"
  have "free_pagetable ?t (m, f) = fold free_page (pt_frames m ?t) (m, f)"
    using assms True by (intro free_pagetable_frees) (auto simp: dir_frames_def)
  with True show ?thesis
    by (simp add: free_VAS_step_def dir_frames_def has_table_def table_of_def Let_def)
qed (auto simp: free_VAS_step_def dir_frames_def has_table_def Let_def)

lemma free_VAS_frees:
  assumes "4096 dvd unat pdt" "distinct (pdt # vas_frames m pdt)"
  shows "free_VAS pdt (m, f) = fold free_page (vas_frames m pdt) (m, f)"
proof -
  have dist: "distinct (concat (map (dir_frames m pdt) [1..<1024]))" "pdt \<notin> set (vas_frames m pdt)"
    using assms(2) by (auto simp: vas_frames_def)
  have "fold (\<lambda>i. free_VAS_step pdt (of_nat i)) [1..<n] (m, f)
      = fold free_page (concat (map (dir_frames m pdt) [1..<n])) (m, f)" if "1 \<le> n" "n \<le> 1024" for n
    using that
  proof (induction n rule: dec_induct)
    case (step n)
    let ?ps = "concat (map (dir_frames m pdt) [1..<n])"
    let ?s = "fold free_page ?ps (m, f)"
    have out: "same_outside (in_frames (set ?ps)) m (fst ?s)"
      using pages.free_all_mem [of ?ps "(m, f)"] by simp
    have sub: "set ?ps \<subseteq> set (vas_frames m pdt)"
      using step.prems by (fastforce simp: vas_frames_def)
    have al: "4096 dvd unat p" if "p \<in> set ?ps" for p
      using that by (auto dest: dir_frames_aligned)
    have "set (dir_frames m pdt n) \<inter> set ?ps = {}"
      using distinct_concat_map_unique [OF dist(1), of n] step.prems step.hyps by fastforce
    moreover have "entry (fst ?s) pdt (of_nat n) = entry m pdt (of_nat n)"
      using dist(2) sub assms(1) step.prems al
      by (intro entry_same_outside [OF out]) (auto simp: unat_small_index)
    ultimately have same: "dir_frames (fst ?s) pdt n = dir_frames m pdt n"
      by (intro dir_frames_same_outside [OF out al])
    have "distinct (dir_frames m pdt n)"
      using dist(1) step.prems step.hyps by (simp add: distinct_concat_iff)
    with same have "free_VAS_step pdt (of_nat n) ?s = fold free_page (dir_frames m pdt n) ?s"
      using free_VAS_step_frees [of "fst ?s" pdt n "snd ?s"] by simp
    with step show ?case by simp
  qed simp
  from this [of 1024] show ?thesis
    by (simp add: free_VAS_def vas_frames_def)
qed

lemma free_VAS_rel:
  assumes "frames_rel (m, f) L" "distinct (pdt # vas_frames m pdt)" "set (pdt # vas_frames m pdt) \<subseteq> L"
  shows "frames_rel (free_VAS pdt (m, f)) (L - set (vas_frames m pdt))"
proof -
  have "page_space pdt" using assms(1,3) by (auto intro: pages.live_frames)
  then have "free_VAS pdt (m, f) = fold free_page (vas_frames m pdt) (m, f)"
    using assms(2) by (intro free_VAS_frees) (auto simp: page_space_def)
  then show ?thesis
    using assms by (simp add: pages.free_all_rel)
qed

section \<open>Lemmas: address spaces\<close>

text \<open>
  The shape of every address space the kernel makes: the present entries of the directory
  point to distinct tables the kernel holds, none of them the directory itself, and
  restrict nothing; the large-page bit is never set.
\<close>

definition tables_ok :: "memory \<Rightarrow> u32 \<Rightarrow> u32 set \<Rightarrow> bool" where
  "tables_ok m pdt L \<longleftrightarrow> pdt \<in> L
     \<and> (\<forall>i < 1024. pde_present (pde_of (entry m pdt (of_nat i))) \<longrightarrow>
          entry m pdt (of_nat i) = pde_word (directory_entry True True True (frame_number (table_of m pdt (of_nat i))))
          \<and> table_of m pdt (of_nat i) \<in> L - {pdt})
     \<and> inj_on (\<lambda>i. table_of m pdt (of_nat i)) {i. i < 1024 \<and> pde_present (pde_of (entry m pdt (of_nat i)))}"

text \<open>The entry a virtual address reaches, by its two indices.\<close>

definition lookup :: "memory \<Rightarrow> u32 \<Rightarrow> u32 \<Rightarrow> u32 \<Rightarrow> PageTableEntry option" where
  "lookup m pdt d t =
     (let e = pte_of (entry m (table_of m pdt d) t) in
      if pde_present (pde_of (entry m pdt d)) \<and> pte_present e then Some e else None)"

lemma tables_okD:
  assumes "tables_ok m pdt L" "unat d < 1024" "pde_present (pde_of (entry m pdt d))"
  shows "entry m pdt d = pde_word (directory_entry True True True (frame_number (table_of m pdt d)))"
    "table_of m pdt d \<in> L" "table_of m pdt d \<noteq> pdt" "\<not> pde_page_size (pde_of (entry m pdt d))"
proof -
  show *: "entry m pdt d = pde_word (directory_entry True True True (frame_number (table_of m pdt d)))"
    "table_of m pdt d \<in> L" "table_of m pdt d \<noteq> pdt"
    using assms by (auto simp: tables_ok_def dest!: spec [of _ "unat d"])
  show "\<not> pde_page_size (pde_of (entry m pdt d))" by (subst *(1)) simp
qed

lemma tables_ok_inj:
  assumes "tables_ok m pdt L" "unat d < 1024" "unat d' < 1024"
    and "pde_present (pde_of (entry m pdt d))" "pde_present (pde_of (entry m pdt d'))"
    and "table_of m pdt d = table_of m pdt d'"
  shows "d = d'"
proof -
  have "unat d = unat d'"
    using assms by (auto simp: tables_ok_def dest: inj_onD [where x = "unat d" and y = "unat d'"])
  then show ?thesis by (simp add: word_unat_eq_iff)
qed

lemma translate_lookup:
  assumes "tables_ok m pdt L"
  shows "translate m pdt va = (case lookup m pdt (drop_bit 22 va) (drop_bit 12 va AND 0x3ff) of
      None \<Rightarrow> None | Some e \<Rightarrow> Some (frame_pointer (pte_address e) OR (va AND mask 12)))"
  using tables_okD(4) [OF assms unat_directory_index [of va]]
  by (auto simp: translate_def lookup_def table_of_def Let_def)

lemma access_rights_lookup:
  assumes "tables_ok m pdt L" "lookup m pdt (drop_bit 22 va) (drop_bit 12 va AND 0x3ff) = Some e"
  shows "access_rights m pdt va = (pte_user e, pte_writable e)"
proof -
  have p: "pde_present (pde_of (entry m pdt (drop_bit 22 va)))"
    and e: "e = pte_of (entry m (table_of m pdt (drop_bit 22 va)) (drop_bit 12 va AND 0x3ff))"
    using assms(2) by (auto simp: lookup_def Let_def split: if_splits)
  have "pde_user (pde_of (entry m pdt (drop_bit 22 va)))" "pde_writable (pde_of (entry m pdt (drop_bit 22 va)))"
    by (subst tables_okD(1) [OF assms(1) unat_directory_index p], simp)+
  then show ?thesis
    by (simp add: access_rights_def e table_of_def Let_def)
qed

text \<open>Two addresses of different pages differ in one of the indices.\<close>

lemma page_indices:
  assumes "drop_bit 22 va = drop_bit 22 (vb :: u32)" "drop_bit 12 va AND 0x3ff = drop_bit 12 vb AND 0x3ff"
  shows "drop_bit 12 va = drop_bit 12 vb"
proof (rule bit_word_eqI)
  fix n
  assume "n < LENGTH(32)"
  show "bit (drop_bit 12 va) n = bit (drop_bit 12 vb) n"
  proof (cases "n < 10")
    case True
    then show ?thesis
      using arg_cong [OF assms(2), of "\<lambda>w. bit w n"] unfolding mask_numerals by (simp add: bit_simps)
  next
    case False
    then show ?thesis
      using arg_cong [OF assms(1), of "\<lambda>w. bit w (n - 10)"] by (simp add: bit_simps)
  qed
qed

section \<open>Lemmas: mounting a page\<close>

text \<open>
  What a mount does to the entries: the directory entry \<open>d\<close> points to the table \<open>T\<close>, its
  entry \<open>t\<close> is \<open>e\<close>, a new table is otherwise empty, and all else is as before.
\<close>

definition mount_effect :: "memory \<Rightarrow> memory \<Rightarrow> u32 \<Rightarrow> u32 set \<Rightarrow> u32 \<Rightarrow> u32 \<Rightarrow> u32 \<Rightarrow> bool \<Rightarrow> PageTableEntry \<Rightarrow> bool" where
  "mount_effect m m' pdt L d t T new e \<longleftrightarrow>
     (\<forall>d'. unat d' < 1024 \<longrightarrow> entry m' pdt d' =
        (if d' = d then pde_word (directory_entry True True True (frame_number T)) else entry m pdt d'))
   \<and> (\<forall>t'. unat t' < 1024 \<longrightarrow> entry m' T t' = (if t' = t then pte_word e else if new then 0 else entry m T t'))
   \<and> (\<forall>q i. q \<in> L - {pdt, T} \<longrightarrow> unat i < 1024 \<longrightarrow> entry m' q i = entry m q i)
   \<and> same_outside (in_frames {pdt, T}) m m'"

lemma mount_page_present:
  assumes "frames_rel (m, f) L" "tables_ok m pdt L" "pde_present (pde_of (entry m pdt (drop_bit 22 va)))"
  defines "T \<equiv> table_of m pdt (drop_bit 22 va)"
  shows "\<exists>m'. mount_page pdt va pa w u (m, f) = Inr (m', f) \<and> frames_rel (m', f) L
    \<and> mount_effect m m' pdt L (drop_bit 22 va) (drop_bit 12 va AND 0x3ff) T False (mapped_entry True w u (frame_number pa))"
proof -
  let ?d = "drop_bit 22 va" and ?t = "drop_bit 12 va AND 0x3ff"
  let ?e = "mapped_entry True w u (frame_number pa)"
  let ?m' = "set_entry T ?t (pte_word ?e) m"
  note T = tables_okD [OF assms(2) unat_directory_index [of va] assms(3), folded T_def]
  have aligned: "4096 dvd unat q" if "q \<in> L" for q
    using pages.live_frames [OF assms(1) that] by (simp add: page_space_def)
  have pdt: "pdt \<in> L" using assms(2) by (simp add: tables_ok_def)
  have "mount_page pdt va pa w u (m, f) = Inr (?m', f)"
    using assms(3) T(4) by (simp add: mount_page_def T_def table_of_def)
  moreover have out: "same_outside (\<lambda>a. in_region a T 4096) m ?m'"
    by (rule set_entry_frame [OF unat_table_index])
  then have "frames_rel (?m', f) L"
    by (intro pages.write_rel [OF assms(1)], elim same_outside_mono) (use T(2) in \<open>auto simp: in_frames_def\<close>)
  moreover have "mount_effect m ?m' pdt L ?d ?t T False ?e"
    unfolding mount_effect_def
    using T pdt aligned unat_table_index [of va]
    by (auto simp: entry_set_entry in_frames_def intro: same_outside_mono [OF out])
  ultimately show ?thesis by blast
qed

lemma mount_page_absent:
  assumes "frames_rel (m, f) L" "tables_ok m pdt L" "\<not> pde_present (pde_of (entry m pdt (drop_bit 22 va)))"
    and "calloc_page (m, f) = Inr (T, m1, f')"
  shows "\<exists>m'. mount_page pdt va pa w u (m, f) = Inr (m', f') \<and> frames_rel (m', f') (insert T L) \<and> T \<notin> L
    \<and> mount_effect m m' pdt L (drop_bit 22 va) (drop_bit 12 va AND 0x3ff) T True (mapped_entry True w u (frame_number pa))"
proof -
  let ?d = "drop_bit 22 va" and ?t = "drop_bit 12 va AND 0x3ff"
  let ?e = "mapped_entry True w u (frame_number pa)"
  let ?m2 = "set_entry pdt ?d (pde_word (directory_entry True True True (frame_number T))) m1"
  let ?m' = "set_entry T ?t (pte_word ?e) ?m2"
  have rel: "frames_rel (m1, f') (insert T L)" and T: "T \<notin> L" "page_space T"
    using cleared_pages.clear_alloc_rel [OF assms(1,4)] cleared_pages.clear_alloc_fresh [OF assms(1,4)] by auto
  have m1: "m1 = memzero T 0x1000 m"
    using assms(4) by (elim cleared_pages.clear_allocE) simp
  have aligned: "4096 dvd unat q" if "q \<in> insert T L" for q
    using pages.live_frames [OF rel that] by (simp add: page_space_def)
  have pdt: "pdt \<in> L" using assms(2) by (simp add: tables_ok_def)
  have idx: "unat ?d < 1024" "unat ?t < 1024"
    by (rule unat_directory_index, rule unat_table_index)
  have ent: "entry ?m' q i = (if q = T \<and> i = ?t then pte_word ?e
      else if q = pdt \<and> i = ?d then pde_word (directory_entry True True True (frame_number T))
      else if q = T then 0 else entry m q i)" if "q \<in> insert T L" "unat i < 1024" for q i
    using that idx aligned pdt T(1) unfolding m1 by (auto simp: entry_set_entry entry_memzero)
  have "mount_page pdt va pa w u (m, f) = Inr (?m', f')"
    using assms(3,4) idx pdt aligned by (simp add: mount_page_def entry_set_entry)
  moreover have "same_outside (in_frames {pdt, T}) m m1" unfolding m1
    by (simp add: same_outside_def in_frames_def)
  then have out: "same_outside (in_frames {pdt, T}) m ?m'"
    by (rule same_outside_trans, intro same_outside_trans [OF set_entry_frame [OF idx(1)] set_entry_frame [OF idx(2)]])
      (auto simp: in_frames_def)
  moreover have "frames_rel (?m', f') (insert T L)"
  proof (rule pages.write_rel [OF rel])
    show "same_outside (\<lambda>a. in_frames (insert T L) a \<or> outside_page_space a) m1 ?m'"
      using pdt by (intro same_outside_trans [OF set_entry_frame [OF idx(1)] set_entry_frame [OF idx(2)]])
        (auto simp: in_frames_def)
  qed
  moreover have "mount_effect m ?m' pdt L ?d ?t T True ?e"
    unfolding mount_effect_def using ent T(1) pdt out by auto
  ultimately show ?thesis using T(1) by blast
qed

lemma directory_entry_word [simp]:
  "pde_of (pde_word (directory_entry True True True (frame_number T))) = directory_entry True True True (frame_number T)"
  by simp

lemma mount_effect_directory:
  assumes "mount_effect m m' pdt L d t T new e" "unat i < 1024" "4096 dvd unat T"
  shows "pde_present (pde_of (entry m' pdt i)) \<longleftrightarrow> i = d \<or> pde_present (pde_of (entry m pdt i))"
    "table_of m' pdt i = (if i = d then T else table_of m pdt i)"
  using assms by (auto simp: mount_effect_def table_of_def)

text \<open>\<open>new\<close> tells which of the two cases of a mount it was.\<close>

definition mount_case :: "memory \<Rightarrow> u32 \<Rightarrow> u32 set \<Rightarrow> u32 \<Rightarrow> u32 \<Rightarrow> bool \<Rightarrow> bool" where
  "mount_case m pdt L d T new \<longleftrightarrow> 4096 dvd unat T \<and> unat d < 1024
     \<and> (if new then T \<notin> L \<and> \<not> pde_present (pde_of (entry m pdt d))
        else T = table_of m pdt d \<and> pde_present (pde_of (entry m pdt d)))"

lemma mount_effect_tables_ok:
  assumes "mount_effect m m' pdt L d t T new e" "mount_case m pdt L d T new" "tables_ok m pdt L"
  shows "tables_ok m' pdt (insert T L)"
proof -
  let ?P = "\<lambda>m i. pde_present (pde_of (entry m pdt (of_nat i)))"
  have pdt: "pdt \<in> L" using assms(3) by (simp add: tables_ok_def)
  have T: "T \<noteq> pdt" "T \<in> L \<longleftrightarrow> \<not> new" "4096 dvd unat T"
    using assms(2) tables_okD(2,3) [OF assms(3), of d] pdt by (auto simp: mount_case_def split: if_splits)
  have dir: "entry m' pdt (of_nat i) = pde_word (directory_entry True True True (frame_number (table_of m' pdt (of_nat i))))
      \<and> table_of m' pdt (of_nat i) \<in> insert T L - {pdt}" if "i < 1024" "?P m' i" for i
    using that mount_effect_directory [OF assms(1), of "of_nat i"] T tables_okD [OF assms(3), of "of_nat i"] assms(1)
    by (auto simp: unat_small_index mount_effect_def)
  have inj: "i = j" if "i < 1024" "j < 1024" "?P m' i" "?P m' j"
    "table_of m' pdt (of_nat i) = table_of m' pdt (of_nat j)" for i j
  proof -
    have "of_nat i = (of_nat j :: u32)"
      using that mount_effect_directory [OF assms(1), of "of_nat i"] mount_effect_directory [OF assms(1), of "of_nat j"]
        T tables_okD(2) [OF assms(3), of "of_nat i"] tables_okD(2) [OF assms(3), of "of_nat j"]
        tables_ok_inj [OF assms(3), of "of_nat i" "of_nat j"] assms(2)
      by (auto simp: unat_small_index mount_case_def split: if_splits)
    with that show "i = j" by (metis unat_small_index)
  qed
  show ?thesis
    unfolding tables_ok_def using pdt dir inj by (auto intro!: inj_onI)
qed

lemma mount_effect_lookup:
  assumes "mount_effect m m' pdt L d t T new e" "mount_case m pdt L d T new" "tables_ok m pdt L"
    and "unat i < 1024" "unat j < 1024" "pte_present e"
  shows "lookup m' pdt i j = (if i = d \<and> j = t then Some e else lookup m pdt i j)"
proof (cases "i = d")
  case True
  have "entry m' T j = (if j = t then pte_word e else if new then 0 else entry m T j)"
    using assms(1,5) by (auto simp: mount_effect_def)
  with True show ?thesis
    using mount_effect_directory [OF assms(1), of d] assms(2,6)
    by (auto simp: lookup_def Let_def mount_case_def)
next
  case False
  have same: "pde_present (pde_of (entry m' pdt i)) = pde_present (pde_of (entry m pdt i))" "table_of m' pdt i = table_of m pdt i"
    using mount_effect_directory [OF assms(1,4)] assms(2) False by (auto simp: mount_case_def)
  moreover have "entry m' (table_of m pdt i) j = entry m (table_of m pdt i) j" if p: "pde_present (pde_of (entry m pdt i))"
  proof -
    have "table_of m pdt i \<noteq> T"
      using p tables_okD(2) [OF assms(3,4) p] tables_ok_inj [OF assms(3,4), of d] assms(2) False
      by (auto simp: mount_case_def split: if_splits)
    then show ?thesis
      using tables_okD(2,3) [OF assms(3,4) p] assms(1,5) by (simp add: mount_effect_def)
  qed
  ultimately show ?thesis
    using False by (auto simp: lookup_def Let_def)
qed

text \<open>One more frame below the directory, and the new table if there is one.\<close>

lemma mount_effect_table_frames:
  assumes "mount_effect m m' pdt L d t T new e" "unat t < 1024" "pte_present e"
    and "leaf (if new then (\<lambda>_. 0) else m) T (unat t) = None"
  shows "mset (pt_frames m' T) = add_mset (frame_pointer (pte_address e)) (if new then {#} else mset (pt_frames m T))"
proof -
  let ?m = "if new then (\<lambda>_. 0) else m :: memory"
  have z: "leaf (\<lambda>_. 0) T i = None" for i
    by (simp add: leaf_def entry_def) (simp add: load32_def)
  have e: "entry m' T (of_nat i) = (if of_nat i = t then pte_word e else if new then 0 else entry m T (of_nat i))" if "i < 1024" for i
    using assms(1) that by (simp add: mount_effect_def unat_small_index)
  have "leaf m' T (unat t) = Some (frame_pointer (pte_address e))"
    using e [of "unat t"] assms(2,3) by (simp add: leaf_def)
  moreover have "leaf m' T i = leaf ?m T i" if "i < 1024" "i \<noteq> unat t" for i
  proof -
    have "of_nat i \<noteq> t" using that by (auto simp: unat_small_index)
    with e [OF that(1)] z [of i] show ?thesis by (auto simp: leaf_def)
  qed
  ultimately have "mset (pt_frames m' T) = add_mset (frame_pointer (pte_address e)) (mset (pt_frames ?m T))"
    unfolding pt_frames_def using assms(2,4) by (intro mset_map_filter_insert [of _ "unat t"]) auto
  moreover have "pt_frames (\<lambda>_. 0) T = []"
    using z by (simp add: pt_frames_def List.map_filter_def)
  ultimately show ?thesis by auto
qed

lemma mount_effect_dir_frames:
  assumes "mount_effect m m' pdt L d t T new e" "mount_case m pdt L d T new" "tables_ok m pdt L"
    and "j < 1024" "of_nat j \<noteq> d"
  shows "dir_frames m' pdt j = dir_frames m pdt j"
proof -
  have same: "entry m' pdt (of_nat j) = entry m pdt (of_nat j)"
    using assms(1,4,5) by (simp add: mount_effect_def unat_small_index)
  then have tab: "has_table m' pdt (of_nat j) = has_table m pdt (of_nat j)" "table_of m' pdt (of_nat j) = table_of m pdt (of_nat j)"
    by (simp_all add: has_table_def table_of_def)
  have "pt_frames m' (table_of m pdt (of_nat j)) = pt_frames m (table_of m pdt (of_nat j))" if "has_table m pdt (of_nat j)"
  proof -
    have j: "unat (of_nat j :: u32) < 1024" using assms(4) by (simp add: unat_small_index)
    have p: "pde_present (pde_of (entry m pdt (of_nat j)))" using that by (simp add: has_table_def)
    have "table_of m pdt (of_nat j) \<noteq> T"
      using tables_okD(2) [OF assms(3) j p] tables_ok_inj [OF assms(3) j, of d] p assms(2,5)
      by (auto simp: mount_case_def split: if_splits)
    then have "entry m' (table_of m pdt (of_nat j)) i = entry m (table_of m pdt (of_nat j)) i" if "unat i < 1024" for i
      using tables_okD(2,3) [OF assms(3) j p] assms(1) that by (simp add: mount_effect_def)
    then show ?thesis
      unfolding pt_frames_def by (intro map_filter_cong_on leaf_cong) (auto simp: unat_small_index)
  qed
  with tab show ?thesis by (simp add: dir_frames_def)
qed

lemma mount_effect_vas_frames:
  assumes "mount_effect m m' pdt L d t T new e" "mount_case m pdt L d T new" "tables_ok m pdt L"
    and "unat t < 1024" "d \<noteq> 0" "lookup m pdt d t = None" "pte_present e"
  shows "mset (vas_frames m' pdt) = {#frame_pointer (pte_address e)#} + (if new then {#T#} else {#}) + mset (vas_frames m pdt)"
  unfolding vas_frames_def
proof (rule mset_concat_insert [where k = "unat d"])
  have d: "unat d < 1024" "T = table_of m' pdt d"
    using assms(2) mount_effect_directory [OF assms(1), of d] by (auto simp: mount_case_def)
  then show "unat d \<in> set [1..<1024]" using assms(5) by (simp add: unat_gt_0 Suc_leI)
  have none: "leaf (if new then (\<lambda>_. 0) else m) T (unat t) = None"
  proof (cases new)
    case True
    then show ?thesis by (simp add: leaf_def entry_def) (simp add: load32_def)
  next
    case False
    with assms(2,6) show ?thesis
      by (auto simp: leaf_def lookup_def mount_case_def Let_def split: if_splits)
  qed
  have "has_table m' pdt d" using assms(1) d(1) by (simp add: mount_effect_def has_table_def)
  then have "mset (dir_frames m' pdt (unat d)) = add_mset T (mset (pt_frames m' T))"
    using d(2) by (simp add: dir_frames_def)
  moreover have "mset (dir_frames m pdt (unat d)) = (if new then {#} else add_mset T (mset (pt_frames m T)))"
    using assms(2) tables_okD(4) [OF assms(3) d(1)] by (auto simp: dir_frames_def has_table_def mount_case_def split: if_splits)
  ultimately show "mset (dir_frames m' pdt (unat d)) =
      {#frame_pointer (pte_address e)#} + (if new then {#T#} else {#}) + mset (dir_frames m pdt (unat d))"
    using mount_effect_table_frames [OF assms(1,4,7) none] by auto
  show "dir_frames m' pdt j = dir_frames m pdt j" if "j \<in> set [1..<1024]" "j \<noteq> unat d" for j
    using that by (intro mount_effect_dir_frames [OF assms(1-3)]) (auto simp: unat_small_index)
qed simp

section \<open>The address space of a process\<close>

text \<open>The kernel's own table: the identity map of the first 4 MB, open to user code between \<open>0x7000\<close> and \<open>0x80000\<close>.\<close>

definition kernel_paging_ok :: "kernel_paging \<Rightarrow> memory \<Rightarrow> bool" where
  "kernel_paging_ok kp m \<longleftrightarrow> 4096 dvd unat (kernel_pt kp)
     \<and> kernel_pde kp = directory_entry True True True (frame_number (kernel_pt kp))
     \<and> (\<forall>i. unat i < 1024 \<longrightarrow> entry m (kernel_pt kp) i =
          pte_word (mapped_entry True True (0x7 \<le> i \<and> i < 0x80) (ucast (i AND 0xFFFFF))))"

definition vas_own :: "memory \<Rightarrow> u32 \<Rightarrow> u32 set" where
  "vas_own m pdt = set (pdt # vas_frames m pdt)"

definition vas_ok :: "kernel_paging \<Rightarrow> memory \<Rightarrow> u32 \<Rightarrow> bool" where
  "vas_ok kp m pdt \<longleftrightarrow> 4096 dvd unat pdt \<and> distinct (pdt # vas_frames m pdt) \<and> kernel_pt kp \<notin> vas_own m pdt
     \<and> entry m pdt 0 = pde_word (kernel_pde kp)
     \<and> (\<forall>i. 1 \<le> i \<longrightarrow> i < 1024 \<longrightarrow> pde_present (pde_of (entry m pdt (of_nat i))) \<longrightarrow>
          entry m pdt (of_nat i) = pde_word (directory_entry True True True (frame_number (table_of m pdt (of_nat i)))))"

lemma vas_ok_table:
  assumes "vas_ok kp m pdt" "1 \<le> i" "i < 1024" "pde_present (pde_of (entry m pdt (of_nat i)))"
  shows "table_of m pdt (of_nat i) \<in> set (dir_frames m pdt i)" "table_of m pdt (of_nat i) \<in> set (vas_frames m pdt)"
proof -
  have "entry m pdt (of_nat i) = pde_word (directory_entry True True True (frame_number (table_of m pdt (of_nat i))))"
    using assms by (auto simp: vas_ok_def)
  then have "\<not> pde_page_size (pde_of (entry m pdt (of_nat i)))"
    by (metis directory_entry_word entry_fields(9))
  with assms(4) show "table_of m pdt (of_nat i) \<in> set (dir_frames m pdt i)"
    by (simp add: dir_frames_def has_table_def)
  with assms(2,3) show "table_of m pdt (of_nat i) \<in> set (vas_frames m pdt)"
    by (auto simp: vas_frames_def intro!: bexI [of _ i])
qed

lemma vas_tables_ok:
  assumes "vas_ok kp m pdt" "kernel_paging_ok kp m" "insert (kernel_pt kp) (vas_own m pdt) \<subseteq> L"
  shows "tables_ok m pdt L"
proof -
  let ?P = "\<lambda>i. pde_present (pde_of (entry m pdt (of_nat i)))"
  have dist: "distinct (concat (map (dir_frames m pdt) [1..<1024]))" "pdt \<notin> set (vas_frames m pdt)"
    "kernel_pt kp \<noteq> pdt" "kernel_pt kp \<notin> set (vas_frames m pdt)"
    using assms(1) by (auto simp: vas_ok_def vas_frames_def vas_own_def)
  have k: "entry m pdt 0 = pde_word (directory_entry True True True (frame_number (kernel_pt kp)))"
    "table_of m pdt 0 = kernel_pt kp"
    using assms(1,2) by (auto simp: vas_ok_def kernel_paging_ok_def table_of_def)
  have dir: "entry m pdt (of_nat i) = pde_word (directory_entry True True True (frame_number (table_of m pdt (of_nat i))))
    \<and> table_of m pdt (of_nat i) \<in> L - {pdt}" if "i < 1024" "?P i" for i
  proof (cases "i = 0")
    case True
    then show ?thesis using k assms(3) dist(3) by simp
  next
    case False
    then show ?thesis
      using assms(1,3) that dist(2) vas_ok_table(2) [OF assms(1), of i] by (auto simp: vas_ok_def vas_own_def)
  qed
  have "i = j" if "i < 1024" "j < 1024" "?P i" "?P j" "table_of m pdt (of_nat i) = table_of m pdt (of_nat j)" for i j
  proof (cases "i = 0 \<or> j = 0")
    case True
    then show ?thesis
      using that k(2) dist(4) vas_ok_table(2) [OF assms(1), of i] vas_ok_table(2) [OF assms(1), of j]
      by (cases "i = 0"; cases "j = 0") auto
  next
    case False
    then show ?thesis
      using that vas_ok_table(1) [OF assms(1), of i] vas_ok_table(1) [OF assms(1), of j]
      by (intro distinct_concat_map_unique [OF dist(1)]) auto
  qed
  then show ?thesis
    using dir assms(3) by (auto simp: tables_ok_def vas_own_def intro!: inj_onI)
qed

text \<open>Writes to frames an address space does not own leave it alone.\<close>

lemma vas_own_aligned: "4096 dvd unat pdt \<Longrightarrow> q \<in> vas_own m pdt \<Longrightarrow> 4096 dvd unat q"
  by (auto simp: vas_own_def dest: vas_frames_aligned)

lemma vas_frame_rule:
  assumes "vas_ok kp m pdt" "same_outside (in_frames F) m m'" "F \<inter> vas_own m pdt = {}" "\<And>p. p \<in> F \<Longrightarrow> 4096 dvd unat p"
  shows "vas_ok kp m' pdt" "vas_own m' pdt = vas_own m pdt"
proof -
  have pdt: "4096 dvd unat pdt" "pdt \<notin> F"
    using assms(1,3) by (auto simp: vas_ok_def vas_own_def)
  have e: "entry m' pdt i = entry m pdt i" if "unat i < 1024" for i
    by (rule entry_same_outside [OF assms(2)]) (use pdt assms(4) that in auto)
  then have t: "table_of m' pdt i = table_of m pdt i" if "unat i < 1024" for i
    using that by (simp add: table_of_def)
  have "dir_frames m' pdt i = dir_frames m pdt i" if "i \<in> set [1..<1024]" for i
  proof -
    have "set (dir_frames m pdt i) \<subseteq> vas_own m pdt"
      using that by (auto simp: vas_own_def vas_frames_def)
    then show ?thesis
      using that assms(3) by (intro dir_frames_same_outside [OF assms(2,4)] e) (auto simp: unat_small_index)
  qed
  then have v: "vas_frames m' pdt = vas_frames m pdt"
    unfolding vas_frames_def by (intro arg_cong [where f = concat] map_cong) auto
  then show "vas_own m' pdt = vas_own m pdt" by (simp add: vas_own_def)
  then show "vas_ok kp m' pdt"
    using assms(1) v by (simp add: vas_ok_def e t unat_small_index)
qed

lemma kernel_frame_rule:
  assumes "kernel_paging_ok kp m" "same_outside (in_frames F) m m'" "kernel_pt kp \<notin> F" "\<And>p. p \<in> F \<Longrightarrow> 4096 dvd unat p"
  shows "kernel_paging_ok kp m'"
proof -
  have "entry m' (kernel_pt kp) i = entry m (kernel_pt kp) i" if "unat i < 1024" for i
    by (rule entry_same_outside [OF assms(2)]) (use assms that in \<open>auto simp: kernel_paging_ok_def\<close>)
  with assms(1) show ?thesis by (simp add: kernel_paging_ok_def)
qed

lemma tables_ok_mono: "tables_ok m pdt L \<Longrightarrow> L \<subseteq> L' \<Longrightarrow> tables_ok m pdt L'"
  by (auto simp: tables_ok_def)

text \<open>A mount, in both cases: the frames it takes and what it does.\<close>

lemma mount_page_cases:
  assumes "frames_rel (m, f) L" "tables_ok m pdt L" "mount_page pdt va pa w u (m, f) = Inr (m', f')"
  obtains T new where "mount_case m pdt L (drop_bit 22 va) T new"
    "mount_effect m m' pdt L (drop_bit 22 va) (drop_bit 12 va AND 0x3ff) T new (mapped_entry True w u (frame_number pa))"
    "frames_rel (m', f') (insert T L)"
proof (cases "pde_present (pde_of (entry m pdt (drop_bit 22 va)))")
  case True
  have idx: "unat (drop_bit 22 va) < 1024" by (rule unat_directory_index)
  show ?thesis
    using mount_page_present [OF assms(1,2) True, of pa w u] assms(3) tables_okD(2) [OF assms(2) idx True] True idx
    by (intro that [of "table_of m pdt (drop_bit 22 va)" False]) (auto simp: mount_case_def insert_absorb)
next
  case False
  then obtain T m1 f1 where c: "calloc_page (m, f) = Inr (T, m1, f1)"
    using assms(3) by (auto simp: mount_page_def split: sum.splits)
  have "4096 dvd unat T"
    using cleared_pages.clear_alloc_fresh [OF assms(1) c] by (simp add: page_space_def)
  then show ?thesis
    using mount_page_absent [OF assms(1,2) False c, of pa w u] assms(3) False unat_directory_index [of va]
    by (intro that [of T True]) (auto simp: mount_case_def)
qed

text \<open>The table a mount uses is new, or one the address space owns.\<close>

lemma mount_case_table_owned:
  assumes "mount_case m pdt L d T new" "vas_ok kp m pdt" "d \<noteq> 0" "\<not> new"
  shows "T \<in> vas_own m pdt"
  using assms vas_ok_table(2) [OF assms(2), of "unat d"]
  by (auto simp: mount_case_def vas_own_def unat_gt_0 Suc_leI)

lemma mount_own_same_outside:
  assumes "mount_effect m m' pdt L d t T new e" "mount_case m pdt L d T new" "vas_ok kp m pdt" "d \<noteq> 0"
  shows "same_outside (in_frames (vas_own m pdt \<union> (if new then {T} else {}))) m m'"
  using assms(1) mount_case_table_owned [OF assms(2-4)]
  by (auto simp: mount_effect_def in_frames_def vas_own_def elim!: same_outside_mono)

lemma mount_own_frames:
  assumes "mount_effect m m' pdt L d t T new (mapped_entry True w u (frame_number pa))" "mount_case m pdt L d T new"
    and "vas_ok kp m pdt" "tables_ok m pdt L" "insert (kernel_pt kp) (vas_own m pdt) \<subseteq> L" "unat t < 1024" "d \<noteq> 0"
    and "lookup m pdt d t = None" "pa \<in> L" "pa \<notin> insert (kernel_pt kp) (vas_own m pdt)" "4096 dvd unat pa"
  defines "N \<equiv> if new then {T} else {}"
  shows "vas_own m' pdt = insert pa (vas_own m pdt \<union> N)" "distinct (pdt # vas_frames m' pdt)"
    "kernel_pt kp \<notin> vas_own m' pdt"
proof -
  have "mset (vas_frames m' pdt) = {#pa#} + (if new then {#T#} else {#}) + mset (vas_frames m pdt)"
    using mount_effect_vas_frames [OF assms(1,2,4,6,7,8)] assms(11) by simp
  then have ms: "mset (vas_frames m' pdt) = mset (pa # (if new then [T] else []) @ vas_frames m pdt)"
    by auto
  have T: "new \<Longrightarrow> T \<notin> L" using assms(2) by (simp add: mount_case_def)
  show own: "vas_own m' pdt = insert pa (vas_own m pdt \<union> N)"
    using mset_eq_setD [OF ms] by (auto simp: vas_own_def N_def)
  show "distinct (pdt # vas_frames m' pdt)"
    using mset_eq_imp_distinct_iff [OF ms] mset_eq_setD [OF ms] assms(3,5,9,10) T by (auto simp: vas_ok_def vas_own_def)
  show "kernel_pt kp \<notin> vas_own m' pdt"
    using own assms(3,5,10) T by (auto simp: vas_ok_def N_def)
qed

text \<open>
  Mounting a frame of one's own at an address that was not mounted: the address space owns
  the frame, and the new table if one was needed.
\<close>

lemma mount_own_frame:
  assumes "frames_rel (m, f) L" "vas_ok kp m pdt" "kernel_paging_ok kp m" "insert (kernel_pt kp) (vas_own m pdt) \<subseteq> L"
    and "pa \<in> L" "pa \<notin> insert (kernel_pt kp) (vas_own m pdt)" "drop_bit 22 va \<noteq> 0"
    and "lookup m pdt (drop_bit 22 va) (drop_bit 12 va AND 0x3ff) = None"
    and "mount_page pdt va pa w u (m, f) = Inr (m', f')"
  shows "\<exists>N. card N \<le> 1 \<and> N \<inter> L = {} \<and> frames_rel (m', f') (L \<union> N) \<and> vas_ok kp m' pdt \<and> kernel_paging_ok kp m'
    \<and> vas_own m' pdt = insert pa (vas_own m pdt \<union> N)
    \<and> same_outside (in_frames (vas_own m pdt \<union> N)) m m'
    \<and> (\<forall>i j. unat i < 1024 \<longrightarrow> unat j < 1024 \<longrightarrow> lookup m' pdt i j =
        (if i = drop_bit 22 va \<and> j = drop_bit 12 va AND 0x3ff then Some (mapped_entry True w u (frame_number pa))
         else lookup m pdt i j))"
proof -
  let ?d = "drop_bit 22 va" and ?t = "drop_bit 12 va AND 0x3ff"
  let ?e = "mapped_entry True w u (frame_number pa)"
  note ok = vas_tables_ok [OF assms(2-4)]
  have al: "4096 dvd unat q" if "q \<in> L" for q
    using pages.live_frames [OF assms(1) that] by (simp add: page_space_def)
  from mount_page_cases [OF assms(1) ok assms(9)] obtain T new where c: "mount_case m pdt L ?d T new"
    and eff: "mount_effect m m' pdt L ?d ?t T new ?e" and rel: "frames_rel (m', f') (insert T L)" by blast
  let ?N = "if new then {T} else {}"
  note own = mount_own_frames [OF eff c assms(2) ok assms(4) unat_table_index assms(7,8,5,6) al [OF assms(5)]]
  note same = mount_own_same_outside [OF eff c assms(2,7)]
  have vas: "vas_ok kp m' pdt"
    using own eff assms(2,7) mount_effect_tables_ok [OF eff c ok]
    by (auto simp: vas_ok_def mount_effect_def tables_ok_def)
  have T: "new \<Longrightarrow> T \<notin> L" "4096 dvd unat T" using c by (simp_all add: mount_case_def)
  have kernel: "kernel_paging_ok kp m'"
  proof (rule kernel_frame_rule [OF assms(3) same])
    show "kernel_pt kp \<notin> vas_own m pdt \<union> ?N" using assms(2,4) T by (auto simp: vas_ok_def)
    show "4096 dvd unat q" if "q \<in> vas_own m pdt \<union> ?N" for q using that assms(4) T al by (auto split: if_splits)
  qed
  have look: "lookup m' pdt i j = (if i = ?d \<and> j = ?t then Some ?e else lookup m pdt i j)" if "unat i < 1024" "unat j < 1024" for i j
    using mount_effect_lookup [OF eff c ok that] by simp
  have "insert T L = L \<union> ?N" using mount_case_table_owned [OF c assms(2,7)] assms(4) by auto
  with rel have "frames_rel (m', f') (L \<union> ?N)" by simp
  moreover have "card ?N \<le> 1" "?N \<inter> L = {}" using T by simp_all
  ultimately show ?thesis
    by (intro exI [of _ ?N] conjI allI impI vas kernel own same look)
qed

section \<open>Lemmas: the kernel's table and new address spaces\<close>

lemma fill_table:
  fixes W :: "u32 \<Rightarrow> u32" and m :: memory
  assumes "4096 dvd unat p"
  defines "m' \<equiv> for_loop 1024 (\<lambda>i. set_entry p i (W i)) m"
  shows "unat j < 1024 \<Longrightarrow> entry m' p j = W j" "same_outside (in_frames {p}) m m'"
proof -
  let ?P = "\<lambda>n m'. (\<forall>j < n. entry m' p (of_nat j) = W (of_nat j)) \<and> same_outside (in_frames {p}) m m'"
  have "?P (unat (1024 :: u32)) m'"
    unfolding m'_def
  proof (rule for_loop_invariant [where P = ?P])
    fix i m1
    assume i: "i < unat (1024 :: u32)" and IH: "?P i m1"
    have "entry (set_entry p (of_nat i) (W (of_nat i)) m1) p (of_nat j) = W (of_nat j)" if "j < Suc i" for j
      using that i IH assms(1) by (auto simp: entry_set_entry unat_small_index less_Suc_eq)
    moreover have "same_outside (in_frames {p}) m1 (set_entry p (of_nat i) (W (of_nat i)) m1)"
      using i by (intro set_entry_frame) (auto simp: unat_small_index in_frames_def)
    ultimately show "?P (Suc i) (set_entry p (of_nat i) (W (of_nat i)) m1)"
      using IH by (auto intro: same_outside_trans)
  qed simp
  then show "same_outside (in_frames {p}) m m'" "unat j < 1024 \<Longrightarrow> entry m' p j = W j"
    by (auto dest: spec [of _ "unat j"])
qed

lemma setup_kernel_paging_ok:
  assumes "frames_rel (m, f) L" "setup_kernel_paging (m, f) = Inr (kp, m', f')"
  shows "kernel_paging_ok kp m' \<and> kernel_pt kp \<notin> L \<and> frames_rel (m', f') (insert (kernel_pt kp) L)
    \<and> same_outside (in_frames {kernel_pt kp}) m m'"
proof -
  from assms(2) obtain pt m1 where c: "calloc_page (m, f) = Inr (pt, m1, f')"
    and kp: "kp = \<lparr>kernel_pt = pt, kernel_pde = directory_entry True True True (frame_number pt)\<rparr>"
    and m': "m' = for_loop 1024 (\<lambda>i. set_entry pt i (pte_word (mapped_entry True True (0x7 \<le> i \<and> i < 0x80) (ucast (i AND 0xFFFFF))))) m1"
    by (auto simp: setup_kernel_paging_def Let_def split: sum.splits)
  have pt: "pt \<notin> L" "4096 dvd unat pt" and rel: "frames_rel (m1, f') (insert pt L)"
    using cleared_pages.clear_alloc_fresh [OF assms(1) c] cleared_pages.clear_alloc_rel [OF assms(1) c]
    by (auto simp: page_space_def)
  note fill = fill_table [OF pt(2), where m = m1 and W = "\<lambda>i. pte_word (mapped_entry True True (0x7 \<le> i \<and> i < 0x80) (ucast (i AND 0xFFFFF)))", folded m']
  have "frames_rel (m', f') (insert pt L)"
    by (rule pages.write_rel [OF rel]) (rule same_outside_mono [OF fill(2)], auto simp: in_frames_def)
  moreover have "m1 = memzero pt 0x1000 m" using c by (auto elim!: cleared_pages.clear_allocE)
  then have "same_outside (in_frames {pt}) m m1" by (simp add: same_outside_def in_frames_def)
  then have "same_outside (in_frames {pt}) m m'" using fill(2) by (rule same_outside_trans)
  ultimately show ?thesis using fill(1) pt by (simp add: kp kernel_paging_ok_def)
qed

text \<open>The memory \<open>create_VAS\<close> leaves, entry by entry.\<close>

lemma create_VAS_entries:
  assumes "frames_rel (m, f) L" "create_VAS kp (m, f) = Inr (pdt, m', f')"
  obtains spt p where "distinct [pdt, spt, p]" "{pdt, spt, p} \<inter> L = {}" "frames_rel (m', f') (L \<union> {pdt, spt, p})"
    "same_outside (in_frames {pdt, spt}) m m'"
    "\<And>i. unat i < 1024 \<Longrightarrow> entry m' pdt i = (if i = 0 then pde_word (kernel_pde kp)
       else if i = 1 then pde_word (directory_entry True True True (frame_number spt)) else 0)"
    "\<And>i. unat i < 1024 \<Longrightarrow> entry m' spt i =
       (if i = 1023 then pte_word (mapped_entry True True True (frame_number p)) else 0)"
proof -
  from assms(2) obtain m1 f1 spt m3 f3 p m4 where
    c1: "calloc_page (m, f) = Inr (pdt, m1, f1)"
    and c2: "calloc_page (set_entry pdt 0 (pde_word (kernel_pde kp)) m1, f1) = Inr (spt, m3, f3)"
    and c4: "malloc_page (m3, f3) = Inr (p, m4, f')"
    and m4: "m' = set_entry pdt 1 (pde_word (directory_entry True True True (frame_number spt)))
      (set_entry spt 1023 (pte_word (mapped_entry True True True (frame_number p))) m4)"
    by (auto simp: create_VAS_def Let_def split: sum.splits)
  have "m4 = m3" using malloc_page_mem [OF c4] by simp
  note c3 = c4 [unfolded this] and m' = m4 [unfolded this]
  let ?m2 = "set_entry pdt 0 (pde_word (kernel_pde kp)) m1"
  have m1: "m1 = memzero pdt 0x1000 m" and m3: "m3 = memzero spt 0x1000 ?m2"
    using c1 c2 by (auto elim!: cleared_pages.clear_allocE)
  have rel1: "frames_rel (m1, f1) (insert pdt L)" and pdt: "pdt \<notin> L"
    using cleared_pages.clear_alloc_rel [OF assms(1) c1] cleared_pages.clear_alloc_fresh [OF assms(1) c1] by auto
  have "frames_rel (?m2, f1) (insert pdt L)"
    by (rule pages.write_rel [OF rel1]) (rule set_entry_frame; simp add: in_frames_def)
  note rel3 = cleared_pages.clear_alloc_rel [OF this c2] and spt = cleared_pages.clear_alloc_fresh [OF this c2]
  note rel4 = pages.alloc_rel [OF rel3 c3] and p = pages.alloc_fresh [OF rel3 c3]
  have al: "4096 dvd unat pdt" "4096 dvd unat spt"
    using pages.live_frames [OF rel4] by (auto simp: page_space_def)
  show ?thesis
  proof (rule that)
    show "distinct [pdt, spt, p]" "{pdt, spt, p} \<inter> L = {}" using pdt spt p by auto
    have w: "same_outside (in_frames {pdt, spt}) m3 m'" unfolding m'
      by (intro same_outside_trans [OF set_entry_frame [of 1023 spt] set_entry_frame [of 1 pdt]]) (auto simp: in_frames_def)
    have eq: "L \<union> {pdt, spt, p} = insert p (insert spt (insert pdt L))" by auto
    show "frames_rel (m', f') (L \<union> {pdt, spt, p})" unfolding eq
      by (rule pages.write_rel [OF rel4]) (rule same_outside_mono [OF w], auto simp: in_frames_def)
    have "same_outside (in_frames {pdt, spt}) m ?m2" unfolding m1
      by (intro same_outside_trans [OF _ set_entry_frame]) (auto simp: in_frames_def same_outside_def)
    moreover have "same_outside (in_frames {pdt, spt}) ?m2 m3" unfolding m3
      by (simp add: in_frames_def same_outside_def)
    ultimately show "same_outside (in_frames {pdt, spt}) m m'"
      using w by (blast intro: same_outside_trans)
    show "entry m' pdt i = (if i = 0 then pde_word (kernel_pde kp)
       else if i = 1 then pde_word (directory_entry True True True (frame_number spt)) else 0)" if "unat i < 1024" for i
      unfolding m' m3 m1 using that al spt by (auto simp add: entry_set_entry entry_memzero)
    show "entry m' spt i = (if i = 1023 then pte_word (mapped_entry True True True (frame_number p)) else 0)" if "unat i < 1024" for i
      unfolding m' m3 m1 using that al spt by (auto simp add: entry_set_entry entry_memzero)
  qed
qed

text \<open>It takes three frames.\<close>

lemma create_VAS_available:
  assumes "frames_rel s L" "card L + 3 \<le> 261119"
  shows "\<exists>pdt s'. create_VAS kp s = Inr (pdt, s')"
proof -
  obtain pdt m1 f1 where 1: "calloc_page s = Inr (pdt, m1, f1)" "frames_rel (m1, f1) (insert pdt L)" "pdt \<notin> L"
    using calloc_page_available [OF assms(1)] assms(2) by auto
  have "frames_rel (set_entry pdt 0 (pde_word (kernel_pde kp)) m1, f1) (insert pdt L)"
    by (rule pages.write_rel [OF 1(2)]) (rule set_entry_frame; simp add: in_frames_def)
  from calloc_page_available [OF this] 1(3) assms(2) obtain spt m2 f2 where
    2: "calloc_page (set_entry pdt 0 (pde_word (kernel_pde kp)) m1, f1) = Inr (spt, m2, f2)"
      "frames_rel (m2, f2) (insert spt (insert pdt L))" "spt \<notin> insert pdt L" by auto
  from malloc_page_available [OF 2(2)] 1(3) 2(3) assms(2) obtain p m3 f3 where "malloc_page (m2, f2) = Inr (p, m3, f3)" by auto
  with 1(1) 2(1) show ?thesis by (simp add: create_VAS_def Let_def)
qed

text \<open>A table with one entry, the last, and a directory with one table.\<close>

lemma pt_frames_last:
  assumes "\<And>i. unat i < 1024 \<Longrightarrow> entry m pt i =
    (if i = 1023 then pte_word (mapped_entry True w u (frame_number p)) else 0)" "4096 dvd unat p"
  shows "pt_frames m pt = [p]"
proof -
  have l: "leaf m pt i = (if i = 1023 then Some p else None)" if "i < 1024" for i
  proof -
    have "of_nat i = (1023 :: u32) \<longleftrightarrow> i = 1023"
      using that by (subst word_unat_eq_iff) (simp add: unat_small_index)
    then show ?thesis
      using assms that by (simp add: leaf_def unat_small_index)
  qed
  have "[0..<1024] = [0..<1023] @ [1023 :: nat]"
    using upt_Suc_append [of 0 1023] by (simp del: upt_rec_numeral)
  moreover have "List.map_filter (leaf m pt) [0..<1023] = List.map_filter (\<lambda>_. None) [0..<1023]"
    using l by (intro map_filter_cong_on) auto
  ultimately show ?thesis
    using l [of 1023] by (simp add: pt_frames_def del: upt_rec_numeral) (simp add: List.map_filter_def del: upt_rec_numeral)
qed

lemma vas_frames_new:
  assumes "entry m pdt 1 = pde_word (directory_entry True True True (frame_number spt))" "4096 dvd unat spt"
    and "\<And>i. unat i < 1024 \<Longrightarrow> i \<noteq> 0 \<Longrightarrow> i \<noteq> 1 \<Longrightarrow> entry m pdt i = 0"
    and "\<And>i. unat i < 1024 \<Longrightarrow> entry m spt i =
      (if i = 1023 then pte_word (mapped_entry True w u (frame_number p)) else 0)" "4096 dvd unat p"
  shows "vas_frames m pdt = [p, spt]"
proof -
  have "dir_frames m pdt 1 = [p, spt]"
    using assms(1,2) pt_frames_last [OF assms(4,5)] by (simp add: dir_frames_def has_table_def table_of_def)
  moreover have "dir_frames m pdt i = []" if "2 \<le> i" "i < 1024" for i
  proof -
    have "of_nat i \<noteq> (0 :: u32)" "of_nat i \<noteq> (1 :: u32)"
      using that unat_small_index [of i] by auto
    then show ?thesis
      using that assms(3) [of "of_nat i"] unat_small_index [of i] by (auto simp: dir_frames_def has_table_def)
  qed
  then have "concat (map (dir_frames m pdt) [2..<1024]) = []" by auto
  moreover have "[1..<1024] = 1 # [2..<1024 :: nat]"
    by (subst upt_conv_Cons) (simp_all add: numeral_2_eq_2 del: upt_rec_numeral)
  ultimately show ?thesis by (simp add: vas_frames_def del: upt_rec_numeral)
qed

lemma create_VAS_ok:
  assumes "frames_rel (m, f) L" "kernel_paging_ok kp m" "kernel_pt kp \<in> L" "create_VAS kp (m, f) = Inr (pdt, m', f')"
  obtains spt p where "distinct [pdt, spt, p]" "{pdt, spt, p} \<inter> L = {}" "frames_rel (m', f') (L \<union> {pdt, spt, p})"
    "same_outside (in_frames {pdt, spt}) m m'" "vas_ok kp m' pdt" "kernel_paging_ok kp m'" "vas_own m' pdt = {pdt, spt, p}"
    "\<And>i j. unat i < 1024 \<Longrightarrow> unat j < 1024 \<Longrightarrow> lookup m' pdt i j =
       (if i = 0 then Some (mapped_entry True True (0x7 \<le> j \<and> j < 0x80) (ucast (j AND 0xFFFFF)))
        else if i = 1 \<and> j = 1023 then Some (mapped_entry True True True (frame_number p)) else None)"
proof (rule create_VAS_entries [OF assms(1,4)])
  fix spt p
  assume d: "distinct [pdt, spt, p]" "{pdt, spt, p} \<inter> L = {}" and rel: "frames_rel (m', f') (L \<union> {pdt, spt, p})"
    and out: "same_outside (in_frames {pdt, spt}) m m'"
    and dir: "\<And>i. unat i < 1024 \<Longrightarrow> entry m' pdt i = (if i = 0 then pde_word (kernel_pde kp)
       else if i = 1 then pde_word (directory_entry True True True (frame_number spt)) else 0)"
    and tab: "\<And>i. unat i < 1024 \<Longrightarrow> entry m' spt i =
       (if i = 1023 then pte_word (mapped_entry True True True (frame_number p)) else 0)"
  have al: "4096 dvd unat q" if "q \<in> {pdt, spt, p}" for q
    using pages.live_frames [OF rel, of q] that by (auto simp: page_space_def)
  have kernel: "kernel_paging_ok kp m'"
    by (rule kernel_frame_rule [OF assms(2) out]) (use assms(3) d al in auto)
  have k: "kernel_pde kp = directory_entry True True True (frame_number (kernel_pt kp))" "4096 dvd unat (kernel_pt kp)"
    using assms(2) by (simp_all add: kernel_paging_ok_def)
  have t: "table_of m' pdt 0 = kernel_pt kp" "table_of m' pdt 1 = spt"
    using dir k al by (simp_all add: table_of_def)
  have v: "vas_frames m' pdt = [p, spt]"
    by (rule vas_frames_new [OF _ _ _ tab]) (use dir al in auto)
  have vas: "vas_ok kp m' pdt"
    unfolding vas_ok_def
  proof (intro conjI allI impI)
    show "entry m' pdt (of_nat i) = pde_word (directory_entry True True True (frame_number (table_of m' pdt (of_nat i))))"
      if "1 \<le> i" "i < 1024" "pde_present (pde_of (entry m' pdt (of_nat i)))" for i
      using that dir [of "of_nat i"] t unat_small_index [of i] by (auto split: if_splits)
  qed (use d v al assms(3) dir [of 0] in \<open>auto simp: vas_own_def\<close>)
  have look: "lookup m' pdt i j =
       (if i = 0 then Some (mapped_entry True True (0x7 \<le> j \<and> j < 0x80) (ucast (j AND 0xFFFFF)))
        else if i = 1 \<and> j = 1023 then Some (mapped_entry True True True (frame_number p)) else None)"
    if "unat i < 1024" "unat j < 1024" for i j
    using that dir [OF that(1)] tab [OF that(2)] t k kernel by (auto simp: lookup_def kernel_paging_ok_def Let_def)
  show thesis
    using d rel out vas kernel v look by (intro that [of spt p]) (auto simp: vas_own_def)
qed

section \<open>Lemmas: what an address space reaches\<close>

lemma same_page_indices:
  assumes "drop_bit 12 va = drop_bit 12 (vb :: u32)"
  shows "drop_bit 22 va = drop_bit 22 vb"
proof -
  have "drop_bit 10 (drop_bit 12 va) = drop_bit 10 (drop_bit 12 vb)" using assms by simp
  then show ?thesis by simp
qed

lemma drop_bit_unat: "drop_bit k (va :: u32) = w \<longleftrightarrow> unat va div 2 ^ k = unat w"
proof -
  have "unat (drop_bit k va) = unat va div 2 ^ k" by (subst unat_drop_bit_eq) (rule drop_bit_eq_div)
  then show ?thesis by (simp add: word_unat_eq_iff)
qed

lemma in_page:
  "in_region (frame_pointer ad OR (va AND mask 12)) (frame_pointer ad) 4096"
proof -
  have "frame_pointer ad OR (va AND mask 12) = frame_pointer ad + (va AND mask 12)"
    by (subst disjunctive_add_eq_or) (auto simp: bit_eq_iff frame_pointer_def bit_simps)
  moreover have "unat (va AND mask 12) < 4096"
    by (simp add: take_bit_eq_mask [symmetric] take_bit_eq_mod unat_mod)
  ultimately show ?thesis by (simp add: in_region_def)
qed

lemma in_frame_offset:
  fixes p :: u32
  assumes "4096 dvd unat p"
  shows "p OR (va AND mask 12) = p + (va AND 0xFFF)"
proof -
  have "p AND (va AND mask 12) = 0"
    using aligned_low_bits [OF assms] by (auto simp: bit_eq_iff bit_simps)
  then show ?thesis unfolding mask_numerals by (simp add: disjunctive_add_eq_or)
qed

lemma identity_page:
  assumes "drop_bit 22 va = 0"
  shows "frame_pointer (ucast ((drop_bit 12 va AND 0x3ff) AND 0xFFFFF)) OR (va AND mask 12) = va"
proof (rule bit_word_eqI)
  fix n
  assume n: "n < LENGTH(32)"
  have hi: "\<not> bit va n" if "22 \<le> n"
    using arg_cong [OF assms, of "\<lambda>w. bit w (n - 22)"] that by (simp add: bit_simps)
  show "bit (frame_pointer (ucast ((drop_bit 12 va AND 0x3ff) AND 0xFFFFF)) OR (va AND mask 12)) n = bit va n"
    unfolding mask_numerals using n hi
    by (cases "n < 12"; cases "n < 22") (auto simp: frame_pointer_def bit_simps)
qed

lemma low_table_index:
  assumes "drop_bit 22 va = 0"
  shows "drop_bit 12 va AND 0x3ff = drop_bit 12 (va :: u32)"
proof (rule bit_word_eqI)
  fix n
  assume "n < LENGTH(32)"
  have "\<not> bit va (12 + n)" if "10 \<le> n"
    using arg_cong [OF assms, of "\<lambda>w. bit w (n - 10)"] that by (simp add: bit_simps)
  then show "bit (drop_bit 12 va AND 0x3ff) n = bit (drop_bit 12 va) n"
    unfolding mask_numerals by (cases "n < 10") (auto simp: bit_simps)
qed

lemma low_user_window:
  assumes "drop_bit 22 va = 0"
  shows "0x7 \<le> drop_bit 12 va AND 0x3ff \<and> drop_bit 12 va AND 0x3ff < 0x80 \<longleftrightarrow> 0x7000 \<le> va \<and> va < (0x80000 :: u32)"
proof -
  have u: "unat (drop_bit 12 va) = unat va div 4096" by (subst unat_drop_bit_eq) (simp add: drop_bit_eq_div)
  have "7 \<le> unat va div 4096 \<longleftrightarrow> 0x7000 \<le> unat va" "unat va div 4096 < 0x80 \<longleftrightarrow> unat va < 0x80000"
    by (auto simp: less_eq_div_iff_mult_less_eq div_less_iff_less_mult)
  then show ?thesis
    unfolding low_table_index [OF assms] by (simp add: word_le_nat_alt word_less_nat_alt u)
qed

lemma low_index: "drop_bit 22 va = 0 \<longleftrightarrow> va < (0x400000 :: u32)"
  by (simp add: drop_bit_unat word_less_nat_alt div_eq_0_iff)

lemma stack_page_indices:
  "drop_bit 22 va = 1 \<and> drop_bit 12 va AND 0x3ff = 1023 \<longleftrightarrow> 0x7ff000 \<le> va \<and> va < (0x800000 :: u32)"
proof -
  have "drop_bit 22 va = 1 \<and> drop_bit 12 va AND 0x3ff = 1023 \<longleftrightarrow> drop_bit 12 va = 0x7ff"
  proof
    assume "drop_bit 22 va = 1 \<and> drop_bit 12 va AND 0x3ff = 1023"
    then show "drop_bit 12 va = 0x7ff" using page_indices [of va "0x7ff000"] by simp
  next
    assume h: "drop_bit 12 va = 0x7ff"
    have "drop_bit 22 va = drop_bit 10 (drop_bit 12 va)" by simp
    then show "drop_bit 22 va = 1 \<and> drop_bit 12 va AND 0x3ff = 1023" unfolding h by simp
  qed
  also have "\<dots> \<longleftrightarrow> 0x7ff \<le> unat va div 4096 \<and> unat va div 4096 < 0x800" by (auto simp: drop_bit_unat)
  also have "\<dots> \<longleftrightarrow> 0x7ff000 \<le> va \<and> va < 0x800000"
    by (simp add: word_le_nat_alt word_less_nat_alt less_eq_div_iff_mult_less_eq div_less_iff_less_mult)
  finally show ?thesis .
qed

text \<open>The frames user code can name, and the ones only the kernel writes.\<close>

definition vas_leaves :: "memory \<Rightarrow> u32 \<Rightarrow> u32 set" where
  "vas_leaves m pdt = (\<Union>i \<in> {i \<in> {1..<1024}. has_table m pdt (of_nat i)}. set (pt_frames m (table_of m pdt (of_nat i))))"

definition vas_tables :: "memory \<Rightarrow> u32 \<Rightarrow> u32 set" where
  "vas_tables m pdt = (\<lambda>i. table_of m pdt (of_nat i)) ` {i \<in> {1..<1024}. has_table m pdt (of_nat i)}"

lemma vas_own_split: "vas_own m pdt = insert pdt (vas_leaves m pdt \<union> vas_tables m pdt)"
  by (auto simp: vas_own_def vas_frames_def vas_leaves_def vas_tables_def dir_frames_def split: if_splits)

lemma leaves_not_tables:
  assumes "vas_ok kp m pdt"
  shows "vas_leaves m pdt \<inter> insert (kernel_pt kp) (insert pdt (vas_tables m pdt)) = {}"
proof -
  have d: "distinct (concat (map (dir_frames m pdt) [1..<1024]))" "pdt \<notin> set (vas_frames m pdt)" "kernel_pt kp \<notin> vas_own m pdt"
    using assms by (auto simp: vas_ok_def vas_frames_def)
  have "q \<notin> vas_tables m pdt" if "q \<in> vas_leaves m pdt" for q
  proof
    assume "q \<in> vas_tables m pdt"
    with that obtain i j where ij: "i \<in> set [1..<1024]" "j \<in> set [1..<1024]" "has_table m pdt (of_nat i)" "has_table m pdt (of_nat j)"
      "q \<in> set (pt_frames m (table_of m pdt (of_nat i)))" "q = table_of m pdt (of_nat j)"
      by (auto simp: vas_tables_def vas_leaves_def simp del: upt_rec_numeral)
    then have "q \<in> set (dir_frames m pdt i)" "q \<in> set (dir_frames m pdt j)" by (simp_all add: dir_frames_def)
    with ij d(1) have "i = j" by (intro distinct_concat_map_unique [OF d(1)]) auto
    moreover have "distinct (dir_frames m pdt i)" using d(1) ij(1) by (simp add: distinct_concat_iff del: upt_rec_numeral)
    ultimately show False using ij by (simp add: dir_frames_def)
  qed
  moreover have "vas_leaves m pdt \<subseteq> set (vas_frames m pdt)"
    by (auto simp: vas_leaves_def vas_frames_def dir_frames_def intro!: bexI simp del: upt_rec_numeral)
  ultimately show ?thesis using d(2,3) by (auto simp: vas_own_def)
qed

text \<open>An address space depends on the entries of its directory and tables only.\<close>

lemma vas_cong:
  assumes "\<And>q i. q \<in> insert pdt (vas_tables m pdt) \<Longrightarrow> unat i < 1024 \<Longrightarrow> entry m' q i = entry m q i"
  shows "vas_frames m' pdt = vas_frames m pdt" "vas_ok kp m' pdt = vas_ok kp m pdt"
proof -
  have e: "entry m' pdt i = entry m pdt i" if "unat i < 1024" for i using assms that by simp
  have dir: "has_table m' pdt i = has_table m pdt i" "table_of m' pdt i = table_of m pdt i" if "unat i < 1024" for i
    using that e by (simp_all add: has_table_def table_of_def)
  have "dir_frames m' pdt i = dir_frames m pdt i" if "i \<in> set [1..<1024]" for i
  proof -
    have "pt_frames m' (table_of m pdt (of_nat i)) = pt_frames m (table_of m pdt (of_nat i))" if h: "has_table m pdt (of_nat i)"
      unfolding pt_frames_def
    proof (intro map_filter_cong_on leaf_cong assms)
      show "table_of m pdt (of_nat i) \<in> insert pdt (vas_tables m pdt)"
        using h \<open>i \<in> set [1..<1024]\<close> by (auto simp: vas_tables_def)
    qed (auto simp: unat_small_index)
    with that show ?thesis by (auto simp: dir_frames_def dir unat_small_index)
  qed
  then show v: "vas_frames m' pdt = vas_frames m pdt"
    unfolding vas_frames_def by (intro arg_cong [where f = concat] map_cong) auto
  show "vas_ok kp m' pdt = vas_ok kp m pdt"
    by (simp add: vas_ok_def vas_own_def v e dir unat_small_index)
qed

lemma translate_reach:
  assumes "vas_ok kp m pdt" "kernel_paging_ok kp m" "translate m pdt va = Some a"
  shows "if drop_bit 22 va = 0 then a = va else \<exists>p \<in> vas_leaves m pdt. in_region a p 4096"
proof -
  let ?d = "drop_bit 22 va" and ?t = "drop_bit 12 va AND 0x3ff"
  have ok: "tables_ok m pdt (insert (kernel_pt kp) (vas_own m pdt))"
    using assms(1,2) by (rule vas_tables_ok) simp
  obtain e where e: "lookup m pdt ?d ?t = Some e" "a = frame_pointer (pte_address e) OR (va AND mask 12)"
    using assms(3) translate_lookup [OF ok] by (auto split: option.splits)
  then have le: "pde_present (pde_of (entry m pdt ?d))" "pte_present e" "e = pte_of (entry m (table_of m pdt ?d) ?t)"
    by (auto simp: lookup_def Let_def split: if_splits)
  show ?thesis
  proof (cases "?d = 0")
    case True
    have "table_of m pdt 0 = kernel_pt kp"
      using assms(1,2) by (auto simp: vas_ok_def kernel_paging_ok_def table_of_def)
    then have "pte_address e = ucast (?t AND 0xFFFFF)"
      using le(3) True assms(2) unat_table_index [of va] by (simp add: kernel_paging_ok_def)
    then have "a = va" unfolding e(2) by (simp only: identity_page [OF True])
    with True show ?thesis by simp
  next
    case False
    have d: "unat ?d < 1024" "unat ?t < 1024" by (rule unat_directory_index, rule unat_table_index)
    have "has_table m pdt ?d" using le(1) tables_okD(4) [OF ok d(1)] by (simp add: has_table_def)
    moreover have "leaf m (table_of m pdt ?d) (unat ?t) = Some (frame_pointer (pte_address e))"
      using le by (simp add: leaf_def)
    then have "frame_pointer (pte_address e) \<in> set (pt_frames m (table_of m pdt ?d))"
      using d(2) by (auto simp: pt_frames_def set_map_filter_iff simp del: upt_rec_numeral intro!: bexI [of _ "unat ?t"])
    ultimately have "frame_pointer (pte_address e) \<in> vas_leaves m pdt"
      unfolding vas_leaves_def using d(1) False by (intro UN_I [of "unat ?d"]) (auto simp: unat_gt_0 Suc_leI)
    with False in_page [of "pte_address e" va] e(2) show ?thesis by auto
  qed
qed

lemma kernel_rights:
  assumes "vas_ok kp m pdt" "kernel_paging_ok kp m" "drop_bit 22 va = 0"
  shows "translate m pdt va = Some va" "access_rights m pdt va = (0x7000 \<le> va \<and> va < 0x80000, True)"
proof -
  have ok: "tables_ok m pdt (insert (kernel_pt kp) (vas_own m pdt))"
    using assms(1,2) by (rule vas_tables_ok) simp
  let ?t = "drop_bit 12 va AND 0x3ff"
  have k: "table_of m pdt 0 = kernel_pt kp" "pde_present (pde_of (entry m pdt 0))"
    using assms(1,2) by (auto simp: vas_ok_def kernel_paging_ok_def table_of_def)
  have l: "lookup m pdt (drop_bit 22 va) ?t = Some (mapped_entry True True (0x7 \<le> ?t \<and> ?t < 0x80) (ucast (?t AND 0xFFFFF)))"
    using k assms(2) unat_table_index [of va] unfolding assms(3) by (simp add: lookup_def kernel_paging_ok_def)
  show "translate m pdt va = Some va"
    unfolding translate_lookup [OF ok] l option.case entry_fields identity_page [OF assms(3)] ..
  show "access_rights m pdt va = (0x7000 \<le> va \<and> va < 0x80000, True)"
    unfolding access_rights_lookup [OF ok l] entry_fields low_user_window [OF assms(3)] ..
qed

section \<open>Properties\<close>

text \<open>
  What a process can write: through its address space, at addresses mapped for user code
  and writable.
\<close>

definition user_write :: "memory \<Rightarrow> memory \<Rightarrow> u32 \<Rightarrow> bool" where
  "user_write m m' pdt \<longleftrightarrow>
     (\<forall>a. m' a \<noteq> m a \<longrightarrow> (\<exists>va. translate m pdt va = Some a \<and> access_rights m pdt va = (True, True)))"

text \<open>
  The life of an address space: made by \<open>create_VAS\<close>, grown by mounting new frames at
  addresses that are not mounted, written by its process; \<open>L0\<close> is what was allocated when
  it was made.
\<close>

inductive vas_run :: "kernel_paging \<Rightarrow> u32 set \<Rightarrow> u32 \<Rightarrow> memory \<times> frames \<Rightarrow> bool" for kp L0 pdt where
  create: "frames_rel s L0 \<Longrightarrow> kernel_paging_ok kp (fst s) \<Longrightarrow> kernel_pt kp \<in> L0 \<Longrightarrow> create_VAS kp s = Inr (pdt, s')
    \<Longrightarrow> vas_run kp L0 pdt s'"
| grow: "vas_run kp L0 pdt s \<Longrightarrow> malloc_page s = Inr (pa, s1) \<Longrightarrow> drop_bit 22 va \<noteq> 0
    \<Longrightarrow> \<not> is_mounted (fst s1) pdt va \<Longrightarrow> mount_page pdt va pa w u s1 = Inr s' \<Longrightarrow> vas_run kp L0 pdt s'"
| user: "vas_run kp L0 pdt (m, f) \<Longrightarrow> user_write m m' pdt \<Longrightarrow> vas_run kp L0 pdt (m', f)"

text \<open>What holds at every moment of it.\<close>

definition vas_inv :: "kernel_paging \<Rightarrow> u32 set \<Rightarrow> u32 \<Rightarrow> memory \<times> frames \<Rightarrow> bool" where
  "vas_inv kp L0 pdt s \<longleftrightarrow> frames_rel s (L0 \<union> vas_own (fst s) pdt) \<and> L0 \<inter> vas_own (fst s) pdt = {}
     \<and> kernel_pt kp \<in> L0 \<and> vas_ok kp (fst s) pdt \<and> kernel_paging_ok kp (fst s)"

lemma is_mounted_translate: "is_mounted m pdt va \<longleftrightarrow> translate m pdt va \<noteq> None"
  by (auto simp: is_mounted_def translate_def Let_def)

lemma vas_inv_tables: "vas_inv kp L0 pdt s \<Longrightarrow> tables_ok (fst s) pdt (L0 \<union> vas_own (fst s) pdt)"
  by (rule vas_tables_ok) (auto simp: vas_inv_def)

lemma vas_inv_grow:
  assumes "vas_inv kp L0 pdt s" "malloc_page s = Inr (pa, s1)" "drop_bit 22 va \<noteq> 0"
    and "\<not> is_mounted (fst s1) pdt va" "mount_page pdt va pa w u s1 = Inr s'"
  shows "vas_inv kp L0 pdt s'"
proof -
  let ?L = "L0 \<union> vas_own (fst s) pdt"
  obtain m f1 where s1: "s1 = (m, f1)" "fst s = m"
    using malloc_page_mem [OF assms(2)] by (cases s1) simp
  have inv: "frames_rel s ?L" "L0 \<inter> vas_own m pdt = {}" "kernel_pt kp \<in> L0" "vas_ok kp m pdt" "kernel_paging_ok kp m"
    using assms(1) s1 by (simp_all add: vas_inv_def)
  have rel: "frames_rel (m, f1) (insert pa ?L)" and pa: "pa \<notin> ?L"
    using pages.alloc_rel [OF inv(1) assms(2)] pages.alloc_fresh [OF inv(1) assms(2)] s1 by auto
  have "tables_ok m pdt (insert pa ?L)"
    by (rule tables_ok_mono [OF vas_inv_tables [OF assms(1), unfolded s1(2)]]) (auto simp: s1)
  then have none: "lookup m pdt (drop_bit 22 va) (drop_bit 12 va AND 0x3ff) = None"
    using assms(4) s1 translate_lookup [of m pdt _ va] by (auto simp: is_mounted_translate split: option.splits)
  obtain m' f' where s': "s' = (m', f')" by (cases s')
  have sub: "insert (kernel_pt kp) (vas_own m pdt) \<subseteq> insert pa ?L" "pa \<in> insert pa ?L"
    "pa \<notin> insert (kernel_pt kp) (vas_own m pdt)" "mount_page pdt va pa w u (m, f1) = Inr (m', f')"
    using inv(3) pa assms(5) s1 s' by auto
  from mount_own_frame [OF rel inv(4,5) sub(1-3) assms(3) none sub(4)] obtain N where
    N: "N \<inter> insert pa ?L = {}" "frames_rel (m', f') (insert pa ?L \<union> N)" "vas_ok kp m' pdt"
    "kernel_paging_ok kp m'" "vas_own m' pdt = insert pa (vas_own m pdt \<union> N)" by blast
  have "insert pa ?L \<union> N = L0 \<union> vas_own m' pdt" using N(5) s1 by auto
  with N pa inv(2,3) s1 show ?thesis by (auto simp: vas_inv_def s')
qed

lemma user_write_outside:
  assumes "vas_inv kp L0 pdt s" "user_write (fst s) m' pdt"
  shows "same_outside (\<lambda>a. in_frames (vas_leaves (fst s) pdt) a \<or> unat a < 0x400000) (fst s) m'"
  unfolding same_outside_def
proof (intro allI impI)
  fix a
  assume a: "\<not> (in_frames (vas_leaves (fst s) pdt) a \<or> unat a < 0x400000)"
  show "m' a = fst s a"
  proof (rule ccontr)
    assume "m' a \<noteq> fst s a"
    then obtain va where va: "translate (fst s) pdt va = Some a" "access_rights (fst s) pdt va = (True, True)"
      using assms(2) by (auto simp: user_write_def)
    have ok: "vas_ok kp (fst s) pdt" "kernel_paging_ok kp (fst s)" using assms(1) by (simp_all add: vas_inv_def)
    show False
      using translate_reach [OF ok va(1)] kernel_rights(2) [OF ok, of va] va(2) a
      by (auto simp: in_frames_def word_less_nat_alt split: if_splits)
  qed
qed

lemma unat_add_lem_region:
  assumes "in_region a q n" "unat (q :: u32) + n \<le> 2 ^ 32"
  shows "unat a = unat q + unat (a - q)"
proof -
  have "unat (q + (a - q)) = unat q + unat (a - q)"
    using assms unfolding in_region_def by (subst unat_word_ariths(1)) simp
  then show ?thesis by simp
qed

lemma entry_user_write:
  assumes "same_outside (\<lambda>a. in_frames F a \<or> unat a < 0x400000) m m'" "page_space q" "q \<notin> F" "\<And>p. p \<in> F \<Longrightarrow> page_space p"
    and "unat i < 1024"
  shows "entry m' q i = entry m q i"
  unfolding entry_def
proof (rule load32_same_outside [OF assms(1)])
  fix k :: nat
  assume "k < 4"
  then have r: "in_region (q + 4 * i + of_nat k) q 4096"
    using assms(5) by (rule entry_in_frame [rotated])
  then have "unat (q + 4 * i + of_nat k) = unat q + unat (q + 4 * i + of_nat k - q)"
    using assms(2) by (intro unat_add_lem_region [of _ q 4096]) (auto simp: page_space_def)
  then have "\<not> unat (q + 4 * i + of_nat k) < 0x400000"
    using assms(2) by (simp add: page_space_def)
  moreover have "\<not> in_frames F (q + 4 * i + of_nat k)"
  proof
    assume "in_frames F (q + 4 * i + of_nat k)"
    then obtain p where "p \<in> F" "in_region (q + 4 * i + of_nat k) p 4096" by (auto simp: in_frames_def)
    with r assms(2,4) have "p = q" by (intro aligned_region_unique [of p q]) (auto simp: page_space_def)
    with \<open>p \<in> F\<close> assms(3) show False by simp
  qed
  ultimately show "\<not> (in_frames F (q + 4 * i + of_nat k) \<or> unat (q + 4 * i + of_nat k) < 0x400000)" by simp
qed

lemma vas_inv_user:
  assumes "vas_inv kp L0 pdt (m, f)" "user_write m m' pdt"
  shows "vas_inv kp L0 pdt (m', f)" "vas_own m' pdt = vas_own m pdt"
proof -
  let ?F = "vas_leaves m pdt"
  have inv: "frames_rel (m, f) (L0 \<union> vas_own m pdt)" "L0 \<inter> vas_own m pdt = {}" "kernel_pt kp \<in> L0"
    "vas_ok kp m pdt" "kernel_paging_ok kp m"
    using assms(1) by (simp_all add: vas_inv_def)
  have out: "same_outside (\<lambda>a. in_frames ?F a \<or> unat a < 0x400000) m m'"
    using user_write_outside [OF assms(1)] assms(2) by simp
  have ps: "page_space q" if "q \<in> L0 \<union> vas_own m pdt" for q
    using inv(1) that by (rule pages.live_frames)
  have sub: "?F \<subseteq> vas_own m pdt" "vas_tables m pdt \<subseteq> vas_own m pdt" by (auto simp: vas_own_split)
  have e: "entry m' q i = entry m q i" if "q \<in> insert (kernel_pt kp) (insert pdt (vas_tables m pdt))" "unat i < 1024" for q i
    using that leaves_not_tables [OF inv(4)] sub inv(3) vas_own_split [of m pdt]
    by (intro entry_user_write [OF out] ps) auto
  have "frames_rel (m', f) (L0 \<union> vas_own m pdt)"
    by (rule pages.write_rel [OF inv(1)], rule same_outside_mono [OF out])
      (use sub in \<open>auto simp: in_frames_def outside_page_space_def\<close>)
  moreover have "kernel_paging_ok kp m'"
    using inv(5) e by (simp add: kernel_paging_ok_def)
  moreover have v: "vas_frames m' pdt = vas_frames m pdt" "vas_ok kp m' pdt = vas_ok kp m pdt"
    using e by (intro vas_cong; simp)+
  ultimately show "vas_inv kp L0 pdt (m', f)"
    using inv by (simp add: vas_inv_def vas_own_def)
  show "vas_own m' pdt = vas_own m pdt" using v(1) by (simp add: vas_own_def)
qed

lemma vas_run_inv: "vas_run kp L0 pdt s \<Longrightarrow> vas_inv kp L0 pdt s"
proof (induction rule: vas_run.induct)
  case (create s s')
  obtain m f m' f' where s: "s = (m, f)" "s' = (m', f')" by (cases s, cases s')
  show ?case
    by (rule create_VAS_ok [of m f L0 kp pdt m' f']) (use create s in \<open>auto simp: vas_inv_def\<close>)
qed (auto intro: vas_inv_grow vas_inv_user(1))

text \<open>A mount writes only frames of the address space it grows, and the address space keeps its frames.\<close>

lemma vas_inv_grow_frame:
  assumes "vas_inv kp L0 pdt s" "malloc_page s = Inr (pa, s1)" "drop_bit 22 va \<noteq> 0"
    and "\<not> is_mounted (fst s) pdt va" "mount_page pdt va pa w u s1 = Inr s'"
  shows "same_outside (in_frames (vas_own (fst s') pdt)) (fst s) (fst s')" "vas_own (fst s) pdt \<subseteq> vas_own (fst s') pdt"
    "\<exists>X. card X \<le> 2 \<and> vas_own (fst s') pdt = vas_own (fst s) pdt \<union> X"
proof -
  let ?L = "L0 \<union> vas_own (fst s) pdt"
  obtain m f1 where s1: "s1 = (m, f1)" "fst s = m"
    using malloc_page_mem [OF assms(2)] by (cases s1) simp
  obtain m' f' where s': "s' = (m', f')" by (cases s')
  have inv: "frames_rel s ?L" "kernel_pt kp \<in> L0" "vas_ok kp m pdt" "kernel_paging_ok kp m"
    using assms(1) s1 by (simp_all add: vas_inv_def)
  have rel: "frames_rel (m, f1) (insert pa ?L)" and pa: "pa \<notin> ?L"
    using pages.alloc_rel [OF inv(1) assms(2)] pages.alloc_fresh [OF inv(1) assms(2)] s1 by auto
  have sub: "insert (kernel_pt kp) (vas_own m pdt) \<subseteq> insert pa ?L" "pa \<in> insert pa ?L"
    "pa \<notin> insert (kernel_pt kp) (vas_own m pdt)" "mount_page pdt va pa w u (m, f1) = Inr (m', f')"
    "lookup m pdt (drop_bit 22 va) (drop_bit 12 va AND 0x3ff) = None"
    using inv(2) pa assms(4,5) s1 s' translate_lookup [OF vas_inv_tables [OF assms(1), unfolded s1(2)], of va]
    by (auto simp: is_mounted_translate split: option.splits)
  from mount_own_frame [OF rel inv(3,4) sub(1-3) assms(3) sub(5,4)] obtain N where
    N: "vas_own m' pdt = insert pa (vas_own m pdt \<union> N)" "same_outside (in_frames (vas_own m pdt \<union> N)) m m'" "card N \<le> 1" by blast
  show "same_outside (in_frames (vas_own (fst s') pdt)) (fst s) (fst s')"
    using N s1 s' by (auto simp: in_frames_def elim!: same_outside_mono)
  show "vas_own (fst s) pdt \<subseteq> vas_own (fst s') pdt" using N(1) s1 s' by auto
  have "card (insert pa N) \<le> 2" using N(3) by (simp add: card_insert_if)
  then show "\<exists>X. card X \<le> 2 \<and> vas_own (fst s') pdt = vas_own (fst s) pdt \<union> X"
    using N(1) s1 s' by (intro exI [of _ "insert pa N"]) auto
qed

text \<open>A mount takes at most one more frame than the mounted one.\<close>

lemma mount_page_available:
  assumes "frames_rel s L" "card L < 261119"
  shows "\<exists>s'. mount_page pdt va pa w u s = Inr s'"
  using calloc_page_available [OF assms] by (auto simp: mount_page_def Let_def split: prod.split)

lemma mount_page_translate:
  assumes "vas_inv kp L0 pdt s" "malloc_page s = Inr (pa, s1)" "0x400000 \<le> va"
    and "\<not> is_mounted (fst s) pdt va" "mount_page pdt va pa w u s1 = Inr (m', f')"
  shows "translate m' pdt vb = (if drop_bit 12 vb = drop_bit 12 va then Some (pa + (vb AND 0xFFF)) else translate (fst s) pdt vb)
    \<and> (drop_bit 12 vb = drop_bit 12 va \<longrightarrow> access_rights m' pdt vb = (u, w))
    \<and> (drop_bit 12 vb \<noteq> drop_bit 12 va \<and> is_mounted m' pdt vb \<longrightarrow> access_rights m' pdt vb = access_rights (fst s) pdt vb)
    \<and> vas_inv kp L0 pdt (m', f')"
proof -
  let ?L = "L0 \<union> vas_own (fst s) pdt"
  obtain m f1 where s1: "s1 = (m, f1)" "fst s = m"
    using malloc_page_mem [OF assms(2)] by (cases s1) simp
  have d: "drop_bit 22 va \<noteq> 0" using assms(3) by (simp add: low_index)
  have inv': "vas_inv kp L0 pdt (m', f')"
    by (rule vas_inv_grow [OF assms(1,2) d _ assms(5)]) (use assms(4) s1 in simp)
  have inv: "frames_rel s ?L" "kernel_pt kp \<in> L0" "vas_ok kp m pdt" "kernel_paging_ok kp m"
    using assms(1) s1 by (simp_all add: vas_inv_def)
  have rel: "frames_rel (m, f1) (insert pa ?L)" and pa: "pa \<notin> ?L" "page_space pa"
    using pages.alloc_rel [OF inv(1) assms(2)] pages.alloc_fresh [OF inv(1) assms(2)] pages.alloc_frame [OF inv(1) assms(2)] s1 by auto
  note tabs = vas_inv_tables [OF assms(1), unfolded s1(2)] and tabs' = vas_inv_tables [OF inv', simplified]
  have sub: "insert (kernel_pt kp) (vas_own m pdt) \<subseteq> insert pa ?L" "pa \<in> insert pa ?L"
    "pa \<notin> insert (kernel_pt kp) (vas_own m pdt)" "mount_page pdt va pa w u (m, f1) = Inr (m', f')"
    "lookup m pdt (drop_bit 22 va) (drop_bit 12 va AND 0x3ff) = None"
    using inv(2) pa assms(4,5) s1 translate_lookup [OF tabs, of va]
    by (auto simp: is_mounted_translate split: option.splits)
  from mount_own_frame [OF rel inv(3,4) sub(1-3) d sub(5,4)] have
    look: "lookup m' pdt (drop_bit 22 vb) (drop_bit 12 vb AND 0x3ff) =
      (if drop_bit 12 vb = drop_bit 12 va then Some (mapped_entry True w u (frame_number pa))
       else lookup m pdt (drop_bit 22 vb) (drop_bit 12 vb AND 0x3ff))"
    using unat_directory_index [of vb] unat_table_index [of vb] page_indices [of vb va] same_page_indices [of vb va] by auto
  have al: "4096 dvd unat pa" using pa(2) by (simp add: page_space_def)
  show ?thesis
    using look al inv' translate_lookup [OF tabs', of vb] translate_lookup [OF tabs, of vb] in_frame_offset [OF al, of vb]
      access_rights_lookup [OF tabs', where va = vb] access_rights_lookup [OF tabs, where va = vb] s1
    by (auto simp: is_mounted_translate split: option.splits)
qed

text \<open>Concrete first steps, for the witnesses: the kernel's table and one address space.\<close>

lemma first_frames:
  "calloc_page (m, \<lparr>frame_edge = 0x400000, frame_free_list = 0\<rparr>) = Inr (0x400000, memzero 0x400000 0x1000 m, \<lparr>frame_edge = 0x401000, frame_free_list = 0\<rparr>)"
  "calloc_page (m, \<lparr>frame_edge = 0x401000, frame_free_list = 0\<rparr>) = Inr (0x401000, memzero 0x401000 0x1000 m, \<lparr>frame_edge = 0x402000, frame_free_list = 0\<rparr>)"
  "calloc_page (m, \<lparr>frame_edge = 0x402000, frame_free_list = 0\<rparr>) = Inr (0x402000, memzero 0x402000 0x1000 m, \<lparr>frame_edge = 0x403000, frame_free_list = 0\<rparr>)"
  "malloc_page (m, \<lparr>frame_edge = 0x403000, frame_free_list = 0\<rparr>) = Inr (0x403000, m, \<lparr>frame_edge = 0x404000, frame_free_list = 0\<rparr>)"
  "malloc_page (m, \<lparr>frame_edge = 0x404000, frame_free_list = 0\<rparr>) = Inr (0x404000, m, \<lparr>frame_edge = 0x405000, frame_free_list = 0\<rparr>)"
  "calloc_page (m, \<lparr>frame_edge = 0x405000, frame_free_list = 0\<rparr>) = Inr (0x405000, memzero 0x405000 0x1000 m, \<lparr>frame_edge = 0x406000, frame_free_list = 0\<rparr>)"
  by (simp_all add: calloc_page_def malloc_page_def page_numbers)

lemma boot_kernel_paging:
  "\<exists>kp m. setup_kernel_paging (\<lambda>_. 0, frames_initial) = Inr (kp, m, \<lparr>frame_edge = 0x401000, frame_free_list = 0\<rparr>) \<and> kernel_pt kp = 0x400000"
  by (simp add: setup_kernel_paging_def frames_initial_def page_numbers first_frames Let_def)

lemma boot_create_VAS:
  "\<exists>m'. create_VAS kp (m, \<lparr>frame_edge = 0x401000, frame_free_list = 0\<rparr>) = Inr (0x401000, m', \<lparr>frame_edge = 0x404000, frame_free_list = 0\<rparr>)"
  by (simp add: create_VAS_def first_frames Let_def)

lemma new_VAS_translate:
  assumes "frames_rel (m1, f1) L" "kernel_paging_ok kp m1" "kernel_pt kp \<in> L" "create_VAS kp (m1, f1) = Inr (pdt, m, f)"
  shows "\<exists>p. page_space p \<and> p \<notin> L \<and> (\<forall>va.
      translate m pdt va = (if va < 0x400000 then Some va
        else if 0x7ff000 \<le> va \<and> va < 0x800000 then Some (p + (va AND 0xFFF)) else None)
    \<and> (va < 0x400000 \<longrightarrow> access_rights m pdt va = (0x7000 \<le> va \<and> va < 0x80000, True))
    \<and> (0x7ff000 \<le> va \<and> va < 0x800000 \<longrightarrow> access_rights m pdt va = (True, True)))"
proof -
  obtain spt p where "distinct [pdt, spt, p]" and d: "{pdt, spt, p} \<inter> L = {}"
    and rel: "frames_rel (m, f) (L \<union> {pdt, spt, p})" and "same_outside (in_frames {pdt, spt}) m1 m"
    and ok: "vas_ok kp m pdt" "kernel_paging_ok kp m" "vas_own m pdt = {pdt, spt, p}"
    and look: "\<And>i j. unat i < 1024 \<Longrightarrow> unat j < 1024 \<Longrightarrow> lookup m pdt i j =
       (if i = 0 then Some (mapped_entry True True (0x7 \<le> j \<and> j < 0x80) (ucast (j AND 0xFFFFF)))
        else if i = 1 \<and> j = 1023 then Some (mapped_entry True True True (frame_number p)) else None)"
    by (rule create_VAS_ok [OF assms]) (rule that; assumption)
  have p: "page_space p" using pages.live_frames [OF rel] by simp
  have tabs: "tables_ok m pdt (insert (kernel_pt kp) (vas_own m pdt))"
    using ok(1,2) by (rule vas_tables_ok) simp
  have lk: "lookup m pdt (drop_bit 22 va) (drop_bit 12 va AND 0x3ff) =
      (if 0x7ff000 \<le> va \<and> va < 0x800000 then Some (mapped_entry True True True (frame_number p)) else None)"
    if "\<not> va < 0x400000" for va
    using look [OF unat_directory_index unat_table_index, of va va] that low_index [of va] stack_page_indices [of va] by simp
  have "translate m pdt va = (if va < 0x400000 then Some va
      else if 0x7ff000 \<le> va \<and> va < 0x800000 then Some (p + (va AND 0xFFF)) else None)" for va
    using kernel_rights(1) [OF ok(1,2), of va] low_index [of va] lk [of va] translate_lookup [OF tabs, of va]
      in_frame_offset [of p va] p by (auto simp: page_space_def)
  moreover have "access_rights m pdt va = (0x7000 \<le> va \<and> va < 0x80000, True)" if "va < 0x400000" for va
    using kernel_rights(2) [OF ok(1,2)] low_index that by simp
  moreover have "access_rights m pdt va = (True, True)" if "0x7ff000 \<le> va \<and> va < 0x800000" for va
  proof -
    have "\<not> va < 0x400000" using that by (auto simp: word_le_nat_alt word_less_nat_alt)
    with lk [of va] that access_rights_lookup [OF tabs, where va = va] show ?thesis by simp
  qed
  ultimately show ?thesis using p d by (intro exI [of _ p]) auto
qed

lemma create_VAS_translate:
  assumes "frames_rel s L" "setup_kernel_paging s = Inr (kp, s1)" "create_VAS kp s1 = Inr (pdt, m, f)"
  shows "\<exists>p. page_space p \<and> p \<notin> L \<and> (\<forall>va.
      translate m pdt va = (if va < 0x400000 then Some va
        else if 0x7ff000 \<le> va \<and> va < 0x800000 then Some (p + (va AND 0xFFF)) else None)
    \<and> (va < 0x400000 \<longrightarrow> access_rights m pdt va = (0x7000 \<le> va \<and> va < 0x80000, True))
    \<and> (0x7ff000 \<le> va \<and> va < 0x800000 \<longrightarrow> access_rights m pdt va = (True, True)))"
proof -
  obtain m1 f1 where s1: "s1 = (m1, f1)" by (cases s1)
  have k: "frames_rel (m1, f1) (insert (kernel_pt kp) L)" "kernel_paging_ok kp m1" "kernel_pt kp \<in> insert (kernel_pt kp) L"
    "create_VAS kp (m1, f1) = Inr (pdt, m, f)"
    using setup_kernel_paging_ok [of "fst s" "snd s" L] assms s1 by auto
  from new_VAS_translate [OF k] show ?thesis by auto
qed

lemma boot_vas_run:
  "\<exists>kp m. kernel_pt kp = 0x400000 \<and> vas_run kp {0x400000} 0x401000 (m, \<lparr>frame_edge = 0x404000, frame_free_list = 0\<rparr>)
    \<and> translate m 0x401000 0x7000 = Some 0x7000 \<and> access_rights m 0x401000 0x7000 = (True, True)
    \<and> translate m 0x401000 0x7fe000 = None"
proof -
  from boot_kernel_paging obtain kp m where
    k: "setup_kernel_paging (\<lambda>_. 0, frames_initial) = Inr (kp, m, \<lparr>frame_edge = 0x401000, frame_free_list = 0\<rparr>)" "kernel_pt kp = 0x400000"
    by blast
  from boot_create_VAS obtain m' where
    c: "create_VAS kp (m, \<lparr>frame_edge = 0x401000, frame_free_list = 0\<rparr>) = Inr (0x401000, m', \<lparr>frame_edge = 0x404000, frame_free_list = 0\<rparr>)"
    by blast
  have "vas_run kp {0x400000} 0x401000 (m', \<lparr>frame_edge = 0x404000, frame_free_list = 0\<rparr>)"
    by (rule vas_run.create [OF _ _ _ c]) (use setup_kernel_paging_ok [OF frames_rel_initial k(1)] k(2) in auto)
  moreover from create_VAS_translate [OF frames_rel_initial k(1) c] obtain p where t: "\<forall>va.
      translate m' 0x401000 va = (if va < 0x400000 then Some va
        else if 0x7ff000 \<le> va \<and> va < 0x800000 then Some (p + (va AND 0xFFF)) else None)
      \<and> (va < 0x400000 \<longrightarrow> access_rights m' 0x401000 va = (0x7000 \<le> va \<and> va < 0x80000, True))" by blast
  have "translate m' 0x401000 0x7000 = Some 0x7000" "access_rights m' 0x401000 0x7000 = (True, True)"
    "translate m' 0x401000 0x7fe000 = None"
    using spec [OF t, of "0x7000"] spec [OF t, of "0x7fe000"] by simp_all
  ultimately show ?thesis using k(2) by blast
qed

text \<open>
  The bit fields of a page-table entry and of a directory entry and the 32-bit words
  they are stored as determine each other.
\<close>

theorem entry_words_roundtrip:
  "pte_of (pte_word e) = e \<and> pte_word (pte_of w) = w \<and> pde_of (pde_word d) = d \<and> pde_word (pde_of w) = w"
proof -
  have bits: "12 \<le> n \<or> n = 11 \<or> n = 10 \<or> n = 9 \<or> n = 8 \<or> n = 7 \<or> n = 6 \<or> n = 5 \<or> n = 4 \<or> n = 3 \<or> n = 2 \<or> n < 2" for n :: nat
    by arith
  have "pte_word (pte_of w) = w"
  proof (rule bit_word_eqI)
    fix n
    assume "n < LENGTH(32)"
    with bits [of n] show "bit (pte_word (pte_of w)) n = bit w n"
      by (elim disjE; simp add: pte_word_def pte_of_def bit_simps less_2_cases_iff; auto)
  qed
  moreover have "pde_word (pde_of w) = w"
  proof (rule bit_word_eqI)
    fix n
    assume "n < LENGTH(32)"
    with bits [of n] show "bit (pde_word (pde_of w)) n = bit w n"
      by (elim disjE; simp add: pde_word_def pde_of_def bit_simps less_2_cases_iff; auto)
  qed
  ultimately show ?thesis by simp
qed

text \<open>
  C17: \<open>is_mounted\<close> tells exactly whether the processor would translate the address.
\<close>

theorem is_mounted_correct:
  "is_mounted m pdt va \<longleftrightarrow> (\<exists>pa. translate m pdt va = Some pa)"
  using is_mounted_translate [of m pdt va] by auto

text \<open>
  C16: a new address space maps the first 4 MB one to one, open to user code from \<open>0x7000\<close>
  to \<open>0x80000\<close> only, maps one fresh page below \<open>0x800000\<close> as the stack, writable by user
  code, and nothing else.
\<close>

theorem create_VAS_layout:
  assumes "frames_rel s L" "setup_kernel_paging s = Inr (kp, s1)" "create_VAS kp s1 = Inr (pdt, m, f)"
  shows "\<exists>p. page_space p \<and> p \<notin> L \<and> (\<forall>va.
      translate m pdt va = (if va < 0x400000 then Some va
        else if 0x7ff000 \<le> va \<and> va < 0x800000 then Some (p + (va AND 0xFFF)) else None)
    \<and> (va < 0x400000 \<longrightarrow> access_rights m pdt va = (0x7000 \<le> va \<and> va < 0x80000, True))
    \<and> (0x7ff000 \<le> va \<and> va < 0x800000 \<longrightarrow> access_rights m pdt va = (True, True)))"
  by (rule create_VAS_translate [OF assms])

theorem create_VAS_layout_witness:
  "\<exists>kp s1 m f p. setup_kernel_paging (\<lambda>_. 0, frames_initial) = Inr (kp, s1) \<and> create_VAS kp s1 = Inr (0x401000, m, f)
    \<and> page_space p \<and> translate m 0x401000 0x7ff004 = Some (p + 4) \<and> translate m 0x401000 0x800000 = None"
proof -
  from boot_kernel_paging obtain kp m where
    k: "setup_kernel_paging (\<lambda>_. 0, frames_initial) = Inr (kp, m, \<lparr>frame_edge = 0x401000, frame_free_list = 0\<rparr>)"
    by blast
  from boot_create_VAS obtain m' where
    c: "create_VAS kp (m, \<lparr>frame_edge = 0x401000, frame_free_list = 0\<rparr>) = Inr (0x401000, m', \<lparr>frame_edge = 0x404000, frame_free_list = 0\<rparr>)"
    by blast
  from create_VAS_layout [OF frames_rel_initial k c] obtain p where p: "page_space p"
    and t: "\<forall>va. translate m' 0x401000 va = (if va < 0x400000 then Some va
      else if 0x7ff000 \<le> va \<and> va < 0x800000 then Some (p + (va AND 0xFFF)) else None)" by blast
  have "translate m' 0x401000 0x7ff004 = Some (p + 4)" "translate m' 0x401000 0x800000 = None"
    using spec [OF t, of "0x7ff004"] spec [OF t, of "0x800000"] by simp_all
  with k c p show ?thesis by blast
qed

text \<open>
  C15: mounting a frame of its own at an unmounted address above the kernel's 4 MB gives the
  process exactly that page, with the rights asked for; every other address translates as
  before, with the same rights, and what the allocator holds grows by the new table at most.
\<close>

theorem mount_page_correct:
  assumes "vas_inv kp L0 pdt s" "malloc_page s = Inr (pa, s1)" "0x400000 \<le> va"
    and "\<not> is_mounted (fst s) pdt va" "mount_page pdt va pa w u s1 = Inr (m', f')"
  shows "translate m' pdt vb = (if drop_bit 12 vb = drop_bit 12 va then Some (pa + (vb AND 0xFFF)) else translate (fst s) pdt vb)
    \<and> (drop_bit 12 vb = drop_bit 12 va \<longrightarrow> access_rights m' pdt vb = (u, w))
    \<and> (drop_bit 12 vb \<noteq> drop_bit 12 va \<and> is_mounted m' pdt vb \<longrightarrow> access_rights m' pdt vb = access_rights (fst s) pdt vb)
    \<and> vas_inv kp L0 pdt (m', f')"
  by (rule mount_page_translate [OF assms])

theorem mount_page_correct_witness:
  "\<exists>kp m m' f'. vas_inv kp {0x400000} 0x401000 (m, \<lparr>frame_edge = 0x404000, frame_free_list = 0\<rparr>)
    \<and> mount_page 0x401000 0x7fe000 0x404000 True True (m, \<lparr>frame_edge = 0x405000, frame_free_list = 0\<rparr>) = Inr (m', f')
    \<and> translate m' 0x401000 0x7fe123 = Some 0x404123"
proof -
  from boot_vas_run obtain kp m where
    v: "vas_run kp {0x400000} 0x401000 (m, \<lparr>frame_edge = 0x404000, frame_free_list = 0\<rparr>)" "translate m 0x401000 0x7fe000 = None"
    by blast
  have inv: "vas_inv kp {0x400000} 0x401000 (m, \<lparr>frame_edge = 0x404000, frame_free_list = 0\<rparr>)"
    using v(1) by (rule vas_run_inv)
  obtain m' f' where mnt: "mount_page 0x401000 0x7fe000 0x404000 True True (m, \<lparr>frame_edge = 0x405000, frame_free_list = 0\<rparr>) = Inr (m', f')"
    by (cases "mount_page 0x401000 0x7fe000 0x404000 True True (m, \<lparr>frame_edge = 0x405000, frame_free_list = 0\<rparr>)")
      (auto simp: mount_page_def first_frames Let_def split: if_splits)
  have "\<not> is_mounted (fst (m, \<lparr>frame_edge = 0x404000, frame_free_list = 0\<rparr>)) 0x401000 0x7fe000"
    using v(2) by (simp add: is_mounted_translate)
  from mount_page_correct [OF inv first_frames(5) _ this mnt, of "0x7fe123"]
  have "translate m' 0x401000 0x7fe123 = Some 0x404123" by simp
  with inv mnt show ?thesis by blast
qed

text \<open>
  C13: isolation. Whatever a process reaches with user rights through its address space is
  the window \<open>[0x7000, 0x80000)\<close> of low memory or a page mapped for it: never its own page
  tables or directory, the kernel's table, or a frame allocated to anyone else.
\<close>

theorem user_isolation:
  assumes "vas_run kp L0 pdt (m, f)" "translate m pdt va = Some a" "fst (access_rights m pdt va)"
  shows "(0x7000 \<le> a \<and> a < 0x80000 \<or> in_frames (vas_leaves m pdt) a)
    \<and> \<not> in_frames (L0 \<union> insert pdt (vas_tables m pdt)) a"
proof -
  have inv: "vas_inv kp L0 pdt (m, f)" using assms(1) by (rule vas_run_inv)
  then have ok: "vas_ok kp m pdt" "kernel_paging_ok kp m" and rel: "frames_rel (m, f) (L0 \<union> vas_own m pdt)"
    and dis: "L0 \<inter> vas_own m pdt = {}" by (simp_all add: vas_inv_def)
  have ps: "page_space q" if "q \<in> L0 \<union> vas_own m pdt" for q using rel that by (rule pages.live_frames)
  have reach: "0x7000 \<le> a \<and> a < 0x80000 \<or> in_frames (vas_leaves m pdt) a"
    using translate_reach [OF ok assms(2)] kernel_rights(2) [OF ok, of va] assms(3) by (auto simp: in_frames_def split: if_splits)
  have "\<not> in_region a q 4096" if "q \<in> L0 \<union> insert pdt (vas_tables m pdt)" for q
  proof
    assume a: "in_region a q 4096"
    have q: "page_space q" using that ps by (auto simp: vas_own_split)
    then have "unat q \<le> unat a"
      using unat_add_lem_region [OF a] by (simp add: page_space_def)
    then have "\<not> a < 0x80000" using q by (simp add: page_space_def word_less_nat_alt)
    with reach obtain p where p: "p \<in> vas_leaves m pdt" "in_region a p 4096" by (auto simp: in_frames_def)
    then have "page_space p" using ps by (simp add: vas_own_split)
    with p(2) a q have "p = q" by (intro aligned_region_unique [of p q a]) (auto simp: page_space_def)
    with p(1) that dis leaves_not_tables [OF ok(1)] show False by (auto simp: vas_own_split)
  qed
  with reach show ?thesis by (auto simp: in_frames_def)
qed

theorem user_isolation_witness:
  "\<exists>kp m f. vas_run kp {0x400000} 0x401000 (m, f) \<and> translate m 0x401000 0x7000 = Some 0x7000
    \<and> \<not> in_frames (insert 0x401000 (insert 0x400000 (vas_tables m 0x401000))) 0x7000"
proof -
  from boot_vas_run obtain kp m where
    v: "vas_run kp {0x400000} 0x401000 (m, \<lparr>frame_edge = 0x404000, frame_free_list = 0\<rparr>)"
      "translate m 0x401000 0x7000 = Some 0x7000" "access_rights m 0x401000 0x7000 = (True, True)"
    by blast
  from user_isolation [OF v(1,2)] v show ?thesis by auto
qed

text \<open>
  C14: when an address space that grew by any number of mounts is freed, every frame it took
  goes back to the allocator except one, the page directory itself.
\<close>

theorem free_VAS_returns_frames:
  assumes "vas_run kp L0 pdt s"
  shows "frames_rel (free_VAS pdt s) (insert pdt L0) \<and> pdt \<notin> L0"
proof -
  have inv: "vas_inv kp L0 pdt s" using assms by (rule vas_run_inv)
  then have "frames_rel (free_VAS pdt (fst s, snd s)) (L0 \<union> vas_own (fst s) pdt - set (vas_frames (fst s) pdt))"
    by (intro free_VAS_rel) (auto simp: vas_inv_def vas_ok_def vas_own_def)
  moreover have "L0 \<union> vas_own (fst s) pdt - set (vas_frames (fst s) pdt) = insert pdt L0"
    using inv by (auto simp: vas_inv_def vas_ok_def vas_own_def)
  ultimately show ?thesis using inv by (auto simp: vas_inv_def vas_own_def)
qed

theorem free_VAS_returns_frames_witness:
  "\<exists>kp s. vas_run kp {0x400000} 0x401000 s \<and> frames_rel (free_VAS 0x401000 s) {0x401000, 0x400000}"
  using boot_vas_run free_VAS_returns_frames by fastforce

end
