(* ===== verification/Scheduler.thy ===== *)
theory Scheduler
  imports Prelude Memmgnt Interrupts
begin

text \<open>
  \<^verbatim>\<open>src/processes/scheduler/scheduler.c\<close>, \<^verbatim>\<open>src/processes/process.h\<close>: the pool of scheduler
  nodes and the cyclic doubly linked list of processes. The nodes live in one block of the
  immortal arena that nothing else is given (\<open>immortal_blocks_disjoint\<close> of \<open>Memmgnt\<close>); they
  are modelled as a map from node addresses to records, pointers as 32-bit addresses, with
  the free list's links overlaying the first field of the process as in the code. The sizes
  of the two structures depend on the compiler's ABI and are parameters.
\<close>

section \<open>Data\<close>

definition PID_MAX :: u32 where
  "PID_MAX = 16"

record IntraContext =
  context_of :: Context
  user_esp :: u32
  user_ss :: u16

record Process =
  process_pdt :: u32
  process_pid :: u32
  process_executable :: u32
  process_argc :: u32
  process_argv :: u32
  process_ctx :: IntraContext
  lowest_stack_page :: u32

record SchedulerNode =
  node_process :: Process
  node_next :: u32
  node_prev :: u32

record abi =
  sizeof_Process :: u32
  sizeof_SchedulerNode :: u32

record scheduler =
  nodes :: "u32 \<Rightarrow> SchedulerNode"
  scheduler_start :: u32
  scheduler_front :: u32
  scheduler_end :: u32
  scheduler_free_list :: u32
  current_process :: u32

definition scheduler_initial :: "(u32 \<Rightarrow> SchedulerNode) \<Rightarrow> scheduler" where
  "scheduler_initial ns = \<lparr>nodes = ns, scheduler_start = 0, scheduler_front = 0, scheduler_end = 0,
     scheduler_free_list = 0, current_process = 0\<rparr>"

text \<open>Assignments through a node pointer.\<close>

definition update_process :: "u32 \<Rightarrow> (Process \<Rightarrow> Process) \<Rightarrow> scheduler \<Rightarrow> scheduler" where
  "update_process p g s = s\<lparr>nodes := (nodes s)(p := (nodes s p)\<lparr>node_process := g (node_process (nodes s p))\<rparr>)\<rparr>"

definition set_next :: "u32 \<Rightarrow> u32 \<Rightarrow> scheduler \<Rightarrow> scheduler" where
  "set_next p v s = s\<lparr>nodes := (nodes s)(p := (nodes s p)\<lparr>node_next := v\<rparr>)\<rparr>"

definition set_prev :: "u32 \<Rightarrow> u32 \<Rightarrow> scheduler \<Rightarrow> scheduler" where
  "set_prev p v s = s\<lparr>nodes := (nodes s)(p := (nodes s p)\<lparr>node_prev := v\<rparr>)\<rparr>"

section \<open>Operations\<close>

text \<open>\<open>*(void**) node\<close> is the first field of the node, the process's \<open>pdt\<close>.\<close>

definition alloc_process :: "abi \<Rightarrow> scheduler \<Rightarrow> (u32 \<times> scheduler) result" where
  "alloc_process lay s =
     (if scheduler_free_list s \<noteq> 0
      then Inr (scheduler_free_list s,
             s\<lparr>scheduler_free_list := process_pdt (node_process (nodes s (scheduler_free_list s)))\<rparr>)
      else if scheduler_end s \<le> scheduler_front s
      then Inl (Panic ''Too many processes.\<newline>'')
      else Inr (scheduler_front s, s\<lparr>scheduler_front := scheduler_front s + sizeof_SchedulerNode lay\<rparr>))"

definition free_process :: "u32 \<Rightarrow> scheduler \<Rightarrow> scheduler" where
  "free_process p s =
     (update_process p (\<lambda>pr. pr\<lparr>process_pdt := scheduler_free_list s\<rparr>) s)\<lparr>scheduler_free_list := p\<rparr>"

definition init_scheduler :: "abi \<Rightarrow> scheduler \<times> immortal \<Rightarrow> (scheduler \<times> immortal) result" where
  "init_scheduler lay si =
     (case malloc_immortal (PID_MAX * sizeof_Process lay) 8 (snd si) of
        Inl e \<Rightarrow> Inl e
      | Inr (p, im) \<Rightarrow> Inr ((fst si)\<lparr>scheduler_start := p, scheduler_front := p,
          scheduler_end := p + PID_MAX * sizeof_Process lay\<rparr>, im))"

definition schedule_process :: "abi \<Rightarrow> scheduler \<Rightarrow> (u32 \<times> scheduler) result" where
  "schedule_process lay s =
     (case alloc_process lay s of
        Inl e \<Rightarrow> Inl e
      | Inr (node, s) \<Rightarrow>
          (let s = (if current_process s \<noteq> 0
             then (let cur = current_process s;
                       s = set_prev node (node_prev (nodes s cur)) s;
                       s = set_next node cur s;
                       s = set_next (node_prev (nodes s cur)) node s
                   in set_prev cur node s)
             else (let s = set_prev node node s;
                       s = set_next node node s
                   in s\<lparr>current_process := node\<rparr>))
           in Inr (node, update_process node
                (\<lambda>pr. pr\<lparr>process_pid := (node - scheduler_start s) div sizeof_SchedulerNode lay\<rparr>) s)))"

definition scheduler_next_process :: "scheduler \<Rightarrow> u32 \<times> scheduler" where
  "scheduler_next_process s =
     (let s = s\<lparr>current_process := node_next (nodes s (current_process s))\<rparr> in (current_process s, s))"

definition scheduler_current_process :: "scheduler \<Rightarrow> u32" where
  "scheduler_current_process s = current_process s"

section \<open>The interface of a round-robin scheduler\<close>

text \<open>
  \<open>rel s xs\<close>: the processes in the order they will run, the current one first. Adding a
  process puts it behind all the others; a switch rotates the list.
\<close>

locale round_robin =
  fixes add :: "'s \<Rightarrow> ('p \<times> 's) result" and switch :: "'s \<Rightarrow> 'p \<times> 's" and rel :: "'s \<Rightarrow> 'p list \<Rightarrow> bool"
  assumes add_rel: "rel s xs \<Longrightarrow> add s = Inr (p, s') \<Longrightarrow> rel s' (xs @ [p]) \<and> p \<notin> set xs"
    and switch_rel: "rel s (x # xs) \<Longrightarrow> switch s = (p, s') \<Longrightarrow> rel s' (xs @ [x]) \<and> p = hd (xs @ [x])"
begin

fun switches :: "nat \<Rightarrow> 's \<Rightarrow> 's" where
  "switches 0 s = s"
| "switches (Suc n) s = switches n (snd (switch s))"

lemma switches_rel: "rel s xs \<Longrightarrow> xs \<noteq> [] \<Longrightarrow> rel (switches n s) (rotate n xs)"
proof (induction n arbitrary: s xs)
  case (Suc n)
  then obtain y ys where xs: "xs = y # ys" by (cases xs) auto
  have "rel (snd (switch s)) (rotate1 xs)"
    using switch_rel [of s y ys "fst (switch s)" "snd (switch s)"] Suc.prems xs by simp
  from Suc.IH [OF this] xs show ?case by (simp add: rotate1_rotate_swap)
qed simp

text \<open>Every process runs within one round, and a round returns to the start.\<close>

lemma switch_nth:
  assumes "rel s xs" "n < length xs"
  shows "\<exists>ys. rel (switches n s) (xs ! n # ys)"
proof -
  have "rel (switches n s) (rotate n xs)" using assms by (intro switches_rel) auto
  moreover have "rotate n xs = xs ! n # drop (Suc n) xs @ take n xs"
    using assms(2) by (simp add: rotate_drop_take Cons_nth_drop_Suc)
  ultimately show ?thesis by auto
qed

lemma round_returns: "rel s xs \<Longrightarrow> xs \<noteq> [] \<Longrightarrow> rel (switches (length xs) s) xs"
  using switches_rel [of s xs "length xs"] by simp

end

section \<open>The pool of nodes\<close>

text \<open>
  The addresses the pool hands out are the multiples of the node size from the start of the
  block. \<open>taken\<close> is the set of nodes that are handed out and not freed.
\<close>

fun free_nodes :: "scheduler \<Rightarrow> u32 \<Rightarrow> u32 list \<Rightarrow> bool" where
  "free_nodes s p [] \<longleftrightarrow> p = 0"
| "free_nodes s p (x # xs) \<longleftrightarrow> p \<noteq> 0 \<and> p = x \<and> free_nodes s (process_pdt (node_process (nodes s x))) xs"

definition node_at :: "abi \<Rightarrow> scheduler \<Rightarrow> nat \<Rightarrow> u32" where
  "node_at lay s k = scheduler_start s + of_nat k * sizeof_SchedulerNode lay"

definition abi_ok :: "abi \<Rightarrow> bool" where
  "abi_ok lay \<longleftrightarrow> 0 < unat (sizeof_Process lay) \<and> unat (sizeof_Process lay) < unat (sizeof_SchedulerNode lay)
     \<and> unat (sizeof_SchedulerNode lay) \<le> 4096"

definition pool_inv :: "abi \<Rightarrow> scheduler \<Rightarrow> nat \<Rightarrow> u32 list \<Rightarrow> u32 set \<Rightarrow> bool" where
  "pool_inv lay s n free taken \<longleftrightarrow>
     0x100000 \<le> unat (scheduler_start s) \<and> unat (scheduler_start s) + 16 * unat (sizeof_Process lay) \<le> 0x400000
     \<and> scheduler_end s = scheduler_start s + PID_MAX * sizeof_Process lay
     \<and> scheduler_front s = node_at lay s n
     \<and> n * unat (sizeof_SchedulerNode lay) < 16 * unat (sizeof_Process lay) + unat (sizeof_SchedulerNode lay)
     \<and> free_nodes s (scheduler_free_list s) free \<and> distinct free \<and> set free \<subseteq> node_at lay s ` {..<n}
     \<and> taken = node_at lay s ` {..<n} - set free"

lemma pool_arith:
  assumes "abi_ok lay" "0x100000 \<le> unat (scheduler_start s)" "unat (scheduler_start s) + 16 * unat (sizeof_Process lay) \<le> 0x400000"
    and "k * unat (sizeof_SchedulerNode lay) < 16 * unat (sizeof_Process lay) + unat (sizeof_SchedulerNode lay)"
  shows "unat (node_at lay s k) = unat (scheduler_start s) + k * unat (sizeof_SchedulerNode lay)"
    "unat (scheduler_start s + PID_MAX * sizeof_Process lay) = unat (scheduler_start s) + 16 * unat (sizeof_Process lay)"
proof -
  have b: "unat (scheduler_start s) + k * unat (sizeof_SchedulerNode lay) < 4294967296"
    "unat (sizeof_SchedulerNode lay) \<le> 4096" "0 < unat (sizeof_SchedulerNode lay)"
    using assms by (auto simp: abi_ok_def)
  have "k \<le> k * unat (sizeof_SchedulerNode lay)" using b(3) by simp
  then have "k < 4294967296" using b(1) by linarith
  then have "unat (of_nat k * sizeof_SchedulerNode lay) = k * unat (sizeof_SchedulerNode lay)"
    using b(1) by (simp add: unat_word_ariths unat_of_nat take_bit_nat_eq_self)
  then show "unat (node_at lay s k) = unat (scheduler_start s) + k * unat (sizeof_SchedulerNode lay)"
    using b(1) by (simp add: node_at_def unat_word_ariths)
  show "unat (scheduler_start s + PID_MAX * sizeof_Process lay) = unat (scheduler_start s) + 16 * unat (sizeof_Process lay)"
    using assms(3) by (simp add: PID_MAX_def unat_word_ariths)
qed

lemma node_at_inj:
  assumes "abi_ok lay" "pool_inv lay s n free taken" "j \<le> n" "k \<le> n" "node_at lay s j = node_at lay s k"
  shows "j = k"
proof -
  have "i * unat (sizeof_SchedulerNode lay) < 16 * unat (sizeof_Process lay) + unat (sizeof_SchedulerNode lay)" if "i \<le> n" for i
  proof -
    have "i * unat (sizeof_SchedulerNode lay) \<le> n * unat (sizeof_SchedulerNode lay)" using that by simp
    moreover have "n * unat (sizeof_SchedulerNode lay) < 16 * unat (sizeof_Process lay) + unat (sizeof_SchedulerNode lay)"
      using assms(2) by (simp add: pool_inv_def)
    ultimately show ?thesis by (rule le_less_trans)
  qed
  then have "unat (node_at lay s i) = unat (scheduler_start s) + i * unat (sizeof_SchedulerNode lay)" if "i \<le> n" for i
    using pool_arith(1) [OF assms(1)] assms(2) that by (simp add: pool_inv_def)
  from this [OF assms(3)] this [OF assms(4)] arg_cong [OF assms(5), of unat]
  have "j * unat (sizeof_SchedulerNode lay) = k * unat (sizeof_SchedulerNode lay)" by linarith
  then show ?thesis using assms(1) by (simp add: abi_ok_def)
qed

lemma free_nodes_cong:
  "free_nodes s p xs \<Longrightarrow> (\<And>x. x \<in> set xs \<Longrightarrow> process_pdt (node_process (nodes s' x)) = process_pdt (node_process (nodes s x)))
    \<Longrightarrow> free_nodes s' p xs"
  by (induction s p xs rule: free_nodes.induct) auto

lemma alloc_process_nodes: "alloc_process lay s = Inr (p, s') \<Longrightarrow> nodes s' = nodes s \<and> current_process s' = current_process s
    \<and> scheduler_start s' = scheduler_start s"
  by (auto simp: alloc_process_def split: if_splits)

lemma alloc_process_pool:
  assumes "abi_ok lay" "pool_inv lay s n free taken" "alloc_process lay s = Inr (p, s')"
  shows "\<exists>n' free'. pool_inv lay s' n' free' (insert p taken)" "p \<notin> taken" "p \<noteq> 0"
proof -
  have "(\<exists>n' free'. pool_inv lay s' n' free' (insert p taken)) \<and> p \<notin> taken \<and> p \<noteq> 0"
  proof (cases free)
    case (Cons x xs)
    then have p: "p = x" "s' = s\<lparr>scheduler_free_list := process_pdt (node_process (nodes s x))\<rparr>" "x \<noteq> 0"
      using assms(2,3) by (auto simp: pool_inv_def alloc_process_def)
    have same: "node_at lay s' = node_at lay s" by (simp add: p(2) node_at_def fun_eq_iff)
    have "free_nodes s' (scheduler_free_list s') xs"
      using assms(2) Cons by (auto simp: p(2) pool_inv_def intro: free_nodes_cong)
    moreover have t: "insert x taken = node_at lay s ` {..<n} - set xs" "distinct xs" "set xs \<subseteq> node_at lay s ` {..<n}" "x \<notin> taken"
      using assms(2) Cons by (auto simp: pool_inv_def)
    moreover have "scheduler_start s' = scheduler_start s" "scheduler_front s' = scheduler_front s" "scheduler_end s' = scheduler_end s"
      by (simp_all add: p(2))
    ultimately have "pool_inv lay s' n xs (insert x taken)"
      using assms(2) by (simp add: pool_inv_def same)
    with p(1,3) t(4) show ?thesis by auto
  next
    case Nil
    then have z: "scheduler_free_list s = 0" using assms(2) by (simp add: pool_inv_def)
    then have room: "\<not> scheduler_end s \<le> scheduler_front s" and p: "p = node_at lay s n"
      and s': "s' = s\<lparr>scheduler_front := scheduler_front s + sizeof_SchedulerNode lay\<rparr>"
      using assms(2,3) by (auto simp: alloc_process_def pool_inv_def split: if_splits)
    have ar: "unat (node_at lay s n) = unat (scheduler_start s) + n * unat (sizeof_SchedulerNode lay)"
      "unat (scheduler_end s) = unat (scheduler_start s) + 16 * unat (sizeof_Process lay)"
      using pool_arith [OF assms(1), of s n] assms(2) by (simp_all add: pool_inv_def)
    then have "n * unat (sizeof_SchedulerNode lay) < 16 * unat (sizeof_Process lay)"
      using room assms(2) by (simp add: pool_inv_def word_le_nat_alt)
    moreover have same: "node_at lay s' = node_at lay s" by (simp add: s' node_at_def fun_eq_iff)
    moreover have "scheduler_front s' = node_at lay s (Suc n)"
      using assms(2) by (simp add: s' node_at_def pool_inv_def algebra_simps)
    moreover have "node_at lay s n \<notin> node_at lay s ` {..<n}"
      using node_at_inj [OF assms(1,2), of n] by (metis image_iff lessThan_iff less_imp_le order_refl less_irrefl)
    ultimately have "pool_inv lay s' (Suc n) [] (insert p taken)" "p \<notin> taken"
      using assms(2) Nil p z by (auto simp: pool_inv_def s' lessThan_Suc)
    moreover have "p \<noteq> 0" using ar(1) p assms(2) by (auto simp: pool_inv_def)
    ultimately show ?thesis by blast
  qed
  then show "\<exists>n' free'. pool_inv lay s' n' free' (insert p taken)" "p \<notin> taken" "p \<noteq> 0" by auto
qed

lemma free_process_pool:
  assumes "pool_inv lay s n free taken" "p \<in> taken" "p \<noteq> 0"
  shows "pool_inv lay (free_process p s) n (p # free) (taken - {p})"
proof -
  have same: "node_at lay (free_process p s) = node_at lay s" by (simp add: free_process_def update_process_def node_at_def fun_eq_iff)
  have "free_nodes (free_process p s) (scheduler_free_list s) free"
    using assms by (auto simp: pool_inv_def free_process_def update_process_def intro: free_nodes_cong)
  with assms show ?thesis
    by (auto simp: pool_inv_def same) (auto simp: free_process_def update_process_def)
qed

lemma init_scheduler_pool:
  assumes "immortal_inv im" "abi_ok lay" "init_scheduler lay (s, im) = Inr (s', im')" "scheduler_free_list s = 0"
  shows "pool_inv lay s' 0 [] {}" "immortal_inv im'" "current_process s' = current_process s"
proof -
  have sz: "unat (PID_MAX * sizeof_Process lay) = 16 * unat (sizeof_Process lay)"
    using assms(2) by (auto simp: PID_MAX_def abi_ok_def unat_word_ariths)
  then have nz: "PID_MAX * sizeof_Process lay \<noteq> 0" using assms(2) by (auto simp: abi_ok_def)
  from assms(3) obtain p where m: "malloc_immortal (PID_MAX * sizeof_Process lay) 8 im = Inr (p, im')"
    and s': "s' = s\<lparr>scheduler_start := p, scheduler_front := p, scheduler_end := p + PID_MAX * sizeof_Process lay\<rparr>"
    by (auto simp: init_scheduler_def split: sum.splits)
  note ok = malloc_immortal_ok [OF assms(1) nz _ m]
  show "pool_inv lay s' 0 [] {}" "immortal_inv im'" "current_process s' = current_process s"
    using ok sz assms(2,4) by (auto simp: pool_inv_def s' node_at_def abi_ok_def)
qed

section \<open>The ring\<close>

definition ring :: "scheduler \<Rightarrow> u32 list \<Rightarrow> bool" where
  "ring s xs \<longleftrightarrow> distinct xs \<and> 0 \<notin> set xs \<and> current_process s = (case xs of [] \<Rightarrow> 0 | x # _ \<Rightarrow> x)
     \<and> map (\<lambda>p. node_next (nodes s p)) xs = rotate1 xs
     \<and> map (\<lambda>p. node_prev (nodes s p)) (rotate1 xs) = xs"

lemma ring_switch:
  assumes "ring s (x # xs)"
  shows "ring (snd (scheduler_next_process s)) (xs @ [x])" "fst (scheduler_next_process s) = hd (xs @ [x])"
proof -
  have n: "map (\<lambda>p. node_next (nodes s p)) (x # xs) = xs @ [x]" and v: "map (\<lambda>p. node_prev (nodes s p)) (xs @ [x]) = x # xs"
    and c: "current_process s = x" and d: "distinct (x # xs)" "0 \<notin> set (x # xs)"
    using assms by (simp_all add: ring_def)
  have "node_next (nodes s x) = hd (xs @ [x])" using arg_cong [OF n, of hd] by simp
  then have cur: "current_process (snd (scheduler_next_process s)) = hd (xs @ [x])" "fst (scheduler_next_process s) = hd (xs @ [x])"
    "nodes (snd (scheduler_next_process s)) = nodes s"
    by (simp_all add: scheduler_next_process_def c Let_def)
  then show "fst (scheduler_next_process s) = hd (xs @ [x])" by simp
  have "map (\<lambda>p. node_next (nodes s p)) (rotate1 (x # xs)) = rotate1 (rotate1 (x # xs))"
    "map (\<lambda>p. node_prev (nodes s p)) (rotate1 (rotate1 (x # xs))) = rotate1 (x # xs)"
    using n v unfolding rotate1_map [symmetric] by simp_all
  then show "ring (snd (scheduler_next_process s)) (xs @ [x])"
    using cur d by (auto simp: ring_def split: list.split)
qed

text \<open>The four assignments of an insertion, as the two link functions they leave.\<close>

lemma schedule_process_links:
  assumes "alloc_process lay s = Inr (p, s1)" "current_process s \<noteq> 0" "p \<noteq> current_process s" "p \<noteq> node_prev (nodes s (current_process s))"
  shows "\<exists>s'. schedule_process lay s = Inr (p, s') \<and> current_process s' = current_process s \<and> scheduler_start s' = scheduler_start s
    \<and> (\<forall>r. node_next (nodes s' r) = (if r = node_prev (nodes s (current_process s)) then p
        else if r = p then current_process s else node_next (nodes s r)))
    \<and> (\<forall>r. node_prev (nodes s' r) = (if r = current_process s then p
        else if r = p then node_prev (nodes s (current_process s)) else node_prev (nodes s r)))
    \<and> (\<forall>r. node_process (nodes s' r) = (if r = p then (node_process (nodes s p))\<lparr>process_pid :=
        (p - scheduler_start s) div sizeof_SchedulerNode lay\<rparr> else node_process (nodes s r)))"
  using assms alloc_process_nodes [OF assms(1)]
  by (simp add: schedule_process_def Let_def update_process_def set_next_def set_prev_def)

lemma schedule_process_first:
  assumes "alloc_process lay s = Inr (p, s1)" "current_process s = 0"
  shows "\<exists>s'. schedule_process lay s = Inr (p, s') \<and> current_process s' = p \<and> scheduler_start s' = scheduler_start s
    \<and> node_next (nodes s' p) = p \<and> node_prev (nodes s' p) = p
    \<and> (\<forall>r. node_process (nodes s' r) = (if r = p then (node_process (nodes s p))\<lparr>process_pid :=
        (p - scheduler_start s) div sizeof_SchedulerNode lay\<rparr> else node_process (nodes s r)))"
  using assms alloc_process_nodes [OF assms(1)]
  by (simp add: schedule_process_def Let_def update_process_def set_next_def set_prev_def)

lemma ring_ends:
  assumes "ring s xs" "xs = x # ys" "xs = zs @ [z]"
  shows "current_process s = x" "map (\<lambda>p. node_next (nodes s p)) zs = ys" "node_next (nodes s z) = x"
    "map (\<lambda>p. node_prev (nodes s p)) ys = zs" "node_prev (nodes s x) = z"
proof -
  show "current_process s = x" using assms(1,2) by (simp add: ring_def)
  have "map (\<lambda>p. node_next (nodes s p)) (zs @ [z]) = ys @ [x]" "map (\<lambda>p. node_prev (nodes s p)) (ys @ [x]) = zs @ [z]"
    using assms(1) unfolding ring_def assms(3) [symmetric] by (simp_all add: assms(2))
  then show "map (\<lambda>p. node_next (nodes s p)) zs = ys" "node_next (nodes s z) = x"
    "map (\<lambda>p. node_prev (nodes s p)) ys = zs" "node_prev (nodes s x) = z" by simp_all
qed

lemma ring_schedule:
  assumes "ring s xs" "alloc_process lay s = Inr (p, s1)" "p \<notin> set xs" "p \<noteq> 0"
  shows "\<exists>s'. schedule_process lay s = Inr (p, s') \<and> ring s' (xs @ [p]) \<and> scheduler_start s' = scheduler_start s
    \<and> (\<forall>r. node_process (nodes s' r) = (if r = p then (node_process (nodes s p))\<lparr>process_pid :=
        (p - scheduler_start s) div sizeof_SchedulerNode lay\<rparr> else node_process (nodes s r)))"
proof (cases "xs = []")
  case True
  with assms schedule_process_first [OF assms(2)] show ?thesis by (auto simp: ring_def)
next
  case False
  then obtain x ys where xs: "xs = x # ys" by (meson neq_Nil_conv)
  from False obtain zs z where zs: "xs = zs @ [z]" by (meson rev_exhaust)
  note e = ring_ends [OF assms(1) xs zs]
  have d: "distinct (x # ys)" "distinct (zs @ [z])" "0 \<notin> set xs" using assms(1) xs zs by (auto simp: ring_def)
  have p0: "p \<notin> set (x # ys)" "p \<notin> set (zs @ [z])" "x \<noteq> 0"
    using assms(3) d(3) xs by (simp_all add: zs [symmetric])
  have neq: "x \<noteq> 0" "p \<noteq> x" "p \<noteq> z" "p \<notin> set ys" "p \<notin> set zs" "z \<notin> set zs" "x \<notin> set ys"
    using d p0 by auto
  from schedule_process_links [OF assms(2)] obtain s' where s': "schedule_process lay s = Inr (p, s')"
    "current_process s' = x" "scheduler_start s' = scheduler_start s"
    "\<And>r. node_next (nodes s' r) = (if r = z then p else if r = p then x else node_next (nodes s r))"
    "\<And>r. node_prev (nodes s' r) = (if r = x then p else if r = p then z else node_prev (nodes s r))"
    "\<forall>r. node_process (nodes s' r) = (if r = p then (node_process (nodes s p))\<lparr>process_pid :=
      (p - scheduler_start s) div sizeof_SchedulerNode lay\<rparr> else node_process (nodes s r))"
    using neq unfolding e(1,5) by auto
  have "map (\<lambda>p. node_next (nodes s' p)) zs = map (\<lambda>p. node_next (nodes s p)) zs"
    by (rule map_cong) (use neq in \<open>auto simp: s'(4)\<close>)
  then have nz: "map (\<lambda>p. node_next (nodes s' p)) zs = ys" using e(2) by simp
  have "map (\<lambda>p. node_prev (nodes s' p)) ys = map (\<lambda>p. node_prev (nodes s p)) ys"
    by (rule map_cong) (use neq in \<open>auto simp: s'(5)\<close>)
  then have vy: "map (\<lambda>p. node_prev (nodes s' p)) ys = zs" using e(4) by simp
  have "map (\<lambda>p. node_next (nodes s' p)) (zs @ [z, p]) = ys @ [p, x]" using nz neq by (simp add: s'(4))
  moreover have rot: "rotate1 (xs @ [p]) = ys @ [p, x]" using xs by simp
  moreover have app: "xs @ [p] = zs @ [z, p]" using zs by simp
  ultimately have n: "map (\<lambda>p. node_next (nodes s' p)) (xs @ [p]) = rotate1 (xs @ [p])" by metis
  have "map (\<lambda>p. node_prev (nodes s' p)) (ys @ [p, x]) = zs @ [z, p]" using vy neq by (simp add: s'(5))
  then have "map (\<lambda>p. node_prev (nodes s' p)) (rotate1 (xs @ [p])) = xs @ [p]" using rot app by metis
  with n have "ring s' (xs @ [p])" using s'(2) assms(1,3,4) xs by (auto simp: ring_def)
  with s' show ?thesis by blast
qed

section \<open>The scheduler is round robin\<close>

text \<open>
  \<open>sched_inv lay s xs\<close>: the ring holds the processes \<open>xs\<close>, nodes taken from the pool, each
  with the number of its place in the pool as its process id.
\<close>

definition sched_inv :: "abi \<Rightarrow> scheduler \<Rightarrow> u32 list \<Rightarrow> bool" where
  "sched_inv lay s xs \<longleftrightarrow> abi_ok lay \<and> ring s xs \<and> (\<exists>n free taken. pool_inv lay s n free taken \<and> set xs \<subseteq> taken)
     \<and> (\<forall>p \<in> set xs. process_pid (node_process (nodes s p)) = (p - scheduler_start s) div sizeof_SchedulerNode lay)"

lemma pool_inv_links:
  assumes "pool_inv lay s n free taken" "scheduler_start s' = scheduler_start s" "scheduler_end s' = scheduler_end s"
    "scheduler_front s' = scheduler_front s" "scheduler_free_list s' = scheduler_free_list s"
    "\<And>r. r \<in> set free \<Longrightarrow> process_pdt (node_process (nodes s' r)) = process_pdt (node_process (nodes s r))"
  shows "pool_inv lay s' n free taken"
proof -
  have "node_at lay s' = node_at lay s" using assms(2) by (simp add: node_at_def fun_eq_iff)
  moreover have "free_nodes s' (scheduler_free_list s') free"
    using assms by (auto simp: pool_inv_def intro: free_nodes_cong)
  ultimately show ?thesis using assms(1-5) by (simp add: pool_inv_def)
qed

lemma schedule_process_pool_fields:
  assumes "alloc_process lay s = Inr (p, s1)" "schedule_process lay s = Inr (q, s')"
  shows "scheduler_end s' = scheduler_end s1" "scheduler_front s' = scheduler_front s1"
    "scheduler_free_list s' = scheduler_free_list s1"
  using assms by (auto simp: schedule_process_def Let_def update_process_def set_next_def set_prev_def)

lemma sched_inv_add:
  assumes "sched_inv lay s xs" "schedule_process lay s = Inr (q, s')"
  shows "sched_inv lay s' (xs @ [q])" "q \<notin> set xs" "q \<noteq> 0"
    "\<forall>r. node_process (nodes s' r) = (if r = q then (node_process (nodes s q))\<lparr>process_pid :=
        (q - scheduler_start s) div sizeof_SchedulerNode lay\<rparr> else node_process (nodes s r))"
proof -
  obtain p s1 where a: "alloc_process lay s = Inr (p, s1)"
    using assms(2) by (auto simp: schedule_process_def split: sum.splits)
  from assms(1) obtain n free taken where i: "abi_ok lay" "ring s xs" "pool_inv lay s n free taken" "set xs \<subseteq> taken"
    by (auto simp: sched_inv_def)
  note pool = alloc_process_pool [OF i(1,3) a]
  have p: "p \<notin> set xs" "p \<noteq> 0" using pool(2,3) i(4) by auto
  from ring_schedule [OF i(2) a p] assms(2) have q: "q = p" and r: "ring s' (xs @ [p])" "scheduler_start s' = scheduler_start s"
    and pr: "\<forall>r. node_process (nodes s' r) = (if r = p then (node_process (nodes s p))\<lparr>process_pid :=
        (p - scheduler_start s) div sizeof_SchedulerNode lay\<rparr> else node_process (nodes s r))" by auto
  from pool(1) obtain n' free' where inv': "pool_inv lay s1 n' free' (insert p taken)" by blast
  have "pool_inv lay s' n' free' (insert p taken)"
    by (rule pool_inv_links [OF inv'])
      (use r(2) pr alloc_process_nodes [OF a] schedule_process_pool_fields [OF a assms(2)] in auto)
  with i r q pr p(1) assms(1) show "sched_inv lay s' (xs @ [q])" by (auto simp: sched_inv_def)
  show "q \<notin> set xs" "q \<noteq> 0" using p q by auto
  show "\<forall>r. node_process (nodes s' r) = (if r = q then (node_process (nodes s q))\<lparr>process_pid :=
        (q - scheduler_start s) div sizeof_SchedulerNode lay\<rparr> else node_process (nodes s r))" using pr q by simp
qed

lemma sched_inv_switch:
  assumes "sched_inv lay s (x # xs)" "scheduler_next_process s = (p, s')"
  shows "sched_inv lay s' (xs @ [x])" "p = hd (xs @ [x])" "nodes s' = nodes s"
proof -
  have s': "s' = snd (scheduler_next_process s)" "p = fst (scheduler_next_process s)" using assms(2) by simp_all
  show n: "nodes s' = nodes s" "p = hd (xs @ [x])"
    using ring_switch(2) [of s x xs] assms(1) s' by (simp_all add: scheduler_next_process_def Let_def sched_inv_def)
  from assms(1) obtain n free taken where i: "pool_inv lay s n free taken" "set (x # xs) \<subseteq> taken" "abi_ok lay" "ring s (x # xs)"
    by (auto simp: sched_inv_def)
  have "pool_inv lay s' n free taken"
    by (rule pool_inv_links [OF i(1)]) (simp_all add: n s'(1) scheduler_next_process_def Let_def)
  moreover have "ring s' (xs @ [x])" unfolding s'(1) by (rule ring_switch(1) [OF i(4)])
  moreover have "scheduler_start s' = scheduler_start s" by (simp add: s'(1) scheduler_next_process_def Let_def)
  ultimately show "sched_inv lay s' (xs @ [x])" using i(2,3) assms(1) n(1) by (auto simp: sched_inv_def)
qed

interpretation rr: round_robin "schedule_process lay" scheduler_next_process "sched_inv lay" for lay
  by unfold_locales (auto dest: sched_inv_add sched_inv_switch)

text \<open>The bare iteration of the code's switch, for statements outside the interface.\<close>

lemma switches_funpow: "rr.switches n s = ((\<lambda>s. snd (scheduler_next_process s)) ^^ n) s"
  by (induction n arbitrary: s) (simp_all add: rr.switches.simps funpow_Suc_right del: funpow.simps(2))

lemma current_is_head: "sched_inv lay s (x # xs) \<Longrightarrow> scheduler_current_process s = x"
  by (simp add: sched_inv_def ring_def scheduler_current_process_def)

lemma alloc_process_at_front:
  assumes "abi_ok lay" "pool_inv lay s n [] taken" "n * unat (sizeof_SchedulerNode lay) < 16 * unat (sizeof_Process lay)"
  shows "alloc_process lay s = Inr (node_at lay s n, s\<lparr>scheduler_front := node_at lay s (Suc n)\<rparr>)"
proof -
  have "unat (node_at lay s n) < unat (scheduler_end s)"
    using pool_arith [OF assms(1), of s n] assms(2,3) by (simp add: pool_inv_def)
  then show ?thesis
    using assms(2) by (simp add: alloc_process_def pool_inv_def word_le_nat_alt) (simp add: node_at_def algebra_simps)
qed

text \<open>Allocating again and again from a fresh pool.\<close>

fun alloc_times :: "abi \<Rightarrow> nat \<Rightarrow> scheduler \<Rightarrow> scheduler result" where
  "alloc_times lay 0 s = Inr s"
| "alloc_times lay (Suc k) s = (case alloc_times lay k s of Inl e \<Rightarrow> Inl e
     | Inr s \<Rightarrow> (case alloc_process lay s of Inl e \<Rightarrow> Inl e | Inr (p, s) \<Rightarrow> Inr s))"

lemma alloc_times_front:
  assumes "abi_ok lay" "pool_inv lay s 0 [] {}" "k * unat (sizeof_SchedulerNode lay) < 16 * unat (sizeof_Process lay) + unat (sizeof_SchedulerNode lay)"
  shows "alloc_times lay k s = Inr (s\<lparr>scheduler_front := node_at lay s k\<rparr>) \<and>
    pool_inv lay (s\<lparr>scheduler_front := node_at lay s k\<rparr>) k [] (node_at lay s ` {..<k})"
  using assms(3)
proof (induction k)
  case 0
  then show ?case using assms(2) by (simp add: pool_inv_def node_at_def)
next
  case (Suc k)
  let ?s = "s\<lparr>scheduler_front := node_at lay s k\<rparr>"
  have same: "node_at lay (s\<lparr>scheduler_front := v\<rparr>) = node_at lay s" for v by (simp add: node_at_def fun_eq_iff)
  have k: "k * unat (sizeof_SchedulerNode lay) < 16 * unat (sizeof_Process lay)" using Suc.prems by simp
  with Suc.IH have IH: "alloc_times lay k s = Inr ?s" "pool_inv lay ?s k [] (node_at lay s ` {..<k})" by auto
  with alloc_process_at_front [OF assms(1) IH(2) k] have "alloc_times lay (Suc k) s = Inr (s\<lparr>scheduler_front := node_at lay s (Suc k)\<rparr>)"
    by (simp add: same)
  moreover have "pool_inv lay (s\<lparr>scheduler_front := node_at lay s (Suc k)\<rparr>) (Suc k) [] (node_at lay s ` {..<Suc k})"
    using IH(2) Suc.prems by (simp add: pool_inv_def same)
  ultimately show ?case by blast
qed

lemma boot_scheduler:
  "init_scheduler \<lparr>sizeof_Process = 100, sizeof_SchedulerNode = 108\<rparr> (scheduler_initial ns, immortal_initial)
    = Inr (\<lparr>nodes = ns, scheduler_start = 0x100000, scheduler_front = 0x100000, scheduler_end = 0x100640,
        scheduler_free_list = 0, current_process = 0\<rparr>, \<lparr>current = [0, 0x100640]\<rparr>)"
  by (simp add: init_scheduler_def malloc_immortal_def immortal_initial_def ARENA_START_def PID_MAX_def scheduler_initial_def)

lemma boot_pool:
  "pool_inv \<lparr>sizeof_Process = 100, sizeof_SchedulerNode = 108\<rparr> \<lparr>nodes = ns, scheduler_start = 0x100000,
    scheduler_front = 0x100000, scheduler_end = 0x100640, scheduler_free_list = 0, current_process = 0\<rparr> 0 [] {}"
  by (rule init_scheduler_pool(1) [OF immortal_inv_initial _ boot_scheduler]) (simp_all add: abi_ok_def scheduler_initial_def)

lemma boot_sched_inv:
  "sched_inv \<lparr>sizeof_Process = 100, sizeof_SchedulerNode = 108\<rparr> \<lparr>nodes = ns, scheduler_start = 0x100000,
    scheduler_front = 0x100000, scheduler_end = 0x100640, scheduler_free_list = 0, current_process = 0\<rparr> []"
  using boot_pool [of ns] by (auto simp: sched_inv_def abi_ok_def ring_def)

section \<open>Properties\<close>

text \<open>
  C18: the scheduler is round robin and a new process waits for all the others: after
  \<open>schedule_process\<close>, switching \<open>n\<close> times makes the \<open>n\<close>-th process of the old order current,
  the new one last, and one more switch returns to the first.
\<close>

theorem round_robin_order:
  assumes "sched_inv lay s xs" "schedule_process lay s = Inr (p, s')" "n \<le> length xs"
  shows "scheduler_current_process (((\<lambda>s. snd (scheduler_next_process s)) ^^ n) s') = (xs @ [p]) ! n
    \<and> scheduler_current_process (((\<lambda>s. snd (scheduler_next_process s)) ^^ (length xs + 1)) s') = hd (xs @ [p])"
proof -
  have rel: "sched_inv lay s' (xs @ [p])" using sched_inv_add(1) [OF assms(1,2)] .
  from rr.switch_nth [OF rel, of n] assms(3) obtain ys where "sched_inv lay (rr.switches n s') ((xs @ [p]) ! n # ys)" by auto
  moreover have "sched_inv lay (rr.switches (length xs + 1) s') (hd (xs @ [p]) # tl (xs @ [p]))"
    using rr.round_returns [OF rel] by simp
  ultimately show ?thesis
    using current_is_head unfolding switches_funpow by blast
qed

theorem round_robin_order_witness:
  "\<forall>ns. \<exists>s'. schedule_process \<lparr>sizeof_Process = 100, sizeof_SchedulerNode = 108\<rparr> \<lparr>nodes = ns, scheduler_start = 0x100000,
      scheduler_front = 0x100000, scheduler_end = 0x100640, scheduler_free_list = 0, current_process = 0\<rparr> = Inr (0x100000, s')
    \<and> scheduler_current_process (snd (scheduler_next_process s')) = 0x100000" (is "\<forall>ns. ?P ns")
proof
  fix ns
  obtain s' where s': "schedule_process \<lparr>sizeof_Process = 100, sizeof_SchedulerNode = 108\<rparr> \<lparr>nodes = ns, scheduler_start = 0x100000,
      scheduler_front = 0x100000, scheduler_end = 0x100640, scheduler_free_list = 0, current_process = 0\<rparr> = Inr (0x100000, s')"
    by (simp add: schedule_process_def alloc_process_def Let_def)
  from round_robin_order [OF boot_sched_inv this, of 0] s' show "?P ns" by simp
qed

text \<open>The process ids of the scheduled processes are pairwise distinct and below \<open>PID_MAX\<close>.\<close>

theorem pids_distinct:
  assumes "sched_inv lay s xs"
  shows "distinct (map (\<lambda>p. process_pid (node_process (nodes s p))) xs)
    \<and> (\<forall>p \<in> set xs. process_pid (node_process (nodes s p)) < PID_MAX)"
proof -
  from assms obtain n free taken where i: "abi_ok lay" "ring s xs" "pool_inv lay s n free taken" "set xs \<subseteq> taken"
    and pid: "\<And>p. p \<in> set xs \<Longrightarrow> process_pid (node_process (nodes s p)) = (p - scheduler_start s) div sizeof_SchedulerNode lay"
    by (auto simp: sched_inv_def)
  have bound: "k * unat (sizeof_SchedulerNode lay) < 16 * unat (sizeof_Process lay)" if "k < n" for k
  proof -
    have "Suc k * unat (sizeof_SchedulerNode lay) \<le> n * unat (sizeof_SchedulerNode lay)" using that by (intro mult_le_mono1) simp
    moreover have "n * unat (sizeof_SchedulerNode lay) < 16 * unat (sizeof_Process lay) + unat (sizeof_SchedulerNode lay)"
      using i(3) by (simp add: pool_inv_def)
    ultimately show ?thesis by simp
  qed
  have idx: "\<exists>k < n. p = node_at lay s k \<and> unat (process_pid (node_process (nodes s p))) = k" if "p \<in> set xs" for p
  proof -
    from that i(3,4) obtain k where k: "k < n" "p = node_at lay s k" by (auto simp: pool_inv_def)
    have "unat (node_at lay s k) = unat (scheduler_start s) + k * unat (sizeof_SchedulerNode lay)"
      using pool_arith(1) [OF i(1), of s k] bound [OF k(1)] i(3) by (simp add: pool_inv_def)
    then have "unat (p - scheduler_start s) = k * unat (sizeof_SchedulerNode lay)"
      using k(2) by (simp add: unat_sub_if')
    with pid [OF that] k i(1) show ?thesis by (auto simp: unat_div abi_ok_def)
  qed
  have "k < 16" if "k < n" for k
  proof (rule ccontr)
    assume "\<not> k < 16"
    then have "16 * unat (sizeof_SchedulerNode lay) \<le> k * unat (sizeof_SchedulerNode lay)" by (intro mult_le_mono1) simp
    with bound [OF that] i(1) show False by (simp add: abi_ok_def)
  qed
  with idx have "\<forall>p \<in> set xs. process_pid (node_process (nodes s p)) < PID_MAX"
    by (fastforce simp: PID_MAX_def word_less_nat_alt)
  moreover have "inj_on (\<lambda>p. process_pid (node_process (nodes s p))) (set xs)"
    using idx by (intro inj_onI) metis
  ultimately show ?thesis using i(2) by (simp add: distinct_map ring_def)
qed

theorem pids_distinct_witness:
  "\<forall>ns. \<exists>s'. schedule_process \<lparr>sizeof_Process = 100, sizeof_SchedulerNode = 108\<rparr> \<lparr>nodes = ns, scheduler_start = 0x100000,
      scheduler_front = 0x100000, scheduler_end = 0x100640, scheduler_free_list = 0, current_process = 0\<rparr> = Inr (0x100000, s')
    \<and> process_pid (node_process (nodes s' 0x100000)) < PID_MAX" (is "\<forall>ns. ?P ns")
proof
  fix ns
  obtain s' where s': "schedule_process \<lparr>sizeof_Process = 100, sizeof_SchedulerNode = 108\<rparr> \<lparr>nodes = ns, scheduler_start = 0x100000,
      scheduler_front = 0x100000, scheduler_end = 0x100640, scheduler_free_list = 0, current_process = 0\<rparr> = Inr (0x100000, s')"
    by (simp add: schedule_process_def alloc_process_def Let_def)
  from pids_distinct [OF sched_inv_add(1) [OF boot_sched_inv this]] s' show "?P ns" by simp
qed

text \<open>
  The block \<open>init_scheduler\<close> asks for is counted in processes but used in nodes: unless
  the node size divides it, the pool hands out a last node that ends past the block, in
  memory the immortal allocator gives to somebody else.
\<close>

theorem scheduler_pool_overrun:
  assumes "abi_ok lay" "immortal_inv im" "init_scheduler lay (scheduler_initial ns, im) = Inr (s0, im')"
    and "\<not> unat (sizeof_SchedulerNode lay) dvd 16 * unat (sizeof_Process lay)"
  shows "\<exists>k s p s'. alloc_times lay k s0 = Inr s \<and> alloc_process lay s = Inr (p, s')
    \<and> unat p < unat (scheduler_end s0) \<and> unat (scheduler_end s0) < unat p + unat (sizeof_SchedulerNode lay)"
proof -
  let ?P = "unat (sizeof_Process lay)" and ?N = "unat (sizeof_SchedulerNode lay)"
  let ?k = "16 * ?P div ?N"
  have pool: "pool_inv lay s0 0 [] {}" using init_scheduler_pool(1) [OF assms(2,1,3)] by (simp add: scheduler_initial_def)
  have "?k * ?N + 16 * ?P mod ?N = 16 * ?P" by simp
  moreover have "0 < 16 * ?P mod ?N" using assms(4) by (simp add: dvd_eq_mod_eq_0)
  moreover have "16 * ?P mod ?N < ?N" using assms(1) by (simp add: abi_ok_def)
  ultimately have k: "?k * ?N < 16 * ?P" "16 * ?P < ?k * ?N + ?N" by linarith+
  then have k': "?k * ?N < 16 * ?P + ?N" by simp
  let ?s = "s0\<lparr>scheduler_front := node_at lay s0 ?k\<rparr>"
  have run: "alloc_times lay ?k s0 = Inr ?s" and pool': "pool_inv lay ?s ?k [] (node_at lay s0 ` {..<?k})"
    using alloc_times_front [OF assms(1) pool k'] by auto
  note al = alloc_process_at_front [OF assms(1) pool' k(1)]
  have "unat (node_at lay ?s ?k) = unat (scheduler_start s0) + ?k * ?N" "unat (scheduler_end s0) = unat (scheduler_start s0) + 16 * ?P"
    using pool_arith [OF assms(1), of ?s ?k] pool' k' by (simp_all add: pool_inv_def)
  with k run al show ?thesis by (intro exI [of _ ?k] exI) (auto intro!: exI)
qed

theorem scheduler_pool_overrun_witness:
  "\<forall>ns. \<exists>k s p s'. alloc_times \<lparr>sizeof_Process = 100, sizeof_SchedulerNode = 108\<rparr> k \<lparr>nodes = ns, scheduler_start = 0x100000,
      scheduler_front = 0x100000, scheduler_end = 0x100640, scheduler_free_list = 0, current_process = 0\<rparr> = Inr s
    \<and> alloc_process \<lparr>sizeof_Process = 100, sizeof_SchedulerNode = 108\<rparr> s = Inr (p, s')
    \<and> unat p < 0x100640 \<and> 0x100640 < unat p + 108"
  using scheduler_pool_overrun [OF _ immortal_inv_initial boot_scheduler] by (auto simp add: abi_ok_def)

end
