(* ===== verification/Process.thy ===== *)
theory Process
  imports Prelude Memmgnt Interrupts Paging Scheduler
begin

text \<open>
  \<^verbatim>\<open>src/processes/process.c\<close>, \<^verbatim>\<open>src/syscalls.c\<close> and the page-fault handler of
  \<^verbatim>\<open>src/paging.c\<close>: the operations that tie the scheduler, the paging code and the frame
  allocator together, over one kernel state, and the step relation of the running system.
  Its invariant says that the address spaces of the scheduled processes own disjoint sets of
  allocated frames and counts the frames nobody owns; every step keeps it. Calls of \<open>printf\<close> are recorded; \<open>collect_cr\<close>,
  \<open>set_cr3\<close>, \<open>enable_paging\<close> and \<open>disable_paging\<close> (assembly) read and write the control
  registers; \<open>restore_context\<close> leaves the kernel, so its argument is the result.
\<close>

section \<open>State\<close>

record kernel =
  memory_of :: memory
  frames_of :: frames
  paging_of :: kernel_paging
  sched_of :: scheduler
  reg_cr3 :: u32
  paging_on :: bool
  param :: u32
  printed :: "(string \<times> u32 list) list"

definition store_of :: "kernel \<Rightarrow> memory \<times> frames" where
  "store_of k = (memory_of k, frames_of k)"

definition set_store :: "memory \<times> frames \<Rightarrow> kernel \<Rightarrow> kernel" where
  "set_store s k = k\<lparr>memory_of := fst s, frames_of := snd s\<rparr>"

definition process_of :: "kernel \<Rightarrow> u32 \<Rightarrow> Process" where
  "process_of k p = node_process (nodes (sched_of k) p)"

definition assign_process :: "u32 \<Rightarrow> (Process \<Rightarrow> Process) \<Rightarrow> kernel \<Rightarrow> kernel" where
  "assign_process p g k = k\<lparr>sched_of := update_process p g (sched_of k)\<rparr>"

definition kprintf :: "string \<Rightarrow> u32 list \<Rightarrow> kernel \<Rightarrow> kernel" where
  "kprintf fmt args k = k\<lparr>printed := printed k @ [(fmt, args)]\<rparr>"

section \<open>Operations\<close>

definition enqueue_process :: "abi \<Rightarrow> u32 \<Rightarrow> u32 \<Rightarrow> u32 \<Rightarrow> kernel \<Rightarrow> kernel result" where
  "enqueue_process lay func argc argv k =
     (case schedule_process lay (sched_of k) of
        Inl e \<Rightarrow> Inl e
      | Inr (process, s) \<Rightarrow>
          (let k = k\<lparr>sched_of := s\<rparr>;
               k = assign_process process (\<lambda>p. p\<lparr>process_executable := func\<rparr>) k;
               k = assign_process process (\<lambda>p. p\<lparr>process_argc := argc\<rparr>) k;
               k = assign_process process (\<lambda>p. p\<lparr>process_argv := argv\<rparr>) k
           in Inr (assign_process process (\<lambda>p. p\<lparr>process_pdt := 0\<rparr>) k)))"

definition initial_context :: "u32 \<Rightarrow> IntraContext" where
  "initial_context executable = \<lparr>
     context_of = \<lparr>edi = 0, esi = 0, ebp = 0, esp = 0, ebx = 0, edx = 0, ecx = 0, eax = 0,
       gs = segment_code APP_DATA_SEGMENT, fs = segment_code APP_DATA_SEGMENT,
       es = segment_code APP_DATA_SEGMENT, ds = segment_code APP_DATA_SEGMENT,
       vector = 0, error_code = 0, eip = executable, cs = segment_code APP_CODE_SEGMENT, eflags = 0x202\<rparr>,
     user_esp = 0x800000,
     user_ss = segment_code APP_DATA_SEGMENT\<rparr>"

definition switch_process :: "kernel \<Rightarrow> (IntraContext \<times> kernel) result" where
  "switch_process k =
     (let (process, s) = scheduler_next_process (sched_of k);
          k = k\<lparr>sched_of := s\<rparr> in
      case (if process_pdt (process_of k process) = 0
            then (case create_VAS (paging_of k) (store_of k) of
                    Inl e \<Rightarrow> Inl e
                  | Inr (pdt, st) \<Rightarrow>
                      (let k = set_store st k;
                           k = assign_process process (\<lambda>p. p\<lparr>process_pdt := pdt\<rparr>) k;
                           k = assign_process process (\<lambda>p. p\<lparr>lowest_stack_page := 0x7ff000\<rparr>) k
                       in Inr (assign_process process
                            (\<lambda>p. p\<lparr>process_ctx := initial_context (process_executable p)\<rparr>) k)))
            else Inr k) of
        Inl e \<Rightarrow> Inl e
      | Inr k \<Rightarrow> Inr (process_ctx (process_of k process),
            k\<lparr>reg_cr3 := process_pdt (process_of k process), paging_on := True\<rparr>))"

text \<open>The end of a process, shared by the exit system call and the page-fault handler.\<close>

definition discard_process :: "u32 \<Rightarrow> kernel \<Rightarrow> kernel" where
  "discard_process process k =
     (let k = set_store (free_VAS (process_pdt (process_of k process)) (store_of k)) k;
          k = assign_process process (\<lambda>p. p\<lparr>process_pdt := 0\<rparr>) k
      in k\<lparr>param := param k + 1\<rparr>)"

definition exit :: "Context \<Rightarrow> kernel \<Rightarrow> (IntraContext \<times> kernel) result" where
  "exit ctx k =
     (let k = k\<lparr>paging_on := False\<rparr>;
          process = scheduler_current_process (sched_of k);
          k = discard_process process k;
          k = kprintf ''%p\<newline>'' [lowest_stack_page (process_of k process)] k
      in switch_process k)"

text \<open>\<open>exit_handler\<close> is the address of \<open>exit\<close>.\<close>

definition register_syscalls :: "u32 \<Rightarrow> interrupts \<Rightarrow> interrupts" where
  "register_syscalls exit_handler st = set_interrupt_handler 0x31 INTERRUPT_GATE USER_PL exit_handler st"

definition USER_FLAG :: u32 where
  "USER_FLAG = 0x4"

text \<open>
  The loop that grows the stack, with \<open>i\<close> and \<open>process->lowest_stack_page\<close> as its variables;
  it is a partial function because below \<open>0x1000\<close> its index would wrap around and never end.
\<close>

partial_function (option) grow_stack ::
  "u32 \<Rightarrow> u32 \<Rightarrow> u32 \<Rightarrow> u32 \<Rightarrow> memory \<times> frames \<Rightarrow> ((u32 \<times> memory \<times> frames) result) option" where
  "grow_stack pdt fault_address i lowest s =
     (if fault_address < i
      then (let i = i - 0x1000 in
            case (if \<not> is_mounted (fst s) pdt i
                  then (case malloc_page s of
                          Inl e \<Rightarrow> Inl e
                        | Inr (p, s) \<Rightarrow> mount_page pdt (i AND NOT 0xFFF) p True True s)
                  else Inr s) of
              Inl e \<Rightarrow> Some (Inl e)
            | Inr s \<Rightarrow> grow_stack pdt fault_address i i s)
      else Some (Inr (lowest, s)))"

text \<open>Either the handler returns to the faulting instruction or it enters another process.\<close>

datatype fault_outcome = Returned kernel | Switched IntraContext kernel

definition kill_process :: "string \<Rightarrow> u32 \<Rightarrow> kernel \<Rightarrow> (fault_outcome result) option" where
  "kill_process message process k =
     Some (case switch_process (discard_process process (kprintf message [] k)) of
             Inl e \<Rightarrow> Inl e | Inr (ctx, k) \<Rightarrow> Inr (Switched ctx k))"

definition pagefault_handler :: "Context \<Rightarrow> CRContext \<Rightarrow> kernel \<Rightarrow> (fault_outcome result) option" where
  "pagefault_handler ctx crctx k =
     (if error_code ctx AND USER_FLAG = 0
      then Some (Inl (Panic (PANIC_MESSAGE @ ''\<newline>'' @ ERROR_CODE_MESSAGE @ CR_MESSAGE)))
      else
        (let k = k\<lparr>paging_on := False\<rparr>;
             process = scheduler_current_process (sched_of k) in
         if cr2 crctx < 0x7000 then kill_process ''NPE\<newline>'' process k
         else if 0x80000 \<le> cr2 crctx \<and> cr2 crctx < 0x400000 then kill_process ''SOE\<newline>'' process k
         else if 0x400000 \<le> cr2 crctx \<and> cr2 crctx < 0x800000 then
           (case grow_stack (process_pdt (process_of k process)) (cr2 crctx) (lowest_stack_page (process_of k process))
                   (lowest_stack_page (process_of k process)) (store_of k) of
              None \<Rightarrow> None
            | Some (Inl e) \<Rightarrow> Some (Inl e)
            | Some (Inr (lowest, st)) \<Rightarrow>
                Some (Inr (Returned ((assign_process process (\<lambda>p. p\<lparr>lowest_stack_page := lowest\<rparr>) (set_store st k))
                  \<lparr>paging_on := True\<rparr>))))
         else kill_process ''UB!\<newline>'' process k))"

section \<open>Lemmas: growing the stack\<close>

lemma aligned_mask:
  assumes "4096 dvd unat (i :: u32)"
  shows "i AND NOT 0xFFF = i"
  unfolding mask_numerals
proof (rule bit_word_eqI)
  fix n
  assume "n < LENGTH(32)"
  then show "bit (i AND NOT (mask 12)) n = bit i n"
    using aligned_low_bits [OF assms, of n] by (cases "n < 12") (auto simp: bit_simps)
qed

lemma is_mounted_same_page:
  "drop_bit 12 va = drop_bit 12 vb \<Longrightarrow> is_mounted m pdt va = is_mounted m pdt vb"
  using same_page_indices [of va vb] by (simp add: is_mounted_def)

lemma page_div: "unat (drop_bit 12 (va :: u32)) = unat va div 4096"
  by (subst unat_drop_bit_eq) (simp add: drop_bit_eq_div)

lemma page_base:
  fixes va i :: u32
  assumes "4096 dvd unat i" "unat i \<le> unat va" "unat va < unat i + 4096"
  shows "drop_bit 12 va = drop_bit 12 i"
proof -
  from assms(1) obtain q where q: "unat i = 4096 * q" by (elim dvdE)
  have "unat va div 4096 = q" "unat i div 4096 = q"
    using assms(2,3) q by (auto intro: div_nat_eqI)
  then show ?thesis by (simp add: page_div word_unat_eq_iff)
qed

text \<open>
  \<open>grown kp L0 pdt low i s s'\<close>: in \<open>s'\<close> the pages from \<open>low\<close> up to \<open>i\<close> are mounted, the new
  ones with user rights; what was mounted before is as before, and nothing is mounted
  elsewhere.
\<close>

definition grown :: "kernel_paging \<Rightarrow> u32 set \<Rightarrow> u32 \<Rightarrow> u32 \<Rightarrow> u32 \<Rightarrow> memory \<times> frames \<Rightarrow> memory \<times> frames \<Rightarrow> bool" where
  "grown kp L0 pdt low i s s' \<longleftrightarrow> vas_inv kp L0 pdt s'
     \<and> same_outside (in_frames (vas_own (fst s') pdt)) (fst s) (fst s') \<and> vas_own (fst s) pdt \<subseteq> vas_own (fst s') pdt
     \<and> (\<forall>va. unat low \<le> unat va \<and> unat va < unat i \<longrightarrow> is_mounted (fst s') pdt va)
     \<and> (\<forall>va. is_mounted (fst s) pdt va \<longrightarrow> is_mounted (fst s') pdt va \<and> translate (fst s') pdt va = translate (fst s) pdt va
          \<and> access_rights (fst s') pdt va = access_rights (fst s) pdt va)
     \<and> (\<forall>va. \<not> is_mounted (fst s) pdt va \<and> is_mounted (fst s') pdt va \<longrightarrow>
          unat low \<le> unat va \<and> unat va < unat i \<and> access_rights (fst s') pdt va = (True, True))"

lemma grownD:
  assumes "grown kp L0 pdt low i s s'"
  shows "vas_inv kp L0 pdt s'" "same_outside (in_frames (vas_own (fst s') pdt)) (fst s) (fst s')"
    "vas_own (fst s) pdt \<subseteq> vas_own (fst s') pdt"
    "unat low \<le> unat va \<Longrightarrow> unat va < unat i \<Longrightarrow> is_mounted (fst s') pdt va"
    "is_mounted (fst s) pdt va \<Longrightarrow> is_mounted (fst s') pdt va"
    "is_mounted (fst s) pdt va \<Longrightarrow> translate (fst s') pdt va = translate (fst s) pdt va"
    "is_mounted (fst s) pdt va \<Longrightarrow> access_rights (fst s') pdt va = access_rights (fst s) pdt va"
    "\<not> is_mounted (fst s) pdt va \<Longrightarrow> is_mounted (fst s') pdt va \<Longrightarrow> unat low \<le> unat va"
    "\<not> is_mounted (fst s) pdt va \<Longrightarrow> is_mounted (fst s') pdt va \<Longrightarrow> unat va < unat i"
    "\<not> is_mounted (fst s) pdt va \<Longrightarrow> is_mounted (fst s') pdt va \<Longrightarrow> access_rights (fst s') pdt va = (True, True)"
  using assms unfolding grown_def by blast+

lemma grown_refl: "vas_inv kp L0 pdt s \<Longrightarrow> grown kp L0 pdt i i s s"
  unfolding grown_def by (intro conjI allI impI; (linarith | blast | simp))

lemma grown_mounted:
  assumes "vas_inv kp L0 pdt s" "4096 dvd unat j" "is_mounted (fst s) pdt j" "unat i = unat j + 4096"
  shows "grown kp L0 pdt j i s s"
proof -
  have "is_mounted (fst s) pdt va" if "unat j \<le> unat va" "unat va < unat i" for va
  proof -
    have "unat va < unat j + 4096" using that(2) assms(4) by simp
    with assms(3) show ?thesis
      using is_mounted_same_page [OF page_base [OF assms(2) that(1)]] by simp
  qed
  note all = this
  show ?thesis
    unfolding grown_def
  proof (intro conjI allI impI)
    show "vas_inv kp L0 pdt s" by (rule assms(1))
    show "is_mounted (fst s) pdt va" if "unat j \<le> unat va \<and> unat va < unat i" for va
      using that all by blast
    show "unat j \<le> unat va" "unat va < unat i" "access_rights (fst s) pdt va = (True, True)"
      if "\<not> is_mounted (fst s) pdt va \<and> is_mounted (fst s) pdt va" for va
      using that by blast+
  qed simp_all
qed

lemma in_frames_mono: "F \<subseteq> G \<Longrightarrow> in_frames F a \<Longrightarrow> in_frames G a"
  by (auto simp: in_frames_def)

lemma grown_trans:
  assumes "grown kp L0 pdt j i s s1" "grown kp L0 pdt low j s1 s2" "unat low \<le> unat j" "unat j \<le> unat i"
  shows "grown kp L0 pdt low i s s2"
  unfolding grown_def
proof (intro conjI allI impI)
  note d1 = grownD [OF assms(1)] and d2 = grownD [OF assms(2)]
  show "vas_inv kp L0 pdt s2" by (rule d2)
  show "same_outside (in_frames (vas_own (fst s2) pdt)) (fst s) (fst s2)"
    using same_outside_mono [OF d1(2) in_frames_mono [OF d2(3)]] d2(2) by (rule same_outside_trans)
  show "vas_own (fst s) pdt \<subseteq> vas_own (fst s2) pdt" using d1(3) d2(3) by (rule subset_trans)
  fix va
  show "is_mounted (fst s2) pdt va" if "unat low \<le> unat va \<and> unat va < unat i"
    using that d1(4) [of va] d2(4,5) [of va] by (cases "unat va < unat j") auto
  show "is_mounted (fst s2) pdt va" "translate (fst s2) pdt va = translate (fst s) pdt va"
    "access_rights (fst s2) pdt va = access_rights (fst s) pdt va" if "is_mounted (fst s) pdt va"
    using d1(5-7) [OF that] d2(5-7) [of va] by simp_all
  show "unat low \<le> unat va" "unat va < unat i" "access_rights (fst s2) pdt va = (True, True)"
    if "\<not> is_mounted (fst s) pdt va \<and> is_mounted (fst s2) pdt va"
    using that d1(8-10) [of va] d2(7-10) [of va] assms(3,4) by (cases "is_mounted (fst s1) pdt va"; simp)+
qed

lemma grow_one_page:
  assumes "vas_inv kp L0 pdt s" "4096 dvd unat i" "0x400000 \<le> unat i" "unat i + 4096 < 2 ^ 32"
    and "\<not> is_mounted (fst s) pdt i" "malloc_page s = Inr (p, s1)" "mount_page pdt (i AND NOT 0xFFF) p True True s1 = Inr s'"
  shows "grown kp L0 pdt i (i + 0x1000) s s'"
proof -
  have i: "i AND NOT 0xFFF = i" "unat (i + 0x1000) = unat i + 4096"
    using aligned_mask [OF assms(2)] assms(4) by (auto simp: unat_word_ariths)
  have d: "0x400000 \<le> i" "drop_bit 22 i \<noteq> 0" using assms(3) by (simp_all add: low_index word_le_nat_alt word_less_nat_alt)
  obtain m' f' where s': "s' = (m', f')" by (cases s')
  have mnt: "mount_page pdt i p True True s1 = Inr (m', f')" using assms(7) i s' by simp
  note t = mount_page_translate [OF assms(1,6) d(1) assms(5) mnt]
  note fr = vas_inv_grow_frame [OF assms(1,6) d(2) assms(5) mnt, unfolded fst_conv]
  have page: "drop_bit 12 va = drop_bit 12 i \<longleftrightarrow> unat i \<le> unat va \<and> unat va < unat i + 4096" for va
  proof
    assume "drop_bit 12 va = drop_bit 12 i"
    then have "unat va div 4096 = unat i div 4096" by (simp only: page_div [symmetric])
    moreover have "unat i div 4096 * 4096 = unat i" using assms(2) by simp
    moreover have "unat va div 4096 * 4096 \<le> unat va" by (rule div_times_less_eq_dividend)
    moreover have "unat va < 4096 + unat va div 4096 * 4096" by (rule dividend_less_div_times) simp
    ultimately show "unat i \<le> unat va \<and> unat va < unat i + 4096" by linarith
  qed (use page_base [OF assms(2), of va] in auto)
  have none: "\<not> is_mounted (fst s) pdt va" if "drop_bit 12 va = drop_bit 12 i" for va
    using is_mounted_same_page [OF that] assms(5) by simp
  have old: "is_mounted m' pdt va \<longleftrightarrow> drop_bit 12 va = drop_bit 12 i \<or> is_mounted (fst s) pdt va" for va
    using t [of va] by (auto simp: is_mounted_translate)
  show ?thesis
    unfolding grown_def i(2) s' fst_conv
  proof (intro conjI allI impI)
    show "vas_inv kp L0 pdt (m', f')" using t by blast
    fix va
    show "is_mounted m' pdt va" if "unat i \<le> unat va \<and> unat va < unat i + 4096"
      using that old page by blast
    show "is_mounted m' pdt va" "translate m' pdt va = translate (fst s) pdt va"
      "access_rights m' pdt va = access_rights (fst s) pdt va" if v: "is_mounted (fst s) pdt va"
      using v none [of va] old [of va] t [of va] by auto
    show "unat i \<le> unat va" "unat va < unat i + 4096" "access_rights m' pdt va = (True, True)"
      if "\<not> is_mounted (fst s) pdt va \<and> is_mounted m' pdt va"
      using that old [of va] page [of va] t [of va] by auto
  qed (use fr in auto)
qed

text \<open>
  The loop ends, and grows the stack down to the page of the fault; \<open>low\<close> is that page.
\<close>

lemma grow_stack_correct:
  assumes "vas_inv kp L0 pdt s" "4096 dvd unat i" "unat i \<le> 0x800000" "0x400000 \<le> unat fault_address"
  shows "\<exists>r. grow_stack pdt fault_address i i s = Some r \<and> (\<forall>low s'. r = Inr (low, s') \<longrightarrow>
    grown kp L0 pdt low i s s' \<and> 4096 dvd unat low \<and> unat low \<le> unat i
    \<and> (if fault_address < i then unat low \<le> unat fault_address \<and> unat fault_address < unat low + 4096 else low = i))"
  using assms
proof (induction "unat i" arbitrary: i s rule: less_induct)
  case less
  show ?case
  proof (cases "fault_address < i")
    case False
    then show ?thesis
      using grown_refl [OF less.prems(1)] less.prems(2) by (cases s) (simp add: grow_stack.simps [of pdt _ i])
  next
    case True
    let ?j = "i - 0x1000"
    let ?body = "if \<not> is_mounted (fst s) pdt ?j then (case malloc_page s of Inl e \<Rightarrow> Inl e
        | Inr (p, s) \<Rightarrow> mount_page pdt (?j AND NOT 0xFFF) p True True s) else Inr s"
    have j: "unat ?j = unat i - 4096" "0x400000 < unat i" "4096 dvd unat ?j"
      using True less.prems(2,4) by (auto simp: word_less_nat_alt unat_sub_if')
    from less.prems(2) obtain q where q: "unat i = 4096 * q" by (elim dvdE)
    then have j4: "0x400000 \<le> unat ?j" "?j + 0x1000 = i" using j by simp_all
    show ?thesis
    proof (cases ?body)
      case (Inl e)
      with True show ?thesis by (simp add: grow_stack.simps [of pdt _ i] Let_def)
    next
      case (Inr s1)
      have step: "grown kp L0 pdt ?j i s s1"
      proof (cases "is_mounted (fst s) pdt ?j")
        case mounted: True
        then have "s1 = s" using Inr by simp
        with mounted grown_mounted [OF less.prems(1) j(3) mounted] j q show ?thesis by simp
      next
        case False
        then obtain p s2 where "malloc_page s = Inr (p, s2)" "mount_page pdt (?j AND NOT 0xFFF) p True True s2 = Inr s1"
          using Inr by (auto split: sum.splits)
        from grow_one_page [OF less.prems(1) j(3) j4(1) _ False this] j4(2) less.prems(3) j show ?thesis by simp
      qed
      have "unat ?j < unat i" using j by simp
      from less.hyps [OF this grownD(1) [OF step] j(3) _ less.prems(4)] less.prems(3) j obtain r where
        r: "grow_stack pdt fault_address ?j ?j s1 = Some r" and ok: "\<forall>low s'. r = Inr (low, s') \<longrightarrow>
          grown kp L0 pdt low ?j s1 s' \<and> 4096 dvd unat low \<and> unat low \<le> unat ?j
          \<and> (if fault_address < ?j then unat low \<le> unat fault_address \<and> unat fault_address < unat low + 4096 else low = ?j)"
        by fastforce
      have "grow_stack pdt fault_address i i s = Some r"
        using True Inr r by (simp add: grow_stack.simps [of pdt _ i] Let_def)
      moreover have "grown kp L0 pdt low i s s'" if "r = Inr (low, s')" for low s'
        using ok [rule_format, OF that] j by (intro grown_trans [OF step]) auto
      moreover have "4096 dvd unat low \<and> unat low \<le> unat i
          \<and> unat low \<le> unat fault_address \<and> unat fault_address < unat low + 4096" if "r = Inr (low, s')" for low s'
        using ok [rule_format, OF that] j True by (cases "fault_address < ?j") (auto simp: word_less_nat_alt not_less)
      ultimately show ?thesis using True by simp
    qed
  qed
qed

text \<open>The loop fails only for want of frames: each page takes two at most, itself and a table.\<close>

lemma grow_stack_available:
  assumes "vas_inv kp L0 pdt s" "4096 dvd unat i" "unat i \<le> 0x800000" "0x400000 \<le> unat fault_address"
    and "card (L0 \<union> vas_own (fst s) pdt) + 2 * ((unat i - 0x400000) div 4096) \<le> 261119"
  shows "\<exists>low s'. grow_stack pdt fault_address i i s = Some (Inr (low, s'))"
  using assms
proof (induction "unat i" arbitrary: i s rule: less_induct)
  case less
  show ?case
  proof (cases "fault_address < i")
    case False
    then show ?thesis by (simp add: grow_stack.simps [of pdt _ i])
  next
    case True
    let ?j = "i - 0x1000" and ?L = "L0 \<union> vas_own (fst s) pdt"
    have j: "unat ?j = unat i - 4096" "0x400000 < unat i" "4096 dvd unat ?j"
      using True less.prems(2,4) by (auto simp: word_less_nat_alt unat_sub_if')
    from less.prems(2) obtain q where q: "unat i = 4096 * q" by (elim dvdE)
    then have j4: "0x400000 \<le> unat ?j" "?j + 0x1000 = i" "unat ?j < unat i" using j by simp_all
    have steps: "(unat i - 0x400000) div 4096 = Suc ((unat ?j - 0x400000) div 4096)" using j q by simp
    show ?thesis
    proof (cases "is_mounted (fst s) pdt ?j")
      case mounted: True
      from less.hyps [OF j4(3) less.prems(1) j(3) _ less.prems(4)] less.prems(3,5) j4 steps
      show ?thesis using True mounted by (simp add: grow_stack.simps [of pdt _ i] Let_def)
    next
      case False
      have room: "frames_rel s ?L" "card ?L + 2 \<le> 261119" using less.prems(1,5) steps by (simp_all add: vas_inv_def)
      from malloc_page_available [OF room(1)] room(2) obtain p m f where
        p: "malloc_page s = Inr (p, m, f)" "frames_rel (m, f) (insert p ?L)" "p \<notin> ?L" by auto
      have "card (insert p ?L) < 261119" using p(3) room(2) by simp
      from mount_page_available [OF p(2) this] obtain s1 where
        m: "mount_page pdt (?j AND NOT 0xFFF) p True True (m, f) = Inr s1" by blast
      have g: "grown kp L0 pdt ?j i s s1"
        using grow_one_page [OF less.prems(1) j(3) j4(1) _ False p(1) m] j4(2) less.prems(3) j by simp
      have d: "drop_bit 22 ?j \<noteq> 0" "\<not> is_mounted (fst s) pdt ?j" "mount_page pdt ?j p True True (m, f) = Inr s1"
        using j4(1) False m aligned_mask [OF j(3)] by (simp_all add: low_index word_less_nat_alt)
      from vas_inv_grow_frame(3) [OF less.prems(1) p(1) d] obtain X where
        X: "card X \<le> 2" "vas_own (fst s1) pdt = vas_own (fst s) pdt \<union> X" by blast
      have "card (?L \<union> X) \<le> card ?L + 2" using card_Un_le [of ?L X] X(1) by linarith
      moreover have "L0 \<union> vas_own (fst s1) pdt = ?L \<union> X" using X(2) by auto
      ultimately have "card (L0 \<union> vas_own (fst s1) pdt) + 2 * ((unat ?j - 0x400000) div 4096) \<le> 261119"
        using less.prems(5) steps by simp
      from less.hyps [OF j4(3) grownD(1) [OF g] j(3) _ less.prems(4) this] less.prems(3) j4(3) obtain low s' where
        "grow_stack pdt fault_address ?j ?j s1 = Some (Inr (low, s'))" by auto
      then show ?thesis using True False p(1) m by (simp add: grow_stack.simps [of pdt _ i] Let_def)
    qed
  qed
qed

section \<open>The invariant of the running kernel\<close>

definition owned :: "kernel \<Rightarrow> u32 \<Rightarrow> u32 set" where
  "owned k p = (if process_pdt (process_of k p) = 0 then {} else vas_own (memory_of k) (process_pdt (process_of k p)))"

definition lowest_ok :: "u32 \<Rightarrow> bool" where
  "lowest_ok low \<longleftrightarrow> 4096 dvd unat low \<and> 0x400000 \<le> unat low \<and> unat low \<le> 0x7ff000"

definition process_ok :: "kernel \<Rightarrow> u32 set \<Rightarrow> u32 \<Rightarrow> bool" where
  "process_ok k L p \<longleftrightarrow> (process_pdt (process_of k p) \<noteq> 0 \<longrightarrow>
     vas_ok (paging_of k) (memory_of k) (process_pdt (process_of k p)) \<and> owned k p \<subseteq> L
     \<and> lowest_ok (lowest_stack_page (process_of k p)))"

text \<open>
  The frames that are taken but belong to no address space: the kernel's page table, and the page
  directories of the processes that have ended, which \<open>free_VAS\<close> does not free.
\<close>

definition stray :: "kernel \<Rightarrow> u32 list \<Rightarrow> u32 set \<Rightarrow> u32 set" where
  "stray k xs L = L - (\<Union>p \<in> set xs. owned k p)"

definition kernel_inv :: "abi \<Rightarrow> kernel \<Rightarrow> u32 list \<Rightarrow> u32 set \<Rightarrow> bool" where
  "kernel_inv lay k xs L \<longleftrightarrow> sched_inv lay (sched_of k) xs \<and> frames_rel (store_of k) L
     \<and> kernel_pt (paging_of k) \<in> L \<and> kernel_paging_ok (paging_of k) (memory_of k)
     \<and> (\<forall>p \<in> set xs. process_ok k L p)
     \<and> (\<forall>p \<in> set xs. \<forall>q \<in> set xs. p \<noteq> q \<longrightarrow> owned k p \<inter> owned k q = {})
     \<and> (paging_on k \<longrightarrow> xs \<noteq> [] \<and> process_pdt (process_of k (hd xs)) \<noteq> 0
          \<and> reg_cr3 k = process_pdt (process_of k (hd xs)))
     \<and> card (stray k xs L) = Suc (unat (param k))"

lemma store_fields [simp]: "fst (store_of k) = memory_of k" "snd (store_of k) = frames_of k"
  by (simp_all add: store_of_def)

lemma set_store_fields [simp]: "memory_of (set_store s k) = fst s" "frames_of (set_store s k) = snd s"
  "store_of (set_store s k) = s" "paging_of (set_store s k) = paging_of k" "sched_of (set_store s k) = sched_of k"
  "paging_on (set_store s k) = paging_on k" "reg_cr3 (set_store s k) = reg_cr3 k" "param (set_store s k) = param k"
  by (simp_all add: set_store_def store_of_def)

lemma assign_process_fields [simp]:
  "memory_of (assign_process p g k) = memory_of k" "frames_of (assign_process p g k) = frames_of k"
  "store_of (assign_process p g k) = store_of k" "paging_of (assign_process p g k) = paging_of k"
  "paging_on (assign_process p g k) = paging_on k" "reg_cr3 (assign_process p g k) = reg_cr3 k" "param (assign_process p g k) = param k"
  "sched_of (assign_process p g k) = update_process p g (sched_of k)"
  by (simp_all add: assign_process_def store_of_def)

lemma process_of_assign [simp]:
  "process_of (assign_process p g k) q = (if q = p then g (process_of k p) else process_of k q)"
  by (simp add: process_of_def update_process_def)

text \<open>Writing a process's fields other than its id leaves the scheduler's invariant alone.\<close>

lemma sched_inv_update:
  assumes "sched_inv lay s xs" "p \<in> set xs" "\<And>pr. process_pid (g pr) = process_pid pr"
  shows "sched_inv lay (update_process p g s) xs"
proof -
  let ?s = "update_process p g s"
  have links: "node_next (nodes ?s r) = node_next (nodes s r)" "node_prev (nodes ?s r) = node_prev (nodes s r)"
    "current_process ?s = current_process s" "process_pid (node_process (nodes ?s r)) = process_pid (node_process (nodes s r))" for r
    using assms(3) by (simp_all add: update_process_def)
  from assms(1) obtain n free taken where i: "pool_inv lay s n free taken" "set xs \<subseteq> taken" by (auto simp: sched_inv_def)
  then have "p \<notin> set free" using assms(2) by (auto simp: pool_inv_def)
  then have "pool_inv lay ?s n free taken"
    by (intro pool_inv_links [OF i(1)]) (auto simp: update_process_def)
  moreover have "ring ?s xs" using assms(1) by (simp add: sched_inv_def ring_def links)
  moreover have "scheduler_start ?s = scheduler_start s" by (simp add: update_process_def)
  ultimately show ?thesis using assms(1) i(2) by (auto simp: sched_inv_def links)
qed

text \<open>Writes to low memory and to frames of \<open>F\<close> leave the other address spaces alone.\<close>

definition writes_in :: "u32 set \<Rightarrow> memory \<Rightarrow> memory \<Rightarrow> bool" where
  "writes_in F m m' \<longleftrightarrow> same_outside (\<lambda>a. in_frames F a \<or> unat a < 0x400000) m m' \<and> (\<forall>p \<in> F. page_space p)"

lemma writes_in_frames: "same_outside (in_frames F) m m' \<Longrightarrow> (\<And>p. p \<in> F \<Longrightarrow> page_space p) \<Longrightarrow> writes_in F m m'"
  by (auto simp: writes_in_def elim: same_outside_mono)

text \<open>The kernel's own operations on address spaces write frames only.\<close>

definition low_kept :: "memory \<Rightarrow> memory \<Rightarrow> bool" where
  "low_kept m m' \<longleftrightarrow> same_outside (\<lambda>a. 0x400000 \<le> unat a) m m'"

lemma low_kept_refl [simp]: "low_kept m m"
  by (simp add: low_kept_def)

lemma low_kept_trans: "low_kept m m' \<Longrightarrow> low_kept m' m'' \<Longrightarrow> low_kept m m''"
  unfolding low_kept_def by (rule same_outside_trans)

lemma frames_low_kept:
  assumes "same_outside (in_frames F) m m'" "\<And>p. p \<in> F \<Longrightarrow> page_space p"
  shows "low_kept m m'"
proof -
  have "0x400000 \<le> unat a" if a: "in_frames F a" for a
  proof -
    from a obtain p where p: "p \<in> F" "in_region a p 4096" by (auto simp: in_frames_def)
    with assms(2) have "0x400000 \<le> unat p" "unat p < 0x3FFFF000" by (auto simp: page_space_def)
    moreover from p(2) obtain i where "i < 4096" "a = p + of_nat i" by (rule in_regionE)
    ultimately show ?thesis by (simp add: unat_word_ariths unat_of_nat take_bit_nat_eq_self)
  qed
  then show ?thesis using assms(1) unfolding low_kept_def by (auto elim: same_outside_mono)
qed

lemma writes_in_vas:
  assumes "writes_in F m m'" "vas_ok kp m pdt" "F \<inter> vas_own m pdt = {}" "\<And>q. q \<in> vas_own m pdt \<Longrightarrow> page_space q"
  shows "vas_ok kp m' pdt" "vas_own m' pdt = vas_own m pdt"
proof -
  have e: "entry m' q i = entry m q i" if "q \<in> insert pdt (vas_tables m pdt)" "unat i < 1024" for q i
  proof (rule entry_user_write)
    have "q \<in> vas_own m pdt" using that(1) by (auto simp: vas_own_split)
    then show "page_space q" "q \<notin> F" using assms(3,4) by auto
  qed (use assms(1) that(2) in \<open>auto simp: writes_in_def\<close>)
  have "vas_frames m' pdt = vas_frames m pdt" "vas_ok kp m' pdt = vas_ok kp m pdt"
    using e by (intro vas_cong; simp)+
  then show "vas_ok kp m' pdt" "vas_own m' pdt = vas_own m pdt" using assms(2) by (simp_all add: vas_own_def)
qed

lemma writes_in_kernel:
  assumes "writes_in F m m'" "kernel_paging_ok kp m" "kernel_pt kp \<notin> F" "page_space (kernel_pt kp)"
  shows "kernel_paging_ok kp m'"
proof -
  have "entry m' (kernel_pt kp) i = entry m (kernel_pt kp) i" if "unat i < 1024" for i
    by (rule entry_user_write) (use assms that in \<open>auto simp: writes_in_def\<close>)
  with assms(2) show ?thesis by (simp add: kernel_paging_ok_def)
qed

text \<open>
  The frame rule of the system: a step of process \<open>p\<close> that writes only its own frames and
  fresh ones, and leaves the other processes and their frames, keeps the invariant if \<open>p\<close>
  itself is in order afterwards.
\<close>

lemma kernel_inv_step:
  assumes inv: "kernel_inv lay k xs L" and p: "p \<in> set xs"
    and sched: "sched_inv lay (sched_of k') xs'" "set xs' = set xs"
    and same: "\<And>q. q \<in> set xs \<Longrightarrow> q \<noteq> p \<Longrightarrow> process_of k' q = process_of k q" "paging_of k' = paging_of k"
    and rel: "frames_rel (store_of k') L'" and lost: "L' - owned k' p = L - owned k p \<union> X" "X \<subseteq> owned k p"
      "unat (param k') = unat (param k) + card X"
    and w: "writes_in F (memory_of k) (memory_of k')" "F \<inter> (L - owned k p) = {}"
    and ok: "process_ok k' L' p" "owned k p \<inter> {kernel_pt (paging_of k)} = {}"
    and cr: "paging_on k' \<longrightarrow> xs' \<noteq> [] \<and> process_pdt (process_of k' (hd xs')) \<noteq> 0 \<and> reg_cr3 k' = process_pdt (process_of k' (hd xs'))"
  shows "kernel_inv lay k' xs' L'"
proof -
  have i: "frames_rel (store_of k) L" "kernel_pt (paging_of k) \<in> L" "kernel_paging_ok (paging_of k) (memory_of k)"
    "\<And>q. q \<in> set xs \<Longrightarrow> process_ok k L q"
    "\<And>q r. q \<in> set xs \<Longrightarrow> r \<in> set xs \<Longrightarrow> q \<noteq> r \<Longrightarrow> owned k q \<inter> owned k r = {}"
    and card: "card (stray k xs L) = Suc (unat (param k))"
    using inv by (auto simp: kernel_inv_def)
  have keep: "L - owned k p \<subseteq> L'" and apart: "owned k' p \<inter> (L - owned k p) = {}" using lost(1) by auto
  have ps: "page_space q" if "q \<in> L" for q using i(1) that by (rule pages.live_frames)
  have sub: "owned k q \<subseteq> L - owned k p" if "q \<in> set xs" "q \<noteq> p" for q
    using i(4) [OF that(1)] i(5) [OF that(1) p that(2)] by (auto simp: process_ok_def owned_def split: if_splits)
  have other: "process_ok k' L' q \<and> owned k' q = owned k q" if q: "q \<in> set xs" "q \<noteq> p" for q
  proof (cases "process_pdt (process_of k q) = 0")
    case True
    with same(1) [OF q] show ?thesis by (simp add: process_ok_def owned_def)
  next
    case False
    have o: "owned k q = vas_own (memory_of k) (process_pdt (process_of k q))" using False by (simp add: owned_def)
    have v: "vas_ok (paging_of k) (memory_of k) (process_pdt (process_of k q))" and l: "lowest_ok (lowest_stack_page (process_of k q))"
      using i(4) [OF q(1)] False by (simp_all add: process_ok_def)
    have "F \<inter> vas_own (memory_of k) (process_pdt (process_of k q)) = {}"
      "\<And>r. r \<in> vas_own (memory_of k) (process_pdt (process_of k q)) \<Longrightarrow> page_space r"
      using w(2) sub [OF q] ps unfolding o by auto
    note v' = writes_in_vas [OF w(1) v this]
    have "owned k' q = owned k q" using v'(2) o False same(1) [OF q] by (simp add: owned_def)
    moreover have "owned k q \<subseteq> L'" using sub [OF q] keep by auto
    ultimately show ?thesis using v'(1) l same(1) [OF q] same(2) by (simp add: process_ok_def)
  qed
  have kernel: "kernel_paging_ok (paging_of k') (memory_of k')" "kernel_pt (paging_of k') \<in> L'"
    using writes_in_kernel [OF w(1) i(3)] w(2) i(2) ok(2) same(2) ps keep by auto
  have disj: "owned k' q \<inter> owned k' r = {}" if "q \<in> set xs" "r \<in> set xs" "q \<noteq> r" for q r
  proof -
    have "owned k' q \<inter> owned k' p = {}" if "q \<in> set xs" "q \<noteq> p" for q using other [OF that] sub [OF that] apart by auto
    with that other [of q] other [of r] i(5) [OF that] show ?thesis by (cases "q = p"; cases "r = p") auto
  qed
  have "process_ok k' L' q" if "q \<in> set xs" for q using that other [of q] ok(1) by (cases "q = p") auto
  moreover have "stray k' xs' L' = stray k xs L \<union> X"
  proof -
    have all: "(\<Union>q \<in> set xs. g q) = g p \<union> (\<Union>q \<in> set xs - {p}. g q)" for g :: "u32 \<Rightarrow> u32 set" using p by auto
    have others: "(\<Union>q \<in> set xs - {p}. owned k' q) = (\<Union>q \<in> set xs - {p}. owned k q)" using other by auto
    have "X \<inter> (\<Union>q \<in> set xs - {p}. owned k q) = {}" using lost(2) i(5) [OF _ p] by blast
    then have "L' - owned k' p - (\<Union>q \<in> set xs - {p}. owned k q) = L - owned k p - (\<Union>q \<in> set xs - {p}. owned k q) \<union> X"
      unfolding lost(1) by auto
    then show ?thesis unfolding stray_def sched(2) all [of "owned k'"] all [of "owned k"] others by (simp add: Diff_Un Diff_eq Int_assoc)
  qed
  moreover have "stray k xs L \<inter> X = {}" using lost(2) p by (auto simp: stray_def)
  then have "card (stray k xs L \<union> X) = card (stray k xs L) + card X" by (intro card_Un_disjoint) simp_all
  ultimately show ?thesis
    unfolding kernel_inv_def using sched rel kernel disj cr card lost(3) by auto
qed

section \<open>The steps keep the invariant\<close>

lemma process_of_other [simp]:
  "process_of (set_store s k) = process_of k" "process_of (k\<lparr>paging_on := b\<rparr>) = process_of k"
  "process_of (k\<lparr>param := v\<rparr>) = process_of k" "process_of (k\<lparr>printed := w\<rparr>) = process_of k"
  "process_of (k\<lparr>reg_cr3 := c\<rparr>) = process_of k" "process_of (k\<lparr>memory_of := m\<rparr>) = process_of k"
  by (simp_all add: process_of_def fun_eq_iff)

lemma store_of_other [simp]:
  "store_of (k\<lparr>paging_on := b\<rparr>) = store_of k" "store_of (k\<lparr>param := v\<rparr>) = store_of k"
  "store_of (k\<lparr>printed := w\<rparr>) = store_of k" "store_of (k\<lparr>reg_cr3 := c\<rparr>) = store_of k"
  "store_of (k\<lparr>sched_of := s\<rparr>) = store_of k" "store_of (k\<lparr>memory_of := m\<rparr>) = (m, frames_of k)"
  by (simp_all add: store_of_def)

lemma owned_other [simp]:
  "owned (k\<lparr>paging_on := b\<rparr>) = owned k" "owned (k\<lparr>param := v\<rparr>) = owned k" "owned (k\<lparr>printed := w\<rparr>) = owned k"
  by (simp_all add: owned_def fun_eq_iff)

lemma stray_other [simp]:
  "stray (k\<lparr>paging_on := b\<rparr>) = stray k" "stray (k\<lparr>param := v\<rparr>) = stray k" "stray (k\<lparr>printed := w\<rparr>) = stray k"
  by (simp_all add: stray_def fun_eq_iff)

lemma kernel_inv_paging_off: "kernel_inv lay k xs L \<Longrightarrow> kernel_inv lay (k\<lparr>paging_on := False\<rparr>) xs L"
  by (simp add: kernel_inv_def process_ok_def)

lemma kernel_inv_printed [simp]: "kernel_inv lay (kprintf fmt args k) xs L = kernel_inv lay k xs L"
  by (simp add: kernel_inv_def process_ok_def kprintf_def)

lemma kernel_invD:
  assumes "kernel_inv lay k xs L"
  shows "sched_inv lay (sched_of k) xs" "frames_rel (store_of k) L" "kernel_pt (paging_of k) \<in> L"
    "kernel_paging_ok (paging_of k) (memory_of k)" "p \<in> set xs \<Longrightarrow> process_ok k L p"
  using assms by (auto simp: kernel_inv_def)

lemma kernel_pt_not_owned:
  assumes "kernel_inv lay k xs L" "p \<in> set xs"
  shows "owned k p \<inter> {kernel_pt (paging_of k)} = {}"
  using kernel_invD(5) [OF assms] by (auto simp: process_ok_def owned_def vas_ok_def)

text \<open>The address space of one process, with everything else as the rest.\<close>

lemma kernel_inv_vas:
  assumes "kernel_inv lay k xs L" "p \<in> set xs" "process_pdt (process_of k p) \<noteq> 0"
  shows "vas_inv (paging_of k) (L - owned k p) (process_pdt (process_of k p)) (store_of k)"
    "owned k p = vas_own (memory_of k) (process_pdt (process_of k p))" "owned k p \<subseteq> L"
proof -
  have o: "owned k p = vas_own (memory_of k) (process_pdt (process_of k p))" "owned k p \<subseteq> L"
    "vas_ok (paging_of k) (memory_of k) (process_pdt (process_of k p))"
    using kernel_invD(5) [OF assms(1,2)] assms(3) by (auto simp: process_ok_def owned_def)
  then have "L - owned k p \<union> owned k p = L" by auto
  with o kernel_invD(2-4) [OF assms(1)] kernel_pt_not_owned [OF assms(1,2)]
  show "vas_inv (paging_of k) (L - owned k p) (process_pdt (process_of k p)) (store_of k)"
    by (auto simp: vas_inv_def o(1) [symmetric])
  show "owned k p = vas_own (memory_of k) (process_pdt (process_of k p))" "owned k p \<subseteq> L" by (rule o)+
qed

text \<open>There are fewer stray frames than frames, so the count of ended processes never wraps.\<close>

lemma param_bound:
  assumes "kernel_inv lay k xs L"
  shows "unat (param k) < 261119"
proof -
  have "stray k xs L \<subseteq> {p. page_space p}"
    using pages.live_frames [OF kernel_invD(2) [OF assms]] by (auto simp: stray_def)
  then have "card (stray k xs L) \<le> card {p. page_space p}" by (intro card_mono) simp_all
  then show ?thesis using assms by (simp add: kernel_inv_def card_page_space)
qed

lemma param_counts:
  assumes "kernel_inv lay k xs L"
  shows "unat (param k + 1) = unat (param k) + 1"
  using param_bound [OF assms] by (simp add: unat_word_ariths)

lemma discard_process_inv:
  assumes "kernel_inv lay k xs L" "\<not> paging_on k" "p \<in> set xs" "process_pdt (process_of k p) \<noteq> 0"
  shows "(\<exists>L' \<subseteq> L. kernel_inv lay (discard_process p k) xs L') \<and> low_kept (memory_of k) (memory_of (discard_process p k))"
proof -
  let ?pdt = "process_pdt (process_of k p)"
  let ?ps = "vas_frames (memory_of k) ?pdt"
  note v = kernel_inv_vas [OF assms(1,3,4)]
  have own: "owned k p = set (?pdt # ?ps)" "distinct (?pdt # ?ps)" "4096 dvd unat ?pdt"
    using v(1,2) by (simp_all add: vas_inv_def vas_ok_def vas_own_def)
  have st: "store_of k = (memory_of k, frames_of k)" by (simp add: store_of_def)
  have rel: "frames_rel (free_VAS ?pdt (store_of k)) (L - set ?ps)"
    using kernel_invD(2) [OF assms(1)] own v(3) unfolding st by (intro free_VAS_rel) auto
  have "free_VAS ?pdt (store_of k) = fold free_page ?ps (store_of k)"
    unfolding st using own by (intro free_VAS_frees) auto
  then have out: "same_outside (in_frames (set ?ps)) (memory_of k) (fst (free_VAS ?pdt (store_of k)))"
    using pages.free_all_mem [of ?ps "store_of k"] by simp
  have ps: "page_space q" if "q \<in> L" for q using kernel_invD(2) [OF assms(1)] that by (rule pages.live_frames)
  let ?k = "(assign_process p (\<lambda>pr. pr\<lparr>process_pdt := 0\<rparr>) (set_store (free_VAS ?pdt (store_of k)) k))\<lparr>param := param k + 1\<rparr>"
  have "kernel_inv lay ?k xs (L - set ?ps)"
  proof (rule kernel_inv_step [OF assms(1,3), where F = "set ?ps"])
    show "sched_inv lay (sched_of ?k) xs"
      using sched_inv_update [OF kernel_invD(1) [OF assms(1)] assms(3)] by simp
    show "writes_in (set ?ps) (memory_of k) (memory_of ?k)"
      using writes_in_frames [OF out] own(1) v(3) ps by auto
    show "owned k p \<inter> {kernel_pt (paging_of k)} = {}" by (rule kernel_pt_not_owned [OF assms(1,3)])
    have none: "owned ?k p = {}" by (simp add: owned_def)
    show "process_ok ?k (L - set ?ps) p" by (simp add: process_ok_def)
    show "L - set ?ps - owned ?k p = L - owned k p \<union> {?pdt}" "{?pdt} \<subseteq> owned k p"
      unfolding none using own v(3) by auto
    show "unat (param ?k) = unat (param k) + card {?pdt}" using param_counts [OF assms(1)] by simp
  qed (use own rel assms(2) in auto)
  moreover have "low_kept (memory_of k) (fst (free_VAS ?pdt (store_of k)))"
    by (rule frames_low_kept [OF out]) (use own(1) v(3) ps in auto)
  ultimately show ?thesis
    by (auto simp: discard_process_def Let_def assign_process_def set_store_def intro!: exI [of _ "L - set ?ps"])
qed

lemma switch_process_new_inv:
  assumes "kernel_inv lay k (x # ys) L" "switch_process k = Inr (ctx, k')"
    and sw: "scheduler_next_process (sched_of k) = (p, s)" and new: "process_pdt (process_of k p) = 0"
  shows "\<exists>L'. kernel_inv lay k' (ys @ [x]) L' \<and> card L' \<le> card L + 3 \<and> paging_on k' \<and> low_kept (memory_of k) (memory_of k')"
proof -
  note sched = sched_inv_switch [OF kernel_invD(1) [OF assms(1)] sw]
  have p: "p \<in> set (x # ys)" "p = hd (ys @ [x])" using sched(2) by (cases ys; simp)+
  have proc: "process_of (k\<lparr>sched_of := s\<rparr>) = process_of k" by (simp add: process_of_def sched(3) fun_eq_iff)
  from assms(2) sw proc new obtain pdt st where c: "create_VAS (paging_of k) (store_of k) = Inr (pdt, st)"
    and k': "k' = (assign_process p (\<lambda>q. q\<lparr>process_ctx := initial_context (process_executable q)\<rparr>)
      (assign_process p (\<lambda>q. q\<lparr>lowest_stack_page := 0x7ff000\<rparr>) (assign_process p (\<lambda>q. q\<lparr>process_pdt := pdt\<rparr>)
        (set_store st (k\<lparr>sched_of := s\<rparr>)))))\<lparr>reg_cr3 := pdt, paging_on := True\<rparr>"
    by (auto simp: switch_process_def Let_def split: sum.splits)
  obtain m' f' where st: "st = (m', f')" by (cases st)
  obtain spt q where v: "distinct [pdt, spt, q]" "{pdt, spt, q} \<inter> L = {}" "frames_rel (m', f') (L \<union> {pdt, spt, q})"
    "same_outside (in_frames {pdt, spt}) (memory_of k) m'" "vas_ok (paging_of k) m' pdt" "kernel_paging_ok (paging_of k) m'"
    "vas_own m' pdt = {pdt, spt, q}"
    using create_VAS_ok [of "memory_of k" "frames_of k" L "paging_of k" pdt m' f'] kernel_invD(2-4) [OF assms(1)] c st
    unfolding store_of_def by metis
  have ps: "page_space r" if "r \<in> L \<union> {pdt, spt, q}" for r using v(3) that by (rule pages.live_frames)
  have same: "process_of k' r = process_of k r" if "r \<noteq> p" for r using that k' proc by simp
  have kp: "process_pdt (process_of k' p) = pdt" "lowest_stack_page (process_of k' p) = 0x7ff000" "memory_of k' = m'"
    "paging_of k' = paging_of k" "store_of k' = (m', f')" "sched_of k' = update_process p
      (\<lambda>q. q\<lparr>process_ctx := initial_context (process_executable q)\<rparr>) (update_process p (\<lambda>q. q\<lparr>lowest_stack_page := 0x7ff000\<rparr>)
        (update_process p (\<lambda>q. q\<lparr>process_pdt := pdt\<rparr>) s))"
    using k' st by simp_all
  have nz: "pdt \<noteq> 0" using ps [of pdt] by (auto simp: page_space_def)
  then have own: "owned k' p = {pdt, spt, q}" "owned k p = {}" using v(7) new by (simp_all add: owned_def kp)
  have "kernel_inv lay k' (ys @ [x]) (L \<union> {pdt, spt, q})"
  proof (rule kernel_inv_step [OF assms(1) p(1), where F = "{pdt, spt}" and X = "{}"])
    show "sched_inv lay (sched_of k') (ys @ [x])"
      unfolding kp(6) using sched(1) p(1) by (intro sched_inv_update) auto
    show "writes_in {pdt, spt} (memory_of k) (memory_of k')"
      using writes_in_frames [OF v(4)] ps kp(3) by auto
    show "process_ok k' (L \<union> {pdt, spt, q}) p"
      using v(5) own(1) kp by (simp add: process_ok_def lowest_ok_def)
  qed (use same kp own v(2,3) p nz k' in auto)
  moreover have "low_kept (memory_of k) m'" by (rule frames_low_kept [OF v(4)]) (use ps in auto)
  moreover have "card (L \<union> {pdt, spt, q}) \<le> card L + 3" using card_Un_le [of L "{pdt, spt, q}"] v(1) by simp
  ultimately show ?thesis using k' kp(3) by (intro exI [of _ "L \<union> {pdt, spt, q}"]) simp
qed

lemma switch_process_inv:
  assumes "kernel_inv lay k (x # ys) L" "switch_process k = Inr (ctx, k')"
  shows "\<exists>L'. kernel_inv lay k' (ys @ [x]) L' \<and> card L' \<le> card L + 3 \<and> paging_on k' \<and> low_kept (memory_of k) (memory_of k')"
proof -
  obtain p s where sw: "scheduler_next_process (sched_of k) = (p, s)" by fastforce
  note sched = sched_inv_switch [OF kernel_invD(1) [OF assms(1)] sw]
  have p: "p \<in> set (x # ys)" "p = hd (ys @ [x])" using sched(2) by (cases ys; simp)+
  have proc: "process_of (k\<lparr>sched_of := s\<rparr>) = process_of k" by (simp add: process_of_def sched(3) fun_eq_iff)
  show ?thesis
  proof (cases "process_pdt (process_of k p) = 0")
    case False
    then have k': "k' = k\<lparr>sched_of := s, reg_cr3 := process_pdt (process_of k p), paging_on := True\<rparr>"
      using assms(2) sw proc by (auto simp: switch_process_def Let_def)
    then have same: "process_of k' = process_of k" "memory_of k' = memory_of k" "paging_of k' = paging_of k" "store_of k' = store_of k"
      by (simp_all add: process_of_def sched(3) fun_eq_iff store_of_def)
    have "kernel_inv lay k' (ys @ [x]) L"
    proof (rule kernel_inv_step [OF assms(1) p(1), where F = "{}" and X = "{}"])
      show "sched_inv lay (sched_of k') (ys @ [x])" using sched(1) k' by simp
      show "owned k p \<inter> {kernel_pt (paging_of k)} = {}" by (rule kernel_pt_not_owned [OF assms(1) p(1)])
      show "process_ok k' L p" using kernel_invD(5) [OF assms(1) p(1)] by (simp add: process_ok_def owned_def same)
      show "L - owned k' p = L - owned k p \<union> {}" by (simp add: owned_def same)
    qed (use False k' same p kernel_invD(2) [OF assms(1)] in \<open>auto simp: writes_in_def\<close>)
    then show ?thesis using k' same(2) by auto
  next
    case True
    then show ?thesis by (rule switch_process_new_inv [OF assms sw])
  qed
qed

lemma current_in_ring:
  assumes "kernel_inv lay k xs L" "paging_on k"
  shows "\<exists>ys. xs = scheduler_current_process (sched_of k) # ys"
    "process_pdt (process_of k (scheduler_current_process (sched_of k))) \<noteq> 0"
    "reg_cr3 k = process_pdt (process_of k (scheduler_current_process (sched_of k)))"
proof -
  from assms obtain x ys where xs: "xs = x # ys" "process_pdt (process_of k x) \<noteq> 0" "reg_cr3 k = process_pdt (process_of k x)"
    by (cases xs) (auto simp: kernel_inv_def)
  moreover have "scheduler_current_process (sched_of k) = x"
    using kernel_invD(1) [OF assms(1)] unfolding xs(1) by (rule current_is_head)
  ultimately show "\<exists>ys. xs = scheduler_current_process (sched_of k) # ys"
    "process_pdt (process_of k (scheduler_current_process (sched_of k))) \<noteq> 0"
    "reg_cr3 k = process_pdt (process_of k (scheduler_current_process (sched_of k)))" by auto
qed

lemma discard_process_paging [simp]: "paging_on (discard_process p k) = paging_on k"
  by (simp add: discard_process_def Let_def)

text \<open>Ending the current process and going on with the next: exit and the fatal faults.\<close>

lemma end_process_inv:
  assumes "kernel_inv lay k xs L" "paging_on k" "k1 = k\<lparr>paging_on := False\<rparr>"
    and "kernel_inv lay k2 xs = kernel_inv lay (discard_process (scheduler_current_process (sched_of k)) k3) xs"
    and "kernel_inv lay k3 xs = kernel_inv lay k1 xs" "process_of k3 = process_of k" "\<not> paging_on k3"
    and "switch_process k2 = Inr (ctx, k')"
    and "memory_of k2 = memory_of (discard_process (scheduler_current_process (sched_of k)) k3)" "memory_of k3 = memory_of k"
  shows "(\<exists>xs' L'. kernel_inv lay k' xs' L') \<and> low_kept (memory_of k) (memory_of k')"
proof -
  obtain ys where xs: "xs = scheduler_current_process (sched_of k) # ys" using current_in_ring(1) [OF assms(1,2)] by blast
  have "kernel_inv lay k3 xs L" using kernel_inv_paging_off [OF assms(1)] assms(3,5) by simp
  with discard_process_inv [of lay k3 xs L "scheduler_current_process (sched_of k)"] xs current_in_ring(2) [OF assms(1,2)] assms(6,7)
  obtain L' where "kernel_inv lay (discard_process (scheduler_current_process (sched_of k)) k3) xs L'"
    and low: "low_kept (memory_of k) (memory_of k2)" by (auto simp: assms(9,10))
  then have "kernel_inv lay k2 (scheduler_current_process (sched_of k) # ys) L'" using assms(4) xs by simp
  from switch_process_inv [OF this assms(8)] low_kept_trans [OF low] show ?thesis by blast
qed

text \<open>With three free frames the next process can be entered, also for the first time.\<close>

lemma switch_process_available:
  assumes "frames_rel (store_of k) L" "card L + 3 \<le> 261119"
  shows "\<exists>ctx k'. switch_process k = Inr (ctx, k')"
  using create_VAS_available [OF assms, of "paging_of k"] by (auto simp: switch_process_def Let_def split: prod.split)

lemma end_process_available:
  assumes "kernel_inv lay k xs L" "paging_on k" "card L + 3 \<le> 261119"
    and "store_of k2 = store_of (discard_process (scheduler_current_process (sched_of k)) (k\<lparr>paging_on := False\<rparr>))"
  shows "\<exists>ctx k'. switch_process k2 = Inr (ctx, k')"
proof -
  let ?p = "scheduler_current_process (sched_of k)"
  obtain ys where xs: "xs = ?p # ys" using current_in_ring(1) [OF assms(1,2)] by blast
  have "?p \<in> set xs" by (subst xs) simp
  with discard_process_inv [OF kernel_inv_paging_off [OF assms(1)], of ?p] current_in_ring(2) [OF assms(1,2)]
  obtain L' where L': "L' \<subseteq> L" "kernel_inv lay (discard_process ?p (k\<lparr>paging_on := False\<rparr>)) xs L'" by auto
  moreover from this(1) have "card L' \<le> card L" by (intro card_mono) simp_all
  ultimately show ?thesis using assms(3) kernel_invD(2) [OF L'(2)] by (intro switch_process_available [of k2 L']) (simp_all add: assms(4))
qed

lemma exit_inv:
  assumes "kernel_inv lay k xs L" "paging_on k" "exit ctx k = Inr (c, k')"
  shows "(\<exists>xs' L'. kernel_inv lay k' xs' L') \<and> low_kept (memory_of k) (memory_of k')"
proof -
  let ?p = "scheduler_current_process (sched_of k)" and ?k = "k\<lparr>paging_on := False\<rparr>"
  let ?k2 = "kprintf ''%p\<newline>'' [lowest_stack_page (process_of (discard_process ?p ?k) ?p)] (discard_process ?p ?k)"
  have sw: "switch_process ?k2 = Inr (c, k')" using assms(3) by (simp add: exit_def Let_def)
  show ?thesis
    by (rule end_process_inv [OF assms(1,2) refl, of ?k2, where ?k3.0 = ?k, OF _ _ _ _ sw]) (simp_all add: fun_eq_iff, simp add: kprintf_def)
qed

lemma kill_process_inv:
  assumes "kernel_inv lay k xs L" "paging_on k"
    and "kill_process msg (scheduler_current_process (sched_of k)) (k\<lparr>paging_on := False\<rparr>) = Some (Inr r)"
  shows "\<exists>c k'. r = Switched c k' \<and> (\<exists>xs' L'. kernel_inv lay k' xs' L') \<and> low_kept (memory_of k) (memory_of k')"
proof -
  from assms(3) obtain c k' where r: "r = Switched c k'"
    and sw: "switch_process (discard_process (scheduler_current_process (sched_of k)) (kprintf msg [] (k\<lparr>paging_on := False\<rparr>))) = Inr (c, k')"
    by (auto simp: kill_process_def split: sum.splits)
  have "(\<exists>xs' L'. kernel_inv lay k' xs' L') \<and> low_kept (memory_of k) (memory_of k')"
    by (rule end_process_inv [OF assms(1,2) refl refl, OF _ _ _ sw]) (simp_all add: fun_eq_iff, simp_all add: kprintf_def)
  with r show ?thesis by blast
qed

lemma kernel_inv_own_step:
  assumes "kernel_inv lay k xs L" "paging_on k" "p = scheduler_current_process (sched_of k)" "pdt = process_pdt (process_of k p)"
    and "vas_inv (paging_of k) (L - owned k p) pdt (store_of k')" "vas_own (memory_of k) pdt \<subseteq> vas_own (memory_of k') pdt"
    and "writes_in (vas_own (memory_of k') pdt) (memory_of k) (memory_of k')" "paging_of k' = paging_of k" "reg_cr3 k' = reg_cr3 k" "param k' = param k"
    and "sched_inv lay (sched_of k') xs" "\<And>q. q \<noteq> p \<Longrightarrow> process_of k' q = process_of k q"
    and "process_pdt (process_of k' p) = pdt" "lowest_ok (lowest_stack_page (process_of k' p))"
  shows "\<exists>L'. kernel_inv lay k' xs L'"
proof -
  let ?L = "L - owned k p \<union> vas_own (memory_of k') pdt"
  obtain ys where xs: "xs = p # ys" using current_in_ring(1) [OF assms(1,2)] assms(3) by blast
  have pdt: "pdt \<noteq> 0" "reg_cr3 k = pdt" using current_in_ring(2,3) [OF assms(1,2)] assms(3,4) by auto
  have v: "frames_rel (store_of k') ?L" "(L - owned k p) \<inter> vas_own (memory_of k') pdt = {}"
    "vas_ok (paging_of k) (memory_of k') pdt" using assms(5) by (simp_all add: vas_inv_def)
  have own: "owned k' p = vas_own (memory_of k') pdt" using pdt assms(13) by (simp add: owned_def)
  have "kernel_inv lay k' xs ?L"
  proof (rule kernel_inv_step [OF assms(1), of p, where F = "vas_own (memory_of k') pdt" and X = "{}"])
    show "owned k p \<inter> {kernel_pt (paging_of k)} = {}" using xs by (intro kernel_pt_not_owned [OF assms(1)]) simp
    show "process_ok k' ?L p" using v(3) own assms(8,13,14) by (simp add: process_ok_def)
  qed (use xs assms(7-13) v own pdt in auto)
  then show ?thesis by blast
qed

text \<open>The stack-growth branch of the page-fault handler.\<close>

lemma stack_fault:
  assumes "kernel_inv lay k xs L" "paging_on k" "error_code ctx AND USER_FLAG \<noteq> 0"
    and "0x400000 \<le> cr2 crctx" "cr2 crctx < 0x800000"
    and p: "p = scheduler_current_process (sched_of k)" and pdt: "pdt = process_pdt (process_of k p)"
  shows "\<exists>r. pagefault_handler ctx crctx k = Some r \<and> (\<forall>out. r = Inr out \<longrightarrow> (\<exists>k' low.
      out = Returned k' \<and> grown (paging_of k) (L - owned k p) pdt low (lowest_stack_page (process_of k p)) (store_of k) (store_of k')
    \<and> k' = k\<lparr>memory_of := memory_of k', frames_of := frames_of k', sched_of := update_process p (\<lambda>q. q\<lparr>lowest_stack_page := low\<rparr>) (sched_of k)\<rparr>
    \<and> lowest_ok low \<and> (if cr2 crctx < lowest_stack_page (process_of k p)
        then unat low \<le> unat (cr2 crctx) \<and> unat (cr2 crctx) < unat low + 4096 else low = lowest_stack_page (process_of k p))))"
proof -
  let ?i = "lowest_stack_page (process_of k p)"
  obtain ys where xs: "xs = p # ys" using current_in_ring(1) [OF assms(1,2)] p by blast
  have nz: "pdt \<noteq> 0" using current_in_ring(2) [OF assms(1,2)] p pdt by simp
  have l: "lowest_ok ?i" using kernel_invD(5) [OF assms(1), of p] xs nz pdt by (simp add: process_ok_def)
  have v: "vas_inv (paging_of k) (L - owned k p) pdt (store_of k)"
    using kernel_inv_vas(1) [OF assms(1), of p] xs nz pdt by simp
  have range: "\<not> cr2 crctx < 0x7000" "\<not> cr2 crctx < 0x400000" "0x400000 \<le> unat (cr2 crctx)"
    using assms(4) by (auto simp: word_le_nat_alt word_less_nat_alt)
  from l have "4096 dvd unat ?i" "unat ?i \<le> 0x800000" by (simp_all add: lowest_ok_def)
  from grow_stack_correct [OF v this range(3)] obtain r where r: "grow_stack pdt (cr2 crctx) ?i ?i (store_of k) = Some r"
    and ok: "\<forall>low s'. r = Inr (low, s') \<longrightarrow> grown (paging_of k) (L - owned k p) pdt low ?i (store_of k) s' \<and> 4096 dvd unat low \<and> unat low \<le> unat ?i
      \<and> (if cr2 crctx < ?i then unat low \<le> unat (cr2 crctx) \<and> unat (cr2 crctx) < unat low + 4096 else low = ?i)" by blast
  have handler: "pagefault_handler ctx crctx k = Some (case r of Inl e \<Rightarrow> Inl e | Inr (low, st) \<Rightarrow>
      Inr (Returned ((assign_process p (\<lambda>q. q\<lparr>lowest_stack_page := low\<rparr>) (set_store st (k\<lparr>paging_on := False\<rparr>)))\<lparr>paging_on := True\<rparr>)))"
    using assms(3-5) range r p pdt by (simp add: pagefault_handler_def Let_def split: sum.split prod.split)
  show ?thesis
  proof (cases r)
    case (Inl e)
    with handler show ?thesis by simp
  next
    case (Inr ls)
    obtain low st where ls: "ls = (low, st)" by (cases ls)
    let ?k = "(assign_process p (\<lambda>q. q\<lparr>lowest_stack_page := low\<rparr>) (set_store st (k\<lparr>paging_on := False\<rparr>)))\<lparr>paging_on := True\<rparr>"
    note g = ok [rule_format, OF Inr [unfolded ls]]
    have "lowest_ok low"
    proof (cases "cr2 crctx < ?i")
      case True
      from g obtain q where "unat low = 4096 * q" by (auto elim: dvdE)
      with g True l range(3) show ?thesis by (simp add: lowest_ok_def)
    qed (use g l in simp)
    moreover have "?k = k\<lparr>memory_of := memory_of ?k, frames_of := frames_of ?k, sched_of := update_process p (\<lambda>q. q\<lparr>lowest_stack_page := low\<rparr>) (sched_of k)\<rparr>"
      using assms(2) by (simp add: assign_process_def set_store_def)
    moreover have "store_of ?k = st" by simp
    ultimately show ?thesis using handler g Inr ls by auto
  qed
qed

lemma stack_fault_inv:
  assumes "kernel_inv lay k xs L" "paging_on k" "error_code ctx AND USER_FLAG \<noteq> 0"
    and "0x400000 \<le> cr2 crctx" "cr2 crctx < 0x800000" "pagefault_handler ctx crctx k = Some (Inr out)"
  shows "\<exists>k'. out = Returned k' \<and> (\<exists>L'. kernel_inv lay k' xs L') \<and> low_kept (memory_of k) (memory_of k')"
proof -
  let ?p = "scheduler_current_process (sched_of k)"
  let ?pdt = "process_pdt (process_of k ?p)"
  obtain ys where xs: "xs = ?p # ys" using current_in_ring(1) [OF assms(1,2)] by blast
  from stack_fault [OF assms(1-5) refl refl] assms(6) obtain k' low where out: "out = Returned k'"
    and g: "grown (paging_of k) (L - owned k ?p) ?pdt low (lowest_stack_page (process_of k ?p)) (store_of k) (store_of k')"
    and k': "k' = k\<lparr>memory_of := memory_of k', frames_of := frames_of k',
        sched_of := update_process ?p (\<lambda>q. q\<lparr>lowest_stack_page := low\<rparr>) (sched_of k)\<rparr>" and low: "lowest_ok low"
    by auto
  note d = grownD [OF g, unfolded store_fields]
  have same: "paging_of k' = paging_of k" "reg_cr3 k' = reg_cr3 k" "param k' = param k"
    "sched_of k' = update_process ?p (\<lambda>q. q\<lparr>lowest_stack_page := low\<rparr>) (sched_of k)"
    using arg_cong [OF k', of paging_of] arg_cong [OF k', of reg_cr3] arg_cong [OF k', of param] arg_cong [OF k', of sched_of] by simp_all
  have proc: "process_of k' q = (if q = ?p then (process_of k ?p)\<lparr>lowest_stack_page := low\<rparr> else process_of k q)" for q
    by (simp add: process_of_def same(4) update_process_def)
  have rel: "frames_rel (store_of k') (L - owned k ?p \<union> vas_own (memory_of k') ?pdt)" using d(1) by (simp add: vas_inv_def)
  have w: "writes_in (vas_own (memory_of k') ?pdt) (memory_of k) (memory_of k')"
    by (rule writes_in_frames [OF d(2)]) (use pages.live_frames [OF rel] in blast)
  have sched: "sched_inv lay (sched_of k') xs" unfolding same(4)
    by (rule sched_inv_update [OF kernel_invD(1) [OF assms(1)]]) (subst xs, simp_all)
  have "\<exists>L'. kernel_inv lay k' xs L'"
    by (rule kernel_inv_own_step [OF assms(1,2) refl refl d(1) d(3) w same(1-3) sched]) (simp_all add: proc low)
  moreover have "low_kept (memory_of k) (memory_of k')"
    by (rule frames_low_kept [OF d(2)]) (use pages.live_frames [OF rel] in blast)
  ultimately show ?thesis using out by blast
qed

lemma user_step_inv:
  assumes "kernel_inv lay k xs L" "paging_on k" "user_write (memory_of k) m' (reg_cr3 k)"
  shows "\<exists>L'. kernel_inv lay (k\<lparr>memory_of := m'\<rparr>) xs L'"
proof -
  let ?p = "scheduler_current_process (sched_of k)"
  let ?pdt = "process_pdt (process_of k ?p)" and ?k = "k\<lparr>memory_of := m'\<rparr>"
  obtain ys where xs: "xs = ?p # ys" using current_in_ring(1) [OF assms(1,2)] by blast
  note cr = current_in_ring(2,3) [OF assms(1,2)]
  have pin: "?p \<in> set xs" by (subst xs) simp
  have v: "vas_inv (paging_of k) (L - owned k ?p) ?pdt (memory_of k, frames_of k)"
    using kernel_inv_vas(1) [OF assms(1) pin cr(1)] by (simp add: store_of_def)
  have uw: "user_write (memory_of k) m' ?pdt" using assms(3) cr(2) by simp
  have v': "vas_inv (paging_of k) (L - owned k ?p) ?pdt (m', frames_of k)" by (rule vas_inv_user [OF v uw])
  have out: "same_outside (\<lambda>a. in_frames (vas_leaves (memory_of k) ?pdt) a \<or> unat a < 0x400000) (memory_of k) m'"
    using user_write_outside [OF v, of m'] uw by simp
  have own: "vas_own m' ?pdt = vas_own (memory_of k) ?pdt" by (rule vas_inv_user(2) [OF v uw])
  have rel: "frames_rel (store_of ?k) (L - owned k ?p \<union> vas_own m' ?pdt)" using v' by (simp add: vas_inv_def)
  have w: "writes_in (vas_own m' ?pdt) (memory_of k) m'"
    using out pages.live_frames [OF rel] unfolding writes_in_def own
    by (auto simp: vas_own_split in_frames_def elim: same_outside_mono)
  have low: "lowest_ok (lowest_stack_page (process_of k ?p))"
    using kernel_invD(5) [OF assms(1) pin] cr(1) by (simp add: process_ok_def)
  show ?thesis
    by (rule kernel_inv_own_step [OF assms(1,2) refl refl])
      (use v' own w low kernel_invD(1) [OF assms(1)] in simp_all)
qed

text \<open>Below the kernel's 4 MB user code writes its window only.\<close>

lemma user_write_window:
  assumes "kernel_inv lay k xs L" "paging_on k" "user_write (memory_of k) m' (reg_cr3 k)"
    and "unat a < 0x400000" "\<not> (0x7000 \<le> a \<and> a < 0x80000)"
  shows "m' a = memory_of k a"
proof (rule ccontr)
  let ?p = "scheduler_current_process (sched_of k)"
  assume "m' a \<noteq> memory_of k a"
  then obtain va where va: "translate (memory_of k) (reg_cr3 k) va = Some a" "access_rights (memory_of k) (reg_cr3 k) va = (True, True)"
    using assms(3) by (auto simp: user_write_def)
  obtain ys where xs: "xs = ?p # ys" using current_in_ring(1) [OF assms(1,2)] by blast
  note cr = current_in_ring(2,3) [OF assms(1,2)]
  have pin: "?p \<in> set xs" by (subst xs) simp
  note v = kernel_inv_vas [OF assms(1) pin cr(1)]
  have ok: "vas_ok (paging_of k) (memory_of k) (reg_cr3 k)" "kernel_paging_ok (paging_of k) (memory_of k)"
    using v(1) cr(2) by (simp_all add: vas_inv_def)
  note reach = translate_reach [OF ok va(1)]
  show False
  proof (cases "drop_bit 22 va = 0")
    case True
    then show False using reach kernel_rights(2) [OF ok, of va] va(2) assms(5) by (auto split: if_splits)
  next
    case False
    then obtain f where f: "f \<in> vas_leaves (memory_of k) (reg_cr3 k)" "in_region a f 4096" using reach by auto
    then have "f \<in> owned k ?p" using v(2) cr by (auto simp: vas_own_split)
    then have "page_space f" using v(3) kernel_invD(2) [OF assms(1)] pages.live_frames by blast
    then have "0x400000 \<le> unat a" using unat_add_lem_region [OF f(2)] by (simp add: page_space_def)
    then show False using assms(4) by simp
  qed
qed

text \<open>A step that writes low memory only.\<close>

lemma low_step_inv:
  assumes "kernel_inv lay k xs L" "same_outside (\<lambda>a. unat a < 0x400000) (memory_of k) m'"
  shows "kernel_inv lay (k\<lparr>memory_of := m'\<rparr>) xs L"
proof -
  let ?k = "k\<lparr>memory_of := m'\<rparr>"
  have w: "writes_in {} (memory_of k) m'" using assms(2) by (auto simp: writes_in_def elim: same_outside_mono)
  have i: "frames_rel (store_of k) L" "kernel_pt (paging_of k) \<in> L" "kernel_paging_ok (paging_of k) (memory_of k)"
    "\<And>q. q \<in> set xs \<Longrightarrow> process_ok k L q" using assms(1) by (auto simp: kernel_inv_def)
  have ps: "page_space q" if "q \<in> L" for q using i(1) that by (rule pages.live_frames)
  have "frames_rel (m', frames_of k) L"
    using i(1) unfolding store_of_def by (rule pages.write_rel) (use assms(2) in \<open>auto simp: outside_page_space_def elim: same_outside_mono\<close>)
  moreover have "kernel_paging_ok (paging_of k) m'" using writes_in_kernel [OF w i(3)] i(2) ps by simp
  moreover have own: "process_ok ?k L q \<and> owned ?k q = owned k q" if "q \<in> set xs" for q
  proof (cases "process_pdt (process_of k q) = 0")
    case False
    then have "vas_ok (paging_of k) (memory_of k) (process_pdt (process_of k q))" "vas_own (memory_of k) (process_pdt (process_of k q)) \<subseteq> L"
      using i(4) [OF that] by (simp_all add: process_ok_def owned_def)
    note v = writes_in_vas [OF w this(1)]
    have "vas_ok (paging_of k) m' (process_pdt (process_of k q))"
      "vas_own m' (process_pdt (process_of k q)) = vas_own (memory_of k) (process_pdt (process_of k q))"
      by (rule v; use ps \<open>_ \<subseteq> L\<close> in blast)+
    then show ?thesis using i(4) [OF that] by (simp add: process_ok_def owned_def)
  qed (simp add: process_ok_def owned_def)
  moreover have "stray ?k xs L = stray k xs L" using own by (simp add: stray_def)
  ultimately show ?thesis using assms(1) by (auto simp: kernel_inv_def store_of_def)
qed

lemma enqueue_process_inv:
  assumes "kernel_inv lay k xs L" "enqueue_process lay func argc argv k = Inr k'"
  shows "\<exists>q. kernel_inv lay k' (xs @ [q]) L"
proof -
  from assms(2) obtain q s where sp: "schedule_process lay (sched_of k) = Inr (q, s)"
    and k': "k' = assign_process q (\<lambda>p. p\<lparr>process_pdt := 0\<rparr>) (assign_process q (\<lambda>p. p\<lparr>process_argv := argv\<rparr>)
      (assign_process q (\<lambda>p. p\<lparr>process_argc := argc\<rparr>) (assign_process q (\<lambda>p. p\<lparr>process_executable := func\<rparr>) (k\<lparr>sched_of := s\<rparr>))))"
    by (auto simp: enqueue_process_def Let_def split: sum.splits)
  note add = sched_inv_add [OF kernel_invD(1) [OF assms(1)] sp]
  have sched: "sched_inv lay (sched_of k') (xs @ [q])"
    unfolding k' assign_process_fields by (intro sched_inv_update) (use add(1) in simp_all)
  have proc: "process_of k' r = process_of k r" if "r \<noteq> q" for r
    using that add(4) by (simp add: k' process_of_def update_process_def assign_process_def)
  have q: "process_pdt (process_of k' q) = 0" by (simp add: k')
  have same: "memory_of k' = memory_of k" "paging_of k' = paging_of k" "store_of k' = store_of k" "reg_cr3 k' = reg_cr3 k"
    "paging_on k' = paging_on k" "param k' = param k" by (simp_all add: k')
  have own: "owned k' r = owned k r" if "r \<noteq> q" for r using proc [OF that] same by (simp add: owned_def)
  have ne: "r \<noteq> q" if "r \<in> set xs" for r using that add(2) by auto
  have "process_ok k' L r" if "r \<in> set (xs @ [q])" for r
    using that kernel_invD(5) [OF assms(1), of r] proc [of r] own [of r] q same by (cases "r = q") (auto simp: process_ok_def)
  moreover have "owned k' r \<inter> owned k' t = {}" if "r \<in> set (xs @ [q])" "t \<in> set (xs @ [q])" "r \<noteq> t" for r t
  proof (cases "r = q \<or> t = q")
    case True
    then show ?thesis using q by (auto simp: owned_def)
  next
    case False
    then show ?thesis using that own assms(1) by (auto simp: kernel_inv_def)
  qed
  moreover have "stray k' (xs @ [q]) L = stray k xs L"
    using own ne q by (simp add: stray_def owned_def [of k' q])
  moreover have "hd (xs @ [q]) = hd xs" "hd xs \<noteq> q" if "xs \<noteq> []" using that ne by auto
  ultimately have "kernel_inv lay k' (xs @ [q]) L"
    using assms(1) sched same proc unfolding kernel_inv_def by auto
  then show ?thesis by blast
qed

section \<open>The running system\<close>

fun kernel_after :: "fault_outcome \<Rightarrow> kernel" where
  "kernel_after (Returned k) = k"
| "kernel_after (Switched ctx k) = k"

text \<open>
  From the end of the boot sequence: processes are enqueued, the first one is started, and
  from then on user code runs with paging on and \<open>cr3\<close> at the current process's directory,
  writes through its address space, exits, and faults. The other interrupt handlers are \<open>others\<close>: they
  write the kernel's part of the memory (the screen, the console's buffer). User writes into the
  kernel's own variables and code (which lie in the user window and are not part of \<open>memory_of\<close>)
  are not modelled.
\<close>

inductive reachable :: "abi \<Rightarrow> kernel \<Rightarrow> bool" for lay where
  boot: "abi_ok lay \<Longrightarrow> immortal_inv im \<Longrightarrow> setup_kernel_paging (m, frames_initial) = Inr (kp, st)
    \<Longrightarrow> init_scheduler lay (scheduler_initial ns, im) = Inr (sc, im')
    \<Longrightarrow> reachable lay \<lparr>memory_of = fst st, frames_of = snd st, paging_of = kp, sched_of = sc, reg_cr3 = 0,
          paging_on = False, param = 0, printed = []\<rparr>"
| enqueue: "reachable lay k \<Longrightarrow> enqueue_process lay func argc argv k = Inr k' \<Longrightarrow> reachable lay k'"
| start: "reachable lay k \<Longrightarrow> current_process (sched_of k) \<noteq> 0 \<Longrightarrow> switch_process k = Inr (ctx, k') \<Longrightarrow> reachable lay k'"
| exit: "reachable lay k \<Longrightarrow> paging_on k \<Longrightarrow> exit ctx k = Inr (ctx', k') \<Longrightarrow> reachable lay k'"
| fault: "reachable lay k \<Longrightarrow> paging_on k \<Longrightarrow> pagefault_handler ctx crctx k = Some (Inr out) \<Longrightarrow> reachable lay (kernel_after out)"
| user: "reachable lay k \<Longrightarrow> paging_on k \<Longrightarrow> user_write (memory_of k) m' (reg_cr3 k) \<Longrightarrow> reachable lay (k\<lparr>memory_of := m'\<rparr>)"
| others: "reachable lay k \<Longrightarrow> same_outside (\<lambda>a. unat a < 0x400000) (memory_of k) m' \<Longrightarrow> reachable lay (k\<lparr>memory_of := m'\<rparr>)"

lemma boot_inv:
  assumes "abi_ok lay" "immortal_inv im" "setup_kernel_paging (m, frames_initial) = Inr (kp, st)"
    and "init_scheduler lay (scheduler_initial ns, im) = Inr (sc, im')"
  shows "kernel_inv lay \<lparr>memory_of = fst st, frames_of = snd st, paging_of = kp, sched_of = sc, reg_cr3 = 0,
    paging_on = False, param = 0, printed = []\<rparr> [] {kernel_pt kp}"
proof -
  have "kernel_paging_ok kp (fst st)" "frames_rel st {kernel_pt kp}"
    using setup_kernel_paging_ok [OF frames_rel_initial, of m kp "fst st" "snd st"] assms(3) by auto
  moreover note pool = init_scheduler_pool [OF assms(2,1,4)]
  moreover have "sched_inv lay sc []"
    using pool assms(1) by (auto simp: sched_inv_def ring_def scheduler_initial_def)
  ultimately show ?thesis by (simp add: kernel_inv_def store_of_def stray_def)
qed

lemma fault_inv:
  assumes "kernel_inv lay k xs L" "paging_on k" "pagefault_handler ctx crctx k = Some (Inr out)"
  shows "(\<exists>xs' L'. kernel_inv lay (kernel_after out) xs' L') \<and> low_kept (memory_of k) (memory_of (kernel_after out))"
proof (cases "error_code ctx AND USER_FLAG \<noteq> 0 \<and> 0x400000 \<le> cr2 crctx \<and> cr2 crctx < 0x800000")
  case True
  with stack_fault_inv [OF assms(1,2) _ _ _ assms(3)] obtain k' L' where "out = Returned k'" "kernel_inv lay k' xs L'" "low_kept (memory_of k) (memory_of k')" by blast
  then show ?thesis by (simp, blast)
next
  case False
  then obtain msg where "kill_process msg (scheduler_current_process (sched_of k)) (k\<lparr>paging_on := False\<rparr>) = Some (Inr out)"
    using assms(3) by (auto simp: pagefault_handler_def Let_def split: if_splits)
  from kill_process_inv [OF assms(1,2) this] obtain c k' xs' L' where
    "out = Switched c k'" "kernel_inv lay k' xs' L'" "low_kept (memory_of k) (memory_of k')" by blast
  then show ?thesis by (simp, blast)
qed

lemma reachable_inv: "reachable lay k \<Longrightarrow> \<exists>xs L. kernel_inv lay k xs L"
proof (induction rule: reachable.induct)
  case (start k ctx k')
  then obtain xs L where i: "kernel_inv lay k xs L" by blast
  then have "xs \<noteq> []" using start.hyps(2) by (auto simp: kernel_inv_def sched_inv_def ring_def)
  then obtain x ys where "xs = x # ys" by (meson neq_Nil_conv)
  with switch_process_inv [of lay k x ys L] i start.hyps(3) show ?case by blast
next
  case (boot im m kp st ns sc im')
  from boot_inv [OF this] show ?case by blast
next
  case (enqueue k func argc argv k')
  from enqueue.IH obtain xs L where "kernel_inv lay k xs L" by blast
  from enqueue_process_inv [OF this enqueue.hyps(2)] show ?case by blast
next
  case (exit k ctx ctx' k')
  from exit.IH obtain xs L where "kernel_inv lay k xs L" by blast
  from exit_inv [OF this exit.hyps(2,3)] show ?case by blast
next
  case (fault k ctx crctx out)
  from fault.IH obtain xs L where "kernel_inv lay k xs L" by blast
  from fault_inv [OF this fault.hyps(2,3)] show ?case by blast
next
  case (user k m')
  from user.IH obtain xs L where "kernel_inv lay k xs L" by blast
  from user_step_inv [OF this user.hyps(2,3)] show ?case by blast
next
  case (others k m')
  from others.IH obtain xs L where "kernel_inv lay k xs L" by blast
  from low_step_inv [OF this others.hyps(2)] show ?case by blast
qed

text \<open>A concrete system with one process, before and after it is started.\<close>

definition lay0 :: abi where
  "lay0 = \<lparr>sizeof_Process = 100, sizeof_SchedulerNode = 108\<rparr>"

lemma boot_reachable:
  "\<exists>k. reachable lay0 k \<and> current_process (sched_of k) = 0x100000 \<and> process_pdt (process_of k 0x100000) = 0
    \<and> fst (scheduler_next_process (sched_of k)) = 0x100000 \<and> frames_of k = \<lparr>frame_edge = 0x401000, frame_free_list = 0\<rparr> \<and> param k = 0"
proof -
  from boot_kernel_paging obtain kp m where
    kp: "setup_kernel_paging (\<lambda>_. 0, frames_initial) = Inr (kp, m, \<lparr>frame_edge = 0x401000, frame_free_list = 0\<rparr>)" by blast
  obtain ns :: "u32 \<Rightarrow> SchedulerNode" where True by blast
  let ?sc = "\<lparr>nodes = ns, scheduler_start = 0x100000, scheduler_front = 0x100000, scheduler_end = 0x100640,
    scheduler_free_list = 0, current_process = 0\<rparr>"
  let ?k = "\<lparr>memory_of = m, frames_of = \<lparr>frame_edge = 0x401000, frame_free_list = 0\<rparr>, paging_of = kp, sched_of = ?sc,
    reg_cr3 = 0, paging_on = False, param = 0, printed = []\<rparr>"
  have "reachable lay0 ?k"
    using reachable.boot [OF _ immortal_inv_initial kp boot_scheduler, of ns]
    by (simp add: lay0_def abi_ok_def)
  moreover obtain k1 where k1: "enqueue_process lay0 0xA000 0 0 ?k = Inr k1" "current_process (sched_of k1) = 0x100000"
    "process_pdt (process_of k1 0x100000) = 0" "fst (scheduler_next_process (sched_of k1)) = 0x100000"
    "frames_of k1 = \<lparr>frame_edge = 0x401000, frame_free_list = 0\<rparr>" "param k1 = 0"
    by (auto simp: enqueue_process_def schedule_process_def alloc_process_def lay0_def Let_def
        update_process_def set_next_def set_prev_def scheduler_next_process_def)
  ultimately show ?thesis using reachable.enqueue by blast
qed

lemma boot_started:
  "\<exists>k ctx k'. reachable lay0 k \<and> current_process (sched_of k) \<noteq> 0 \<and> switch_process k = Inr (ctx, k')
    \<and> process_pdt (process_of k (fst (scheduler_next_process (sched_of k)))) = 0
    \<and> frames_of k' = \<lparr>frame_edge = 0x404000, frame_free_list = 0\<rparr>
    \<and> lowest_stack_page (process_of k' (scheduler_current_process (sched_of k'))) = 0x7ff000 \<and> param k' = 0"
proof -
  from boot_reachable obtain k where k: "reachable lay0 k" "current_process (sched_of k) = 0x100000" "process_pdt (process_of k 0x100000) = 0"
    "fst (scheduler_next_process (sched_of k)) = 0x100000" "frames_of k = \<lparr>frame_edge = 0x401000, frame_free_list = 0\<rparr>" "param k = 0" by blast
  then obtain s where s: "scheduler_next_process (sched_of k) = (0x100000, s)" by (cases "scheduler_next_process (sched_of k)") auto
  then have cur: "current_process s = 0x100000" "nodes s = nodes (sched_of k)" by (auto simp: scheduler_next_process_def Let_def)
  have proc: "process_pdt (process_of (k\<lparr>sched_of := s\<rparr>) 0x100000) = 0" using k(3) cur(2) by (simp add: process_of_def)
  from boot_create_VAS [of "paging_of k" "memory_of k"] obtain m' where
    c: "create_VAS (paging_of k) (store_of k) = Inr (0x401000, m', \<lparr>frame_edge = 0x404000, frame_free_list = 0\<rparr>)"
    unfolding store_of_def k(5) by blast
  have "\<exists>ctx k'. switch_process k = Inr (ctx, k') \<and> frames_of k' = \<lparr>frame_edge = 0x404000, frame_free_list = 0\<rparr>
      \<and> lowest_stack_page (process_of k' (scheduler_current_process (sched_of k'))) = 0x7ff000 \<and> param k' = 0"
    using k(6) c s proc cur by (simp add: switch_process_def Let_def scheduler_current_process_def update_process_def process_of_def assign_process_def set_store_def)
  with k show ?thesis by auto
qed

lemma boot_running:
  "\<exists>k. reachable lay0 k \<and> paging_on k \<and> frames_of k = \<lparr>frame_edge = 0x404000, frame_free_list = 0\<rparr>
    \<and> lowest_stack_page (process_of k (scheduler_current_process (sched_of k))) = 0x7ff000 \<and> param k = 0"
proof -
  from boot_started obtain k ctx k' where k: "reachable lay0 k" "current_process (sched_of k) \<noteq> 0" "switch_process k = Inr (ctx, k')"
    "frames_of k' = \<lparr>frame_edge = 0x404000, frame_free_list = 0\<rparr>"
    "lowest_stack_page (process_of k' (scheduler_current_process (sched_of k'))) = 0x7ff000" "param k' = 0" by blast
  from reachable.start [OF k(1-3)] have "reachable lay0 k'" .
  moreover have "paging_on k'" using k(3) by (auto simp: switch_process_def Let_def split: sum.splits prod.splits)
  ultimately show ?thesis using k(4-6) by blast
qed

text \<open>Two processes, each started once.\<close>

lemma next_VAS:
  "\<exists>m'. create_VAS kp (m, \<lparr>frame_edge = 0x404000, frame_free_list = 0\<rparr>) = Inr (0x404000, m', \<lparr>frame_edge = 0x407000, frame_free_list = 0\<rparr>)"
  by (simp add: create_VAS_def calloc_page_def malloc_page_def page_numbers Let_def)

lemma start_new_process:
  assumes "scheduler_next_process (sched_of k) = (p, s)" "process_pdt (process_of k p) = 0"
    and "create_VAS (paging_of k) (store_of k) = Inr (pdt, st)"
  obtains ctx k' where "switch_process k = Inr (ctx, k')" "frames_of k' = snd st" "paging_on k'"
    "process_pdt (process_of k' p) = pdt" "\<And>q. q \<noteq> p \<Longrightarrow> process_pdt (process_of k' q) = process_pdt (process_of k q)"
    "current_process (sched_of k') = p" "\<And>q. node_next (nodes (sched_of k') q) = node_next (nodes (sched_of k) q)"
proof -
  have s: "nodes s = nodes (sched_of k)" "current_process s = p" using assms(1) by (auto simp: scheduler_next_process_def Let_def)
  then have "process_pdt (process_of (k\<lparr>sched_of := s\<rparr>) p) = 0" using assms(2) by (simp add: process_of_def)
  then have "\<exists>ctx k'. switch_process k = Inr (ctx, k') \<and> frames_of k' = snd st \<and> paging_on k'
      \<and> process_pdt (process_of k' p) = pdt \<and> (\<forall>q. q \<noteq> p \<longrightarrow> process_pdt (process_of k' q) = process_pdt (process_of k q))
      \<and> current_process (sched_of k') = p \<and> (\<forall>q. node_next (nodes (sched_of k') q) = node_next (nodes (sched_of k) q))"
    using assms(1,3) s by (simp add: switch_process_def Let_def update_process_def process_of_def assign_process_def set_store_def store_of_def)
  then show thesis using that by blast
qed

lemma boot_two_processes:
  "\<exists>k. reachable lay0 k \<and> paging_on k \<and> current_process (sched_of k) = 0x100000 \<and> node_next (nodes (sched_of k) 0x100000) = 0x10006C
    \<and> process_pdt (process_of k 0x100000) = 0x404000 \<and> process_pdt (process_of k 0x10006C) = 0x401000"
proof -
  from boot_kernel_paging obtain kp m where
    kp: "setup_kernel_paging (\<lambda>_. 0, frames_initial) = Inr (kp, m, \<lparr>frame_edge = 0x401000, frame_free_list = 0\<rparr>)" by blast
  obtain ns :: "u32 \<Rightarrow> SchedulerNode" where True by blast
  let ?sc = "\<lparr>nodes = ns, scheduler_start = 0x100000, scheduler_front = 0x100000, scheduler_end = 0x100640,
    scheduler_free_list = 0, current_process = 0\<rparr>"
  let ?k = "\<lparr>memory_of = m, frames_of = \<lparr>frame_edge = 0x401000, frame_free_list = 0\<rparr>, paging_of = kp, sched_of = ?sc,
    reg_cr3 = 0, paging_on = False, param = 0, printed = []\<rparr>"
  have r0: "reachable lay0 ?k"
    using reachable.boot [OF _ immortal_inv_initial kp boot_scheduler, of ns] by (simp add: lay0_def abi_ok_def)
  have "\<exists>k1 k2. enqueue_process lay0 0xA000 0 0 ?k = Inr k1 \<and> enqueue_process lay0 0xB000 0 0 k1 = Inr k2
    \<and> current_process (sched_of k2) = 0x100000 \<and> process_pdt (process_of k2 0x100000) = 0 \<and> process_pdt (process_of k2 0x10006C) = 0
    \<and> node_next (nodes (sched_of k2) 0x100000) = 0x10006C \<and> node_next (nodes (sched_of k2) 0x10006C) = 0x100000
    \<and> frames_of k2 = \<lparr>frame_edge = 0x401000, frame_free_list = 0\<rparr>"
    by (simp add: enqueue_process_def schedule_process_def alloc_process_def lay0_def Let_def assign_process_def process_of_def
        update_process_def set_next_def set_prev_def)
  then obtain k1 k2 where e1: "enqueue_process lay0 0xA000 0 0 ?k = Inr k1" and e2: "enqueue_process lay0 0xB000 0 0 k1 = Inr k2"
    and k2: "current_process (sched_of k2) = 0x100000" "process_pdt (process_of k2 0x100000) = 0" "process_pdt (process_of k2 0x10006C) = 0"
      "node_next (nodes (sched_of k2) 0x100000) = 0x10006C" "node_next (nodes (sched_of k2) 0x10006C) = 0x100000"
      "frames_of k2 = \<lparr>frame_edge = 0x401000, frame_free_list = 0\<rparr>" by blast
  note r2 = reachable.enqueue [OF reachable.enqueue [OF r0 e1] e2]
  obtain s2 where s2: "scheduler_next_process (sched_of k2) = (0x10006C, s2)" using k2 by (simp add: scheduler_next_process_def Let_def)
  obtain m2 where c2: "create_VAS (paging_of k2) (store_of k2) = Inr (0x401000, m2, \<lparr>frame_edge = 0x404000, frame_free_list = 0\<rparr>)"
    using boot_create_VAS [of "paging_of k2" "memory_of k2"] unfolding store_of_def k2(6) by blast
  obtain ctx3 k3 where k3: "switch_process k2 = Inr (ctx3, k3)" "frames_of k3 = \<lparr>frame_edge = 0x404000, frame_free_list = 0\<rparr>"
    "process_pdt (process_of k3 0x10006C) = 0x401000" "process_pdt (process_of k3 0x100000) = 0"
    "current_process (sched_of k3) = 0x10006C" "\<And>q. node_next (nodes (sched_of k3) q) = node_next (nodes (sched_of k2) q)"
    by (rule start_new_process [OF s2 k2(3) c2]) (use k2 in auto)
  have r3: "reachable lay0 k3" by (rule reachable.start [OF r2 _ k3(1)]) (simp add: k2)
  obtain s3 where s3: "scheduler_next_process (sched_of k3) = (0x100000, s3)" using k2 k3 by (simp add: scheduler_next_process_def Let_def)
  obtain m3 where c3: "create_VAS (paging_of k3) (store_of k3) = Inr (0x404000, m3, \<lparr>frame_edge = 0x407000, frame_free_list = 0\<rparr>)"
    using next_VAS [of "paging_of k3" "memory_of k3"] unfolding store_of_def k3(2) by blast
  obtain ctx4 k4 where k4: "switch_process k3 = Inr (ctx4, k4)" "paging_on k4" "process_pdt (process_of k4 0x100000) = 0x404000"
    "process_pdt (process_of k4 0x10006C) = 0x401000" "current_process (sched_of k4) = 0x100000"
    "\<And>q. node_next (nodes (sched_of k4) q) = node_next (nodes (sched_of k3) q)"
    by (rule start_new_process [OF s3 k3(4) c3]) (use k3 in auto)
  have "reachable lay0 k4" by (rule reachable.start [OF r3 _ k4(1)]) (simp add: k3)
  then show ?thesis using k4 k3 k2 by (intro exI [of _ k4]) simp
qed

lemma ring_members:
  assumes "sched_inv lay s xs" "current_process s \<noteq> 0"
  shows "current_process s \<in> set xs" "node_next (nodes s (current_process s)) \<in> set xs"
proof -
  have r: "Scheduler.ring s xs" using assms(1) by (simp add: sched_inv_def)
  then obtain y ys where xs: "xs = y # ys" using assms(2) by (cases xs) (auto simp: Scheduler.ring_def)
  have "set (map (\<lambda>p. node_next (nodes s p)) xs) = set xs" using r by (simp add: Scheduler.ring_def)
  then show "current_process s \<in> set xs" "node_next (nodes s (current_process s)) \<in> set xs"
    using r unfolding xs by (auto simp: Scheduler.ring_def)
qed

text \<open>The context and the address space a new process is entered with.\<close>

lemma started_process:
  assumes "reachable lay k" "current_process (sched_of k) \<noteq> 0" "switch_process k = Inr (ctx, k')"
    and "process_pdt (process_of k (fst (scheduler_next_process (sched_of k)))) = 0"
  defines "p \<equiv> fst (scheduler_next_process (sched_of k))"
  shows "eip (context_of ctx) = process_executable (process_of k p) \<and> cs (context_of ctx) = 0x1B \<and> user_ss ctx = 0x23
    \<and> eflags (context_of ctx) = 0x202 \<and> user_esp ctx = 0x800000
    \<and> scheduler_current_process (sched_of k') = p \<and> paging_on k' \<and> reg_cr3 k' = process_pdt (process_of k' p)
    \<and> (\<forall>va. 0x7ff000 \<le> va \<and> va < user_esp ctx \<longrightarrow> (\<exists>pa. translate (memory_of k') (reg_cr3 k') va = Some pa)
         \<and> access_rights (memory_of k') (reg_cr3 k') va = (True, True))"
proof -
  from reachable_inv [OF assms(1)] obtain xs L where inv: "kernel_inv lay k xs L" by blast
  obtain s where sw: "scheduler_next_process (sched_of k) = (p, s)" by (cases "scheduler_next_process (sched_of k)") (simp add: p_def)
  then have s: "nodes s = nodes (sched_of k)" "current_process s = p" by (auto simp: scheduler_next_process_def Let_def)
  then have proc: "process_of (k\<lparr>sched_of := s\<rparr>) = process_of k" by (simp add: process_of_def fun_eq_iff)
  with assms(3,4) sw obtain pdt st where c: "create_VAS (paging_of k) (store_of k) = Inr (pdt, st)"
    and ctx: "ctx = initial_context (process_executable (process_of k p))"
    and k': "scheduler_current_process (sched_of k') = p" "paging_on k'" "reg_cr3 k' = pdt" "process_pdt (process_of k' p) = pdt"
      "memory_of k' = fst st"
    by (auto simp: switch_process_def Let_def s scheduler_current_process_def update_process_def split: sum.splits)
  obtain m f where st: "st = (m, f)" by (cases st)
  have "frames_rel (memory_of k, frames_of k) L" using kernel_invD(2) [OF inv] by (simp add: store_of_def)
  from new_VAS_translate [OF this kernel_invD(4,3) [OF inv] c [unfolded st store_of_def]] obtain q where
    t: "\<forall>va. translate m pdt va = (if va < 0x400000 then Some va
        else if 0x7ff000 \<le> va \<and> va < 0x800000 then Some (q + (va AND 0xFFF)) else None)
      \<and> (0x7ff000 \<le> va \<and> va < 0x800000 \<longrightarrow> access_rights m pdt va = (True, True))" by blast
  have "\<exists>pa. translate m pdt va = Some pa" "access_rights m pdt va = (True, True)" if "0x7ff000 \<le> va" "va < 0x800000" for va
    using spec [OF t, of va] that by auto
  then show ?thesis using ctx k' st by (auto simp: initial_context_def)
qed

text \<open>The first process of a system that had none is the one that is entered next.\<close>

lemma first_process:
  assumes "kernel_inv lay k [] L" "enqueue_process lay func argc argv k = Inr k'"
  shows "current_process (sched_of k') \<noteq> 0" "process_pdt (process_of k' (fst (scheduler_next_process (sched_of k')))) = 0"
    "process_executable (process_of k' (fst (scheduler_next_process (sched_of k')))) = func"
proof -
  from assms(2) obtain q s where sp: "schedule_process lay (sched_of k) = Inr (q, s)"
    and k': "k' = assign_process q (\<lambda>p. p\<lparr>process_pdt := 0\<rparr>) (assign_process q (\<lambda>p. p\<lparr>process_argv := argv\<rparr>)
      (assign_process q (\<lambda>p. p\<lparr>process_argc := argc\<rparr>) (assign_process q (\<lambda>p. p\<lparr>process_executable := func\<rparr>) (k\<lparr>sched_of := s\<rparr>))))"
    by (auto simp: enqueue_process_def Let_def split: sum.splits)
  note add = sched_inv_add [OF kernel_invD(1) [OF assms(1)] sp]
  have sched: "sched_inv lay (sched_of k') [q]"
    unfolding k' assign_process_fields by (intro sched_inv_update) (use add(1) in simp_all)
  obtain p s' where sw: "scheduler_next_process (sched_of k') = (p, s')" by fastforce
  have "p = q" using sched_inv_switch(2) [OF sched sw] by simp
  moreover have "process_pdt (process_of k' q) = 0" "process_executable (process_of k' q) = func"
    by (simp_all add: k' process_of_def assign_process_def update_process_def)
  ultimately show "process_pdt (process_of k' (fst (scheduler_next_process (sched_of k')))) = 0"
    "process_executable (process_of k' (fst (scheduler_next_process (sched_of k')))) = func" using sw by simp_all
  show "current_process (sched_of k') \<noteq> 0" using sched by (auto simp: sched_inv_def Scheduler.ring_def)
qed

text \<open>Ending a process, with frames to spare.\<close>

lemma switch_process_param: "switch_process k = Inr (ctx, k') \<Longrightarrow> param k' = param k"
  by (auto simp: switch_process_def Let_def split: sum.splits prod.splits if_splits)

lemma exit_param: "exit ctx k = Inr (ctx', k') \<Longrightarrow> param k' = param k + 1"
  by (auto simp: exit_def Let_def kprintf_def discard_process_def dest!: switch_process_param)

lemma exit_available:
  assumes "reachable lay k" "paging_on k" "frames_rel (store_of k) L" "card L + 3 \<le> 261119"
  shows "\<exists>s. exit ctx k = Inr s"
proof -
  from reachable_inv [OF assms(1)] obtain xs L' where inv: "kernel_inv lay k xs L'" by blast
  have "L' = L" by (rule frames_rel_unique [OF kernel_invD(2) [OF inv] assms(3)])
  then show ?thesis
    using end_process_available [OF inv assms(2)] assms(4) by (simp add: exit_def Let_def kprintf_def)
qed

lemma kill_available:
  assumes "reachable lay k" "paging_on k" "frames_rel (store_of k) L" "card L + 3 \<le> 261119"
    and "error_code ctx AND USER_FLAG \<noteq> 0" "\<not> (0x400000 \<le> cr2 crctx \<and> cr2 crctx < 0x800000)"
  shows "\<exists>ctx' k'. pagefault_handler ctx crctx k = Some (Inr (Switched ctx' k'))"
proof -
  let ?p = "scheduler_current_process (sched_of k)" and ?k = "k\<lparr>paging_on := False\<rparr>"
  from reachable_inv [OF assms(1)] obtain xs L' where inv: "kernel_inv lay k xs L'" by blast
  have "L' = L" by (rule frames_rel_unique [OF kernel_invD(2) [OF inv] assms(3)])
  have "\<exists>ctx' k'. kill_process msg ?p ?k = Some (Inr (Switched ctx' k'))" for msg
  proof -
    have "store_of (discard_process ?p (kprintf msg [] ?k)) = store_of (discard_process ?p ?k)"
      by (simp add: discard_process_def Let_def kprintf_def)
    from end_process_available [OF inv assms(2) _ this] assms(4) \<open>L' = L\<close> obtain c k' where
      "switch_process (discard_process ?p (kprintf msg [] ?k)) = Inr (c, k')" by blast
    then show ?thesis by (simp add: kill_process_def)
  qed
  then show ?thesis using assms(5,6) by (auto simp: pagefault_handler_def Let_def)
qed

lemma grow_available:
  assumes "reachable lay k" "paging_on k" "frames_rel (store_of k) L" "card L + 2048 \<le> 261119"
    and "error_code ctx AND USER_FLAG \<noteq> 0" "0x400000 \<le> cr2 crctx" "cr2 crctx < 0x800000"
  shows "\<exists>k'. pagefault_handler ctx crctx k = Some (Inr (Returned k'))"
proof -
  let ?p = "scheduler_current_process (sched_of k)" and ?k = "k\<lparr>paging_on := False\<rparr>"
  let ?pdt = "process_pdt (process_of k ?p)" and ?i = "lowest_stack_page (process_of k ?p)"
  from reachable_inv [OF assms(1)] obtain xs L' where inv: "kernel_inv lay k xs L'" by blast
  have L: "L' = L" by (rule frames_rel_unique [OF kernel_invD(2) [OF inv] assms(3)])
  obtain ys where xs: "xs = ?p # ys" using current_in_ring(1) [OF inv assms(2)] by blast
  have p: "?p \<in> set xs" by (subst xs) simp
  note nz = current_in_ring(2) [OF inv assms(2)] and v = kernel_inv_vas [OF inv p current_in_ring(2) [OF inv assms(2)]]
  have l: "4096 dvd unat ?i" "unat ?i \<le> 0x800000" using kernel_invD(5) [OF inv p] nz by (simp_all add: process_ok_def lowest_ok_def)
  have "L' - owned k ?p \<union> vas_own (fst (store_of k)) ?pdt = L" using v(2,3) L by auto
  moreover have "2 * ((unat ?i - 0x400000) div 4096) \<le> 2048" using l(2) by simp
  ultimately have "card (L' - owned k ?p \<union> vas_own (fst (store_of k)) ?pdt) + 2 * ((unat ?i - 0x400000) div 4096) \<le> 261119"
    using assms(4) by simp
  from grow_stack_available [OF v(1) l _ this, of "cr2 crctx"] assms(6) obtain low st where
    "grow_stack ?pdt (cr2 crctx) ?i ?i (store_of k) = Some (Inr (low, st))" by (auto simp: word_le_nat_alt)
  moreover have "\<not> cr2 crctx < 0x7000" "\<not> cr2 crctx < 0x400000" using assms(6) by (auto simp: word_le_nat_alt word_less_nat_alt)
  ultimately show ?thesis using assms(5-7) by (simp add: pagefault_handler_def Let_def)
qed

lemma few_frames:
  assumes "reachable lay k" "frame_edge (frames_of k) = 0x404000"
  shows "\<exists>L. frames_rel (store_of k) L \<and> card L + 2048 \<le> 261119"
proof -
  from reachable_inv [OF assms(1)] obtain xs L where "kernel_inv lay k xs L" by blast
  from kernel_invD(2) [OF this] have rel: "frames_rel (store_of k) L" .
  have "card L \<le> card (frames_below 0x404000)" using frames_rel_below [OF rel] assms(2) by (intro card_mono) simp_all
  also have "\<dots> \<le> 1028" using card_frames_below [of "0x404000"] by simp
  finally show ?thesis using rel by auto
qed

section \<open>Properties\<close>

text \<open>
  C1: in every reachable state of the kernel the scheduled processes form one ring, and no
  two of them reach a common byte of memory above the kernel's 4 MB: whatever was
  allocated, mounted, freed and written on the way, two address spaces never share a page.
\<close>

theorem kernel_isolation:
  assumes "reachable lay k"
  shows "\<exists>xs. sched_inv lay (sched_of k) xs \<and> (\<forall>p \<in> set xs. \<forall>q \<in> set xs. \<forall>va vb a b.
      p \<noteq> q \<and> process_pdt (process_of k p) \<noteq> 0 \<and> process_pdt (process_of k q) \<noteq> 0
      \<and> translate (memory_of k) (process_pdt (process_of k p)) va = Some a
      \<and> translate (memory_of k) (process_pdt (process_of k q)) vb = Some b \<and> 0x400000 \<le> va \<longrightarrow> a \<noteq> b)"
proof -
  from reachable_inv [OF assms] obtain xs L where inv: "kernel_inv lay k xs L" by blast
  have ps: "page_space r" if "r \<in> L" for r using kernel_invD(2) [OF inv] that by (rule pages.live_frames)
  have "a \<noteq> b" if "p \<in> set xs" "q \<in> set xs" "p \<noteq> q" "process_pdt (process_of k p) \<noteq> 0" "process_pdt (process_of k q) \<noteq> 0"
    and t: "translate (memory_of k) (process_pdt (process_of k p)) va = Some a"
      "translate (memory_of k) (process_pdt (process_of k q)) vb = Some b" and va: "0x400000 \<le> va" for p q va vb a b
  proof
    assume "a = b"
    note vp = kernel_inv_vas [OF inv that(1,4)] and vq = kernel_inv_vas [OF inv that(2,5)]
    have disj: "owned k p \<inter> owned k q = {}" using inv that(1-3) by (auto simp: kernel_inv_def)
    have "drop_bit 22 va \<noteq> 0" using va by (simp add: low_index)
    then obtain f where f: "f \<in> owned k p" "in_region a f 4096"
      using translate_reach [OF _ kernel_invD(4) [OF inv] t(1)] vp(1,2) by (auto simp: vas_inv_def vas_own_split)
    then have pf: "page_space f" using ps vp(3) by auto
    have hi: "0x400000 \<le> unat a" using unat_add_lem_region [OF f(2)] pf by (simp add: page_space_def)
    show False
    proof (cases "drop_bit 22 vb = 0")
      case True
      then have "b = vb" "vb < 0x400000"
        using translate_reach [OF _ kernel_invD(4) [OF inv] t(2)] vq(1) by (auto simp: vas_inv_def low_index)
      with hi \<open>a = b\<close> show False by (simp add: word_less_nat_alt)
    next
      case False
      then obtain g where g: "g \<in> owned k q" "in_region b g 4096"
        using translate_reach [OF _ kernel_invD(4) [OF inv] t(2)] vq(1,2) by (auto simp: vas_inv_def vas_own_split)
      then have "page_space g" using ps vq(3) by auto
      with f g pf \<open>a = b\<close> have "f = g" by (intro aligned_region_unique [of f g a]) (auto simp: page_space_def)
      with f(1) g(1) disj show False by auto
    qed
  qed
  then show ?thesis using kernel_invD(1) [OF inv] by (intro exI [of _ xs]) blast
qed

theorem kernel_isolation_witness:
  "\<exists>k p q. reachable lay0 k \<and> p \<noteq> q \<and> process_pdt (process_of k p) = 0x404000 \<and> process_pdt (process_of k q) = 0x401000
    \<and> (\<forall>va vb a b. translate (memory_of k) 0x404000 va = Some a \<and> translate (memory_of k) 0x401000 vb = Some b \<and> 0x400000 \<le> va \<longrightarrow> a \<noteq> b)"
proof -
  obtain k where k: "reachable lay0 k" "current_process (sched_of k) = 0x100000" "node_next (nodes (sched_of k) 0x100000) = 0x10006C"
    "process_pdt (process_of k 0x100000) = 0x404000" "process_pdt (process_of k 0x10006C) = 0x401000" using boot_two_processes by blast
  from kernel_isolation [OF k(1)] obtain xs where xs: "sched_inv lay0 (sched_of k) xs" and iso: "\<forall>p \<in> set xs. \<forall>q \<in> set xs. \<forall>va vb a b.
      p \<noteq> q \<and> process_pdt (process_of k p) \<noteq> 0 \<and> process_pdt (process_of k q) \<noteq> 0
      \<and> translate (memory_of k) (process_pdt (process_of k p)) va = Some a
      \<and> translate (memory_of k) (process_pdt (process_of k q)) vb = Some b \<and> 0x400000 \<le> va \<longrightarrow> a \<noteq> b" by blast
  have "0x100000 \<in> set xs" "0x10006C \<in> set xs" using ring_members [OF xs] k(2,3) by simp_all
  from bspec [OF bspec [OF iso this(1)] this(2)] show ?thesis
    using k by (intro exI [of _ k] exI [of _ "0x100000"] exI [of _ "0x10006C"]) simp
qed



text \<open>
  C7: a process that runs for the first time starts at its entry point in ring 3 with
  interrupts enabled, its stack pointer at \<open>0x800000\<close> and the page below it mapped and
  writable; \<open>cr3\<close> holds its own directory and it is the scheduler's current process.
\<close>

theorem process_start:
  assumes "reachable lay k" "current_process (sched_of k) \<noteq> 0" "switch_process k = Inr (ctx, k')"
    and "process_pdt (process_of k (fst (scheduler_next_process (sched_of k)))) = 0"
  defines "p \<equiv> fst (scheduler_next_process (sched_of k))"
  shows "eip (context_of ctx) = process_executable (process_of k p) \<and> cs (context_of ctx) = 0x1B \<and> user_ss ctx = 0x23
    \<and> eflags (context_of ctx) = 0x202 \<and> user_esp ctx = 0x800000
    \<and> scheduler_current_process (sched_of k') = p \<and> paging_on k' \<and> reg_cr3 k' = process_pdt (process_of k' p)
    \<and> (\<forall>va. 0x7ff000 \<le> va \<and> va < user_esp ctx \<longrightarrow> (\<exists>pa. translate (memory_of k') (reg_cr3 k') va = Some pa)
         \<and> access_rights (memory_of k') (reg_cr3 k') va = (True, True))"
  unfolding p_def using assms(1-4) by (rule started_process)

theorem process_start_witness:
  "\<exists>k ctx k'. reachable lay0 k \<and> switch_process k = Inr (ctx, k') \<and> cs (context_of ctx) = 0x1B
    \<and> (\<exists>pa. translate (memory_of k') (reg_cr3 k') 0x7ffffc = Some pa)"
proof -
  from boot_started obtain k ctx k' where k: "reachable lay0 k" "current_process (sched_of k) \<noteq> 0" "switch_process k = Inr (ctx, k')"
    "process_pdt (process_of k (fst (scheduler_next_process (sched_of k)))) = 0" by blast
  note * = process_start [OF k]
  then have "user_esp ctx = 0x800000" "cs (context_of ctx) = 0x1B" by simp_all
  moreover from * have "\<forall>va. 0x7ff000 \<le> va \<and> va < user_esp ctx \<longrightarrow> (\<exists>pa. translate (memory_of k') (reg_cr3 k') va = Some pa)"
    by blast
  from spec [OF this, of "0x7ffffc"] have "\<exists>pa. translate (memory_of k') (reg_cr3 k') 0x7ffffc = Some pa"
    using \<open>user_esp ctx = 0x800000\<close> by simp
  ultimately show ?thesis using k by blast
qed

text \<open>
  Every process that ends costs the kernel one page frame for good, its page directory: the taken
  frames that no address space owns are one, the kernel's page table, and one more for each process
  that has ended (\<open>param\<close> counts them). So no more than 261118 processes ever end.
\<close>

theorem ended_processes_leak:
  assumes "reachable lay k"
  shows "\<exists>xs L. sched_inv lay (sched_of k) xs \<and> frames_rel (store_of k) L
    \<and> card (L - (\<Union>p \<in> set xs. if process_pdt (process_of k p) = 0 then {}
        else vas_own (memory_of k) (process_pdt (process_of k p)))) = Suc (unat (param k))
    \<and> unat (param k) < 261119"
proof -
  from reachable_inv [OF assms] obtain xs L where inv: "kernel_inv lay k xs L" by blast
  have "card (L - (\<Union>p \<in> set xs. owned k p)) = Suc (unat (param k))" using inv by (simp add: kernel_inv_def stray_def)
  then show ?thesis using kernel_invD(1,2) [OF inv] param_bound [OF inv] unfolding owned_def by blast
qed

theorem ended_processes_leak_witness:
  "\<exists>k c k'. reachable lay0 k \<and> exit c k = Inr k' \<and> param (snd k') = 1 \<and> (\<exists>L. frames_rel (store_of (snd k')) L \<and> 2 \<le> card L)"
proof -
  let ?c = "context_of (initial_context 0)"
  obtain k where k: "reachable lay0 k" "paging_on k" "frame_edge (frames_of k) = 0x404000" "param k = 0"
    using boot_running by auto
  obtain L0 where "frames_rel (store_of k) L0" "card L0 + 3 \<le> 261119" using few_frames [OF k(1,3)] by fastforce
  from exit_available [OF k(1,2) this, of ?c] obtain c' k' where e: "exit ?c k = Inr (c', k')" by auto
  from ended_processes_leak [OF reachable.exit [OF k(1,2) e]] obtain xs L where L: "frames_rel (store_of k') L"
    "card (L - (\<Union>p \<in> set xs. if process_pdt (process_of k' p) = 0 then {}
        else vas_own (memory_of k') (process_pdt (process_of k' p)))) = Suc (unat (param k'))" by blast
  have p: "param k' = 1" using exit_param [OF e] k(4) by simp
  have "card (L - (\<Union>p \<in> set xs. if process_pdt (process_of k' p) = 0 then {}
        else vas_own (memory_of k') (process_pdt (process_of k' p)))) \<le> card L" by (intro card_mono) auto
  then have "2 \<le> card L" using L(2) p by simp
  then show ?thesis using k(1) e p L(1) by (intro exI [of _ k] exI [of _ ?c] exI [of _ "(c', k')"]) auto
qed



end
