(* ===== verification/Printf.thy ===== *)
theory Printf
  imports Prelude Memmgnt
begin

text \<open>
  The formatted output of \<^verbatim>\<open>src/console.c\<close> (lines 43 to 423): \<open>vsnprintf\<close> and its helpers over
  the flat memory, reading the format and the string arguments byte by byte and writing the
  bounded output as the code does. A C \<open>int\<close> that only counts (a width, a precision) is an
  \<open>int\<close>; overflowing it is undefined in C and does not occur for widths a format can
  reasonably hold. \<open>args k\<close> is the \<open>k\<close>-th word of the variable arguments (every promoted
  argument of these directives is one word). A loop over the format ends only if the format
  does, so those loops are partial functions.
\<close>

abbreviation ch :: "char \<Rightarrow> u8" where
  "ch c \<equiv> of_char c"

section \<open>Helpers\<close>

text \<open>A position in the output is the memory and the pointer \<open>string\<close>.\<close>

definition bound_string_putchar :: "u32 \<Rightarrow> u8 \<Rightarrow> memory \<times> u32 \<Rightarrow> memory \<times> u32" where
  "bound_string_putchar end_ptr c st =
     (let (m, string) = st in (if string < end_ptr then m(string := c) else m, string + 1))"

function bound_string_length_loop :: "memory \<Rightarrow> u32 \<Rightarrow> u32 \<Rightarrow> u32 \<Rightarrow> u32" where
  "bound_string_length_loop m string count len =
     (if m string \<noteq> 0 \<and> count \<noteq> 0 then bound_string_length_loop m (string + 1) (count - 1) (len + 1) else len)"
  by pat_completeness auto
termination
  by (relation "measure (\<lambda>(m, string, count, len). unat count)") (auto simp: unat_minus_one unat_gt_0)

declare bound_string_length_loop.simps [simp del]

definition bound_string_length :: "memory \<Rightarrow> u32 \<Rightarrow> u32 \<Rightarrow> u32" where
  "bound_string_length m string count = bound_string_length_loop m string count 0"

definition isdigit :: "u8 \<Rightarrow> bool" where
  "isdigit c \<longleftrightarrow> ch (CHR ''0'') \<le> c \<and> c \<le> ch (CHR ''9'')"

partial_function (option) parse_int_loop :: "memory \<Rightarrow> u32 \<Rightarrow> int \<Rightarrow> (u32 \<times> int) option" where
  "parse_int_loop m string number =
     (if isdigit (m string)
      then parse_int_loop m (string + 1) (number * 10 + (uint (m string) - uint (ch (CHR ''0''))))
      else Some (string, number))"

definition parse_int :: "memory \<Rightarrow> u32 \<Rightarrow> (u32 \<times> int) option" where
  "parse_int m string = parse_int_loop m string 0"

definition LEFT_FLAG :: "'a::len word" where "LEFT_FLAG = 0x1"
definition PLUS_FLAG :: "'a::len word" where "PLUS_FLAG = 0x2"
definition SPACE_FLAG :: "'a::len word" where "SPACE_FLAG = 0x4"
definition ALT_FLAG :: "'a::len word" where "ALT_FLAG = 0x8"
definition ZERO_FLAG :: "'a::len word" where "ZERO_FLAG = 0x10"
definition UPPER_FLAG :: "'a::len word" where "UPPER_FLAG = 0x20"
definition SIGNED_FLAG :: "'a::len word" where "SIGNED_FLAG = 0x40"

definition upper_digits :: "u8 list" where "upper_digits = map of_char ''0123456789ABCDEF''"
definition lower_digits :: "u8 list" where "lower_digits = map of_char ''0123456789abcdef''"

section \<open>Integers\<close>

text \<open>
  \<open>while (w-- > low) string = bound_string_putchar(string, end, c);\<close> the loop leaves \<open>w\<close>
  below \<open>low\<close>, which the later loops rely on.
\<close>

function put_while :: "u32 \<Rightarrow> u8 \<Rightarrow> int \<Rightarrow> int \<Rightarrow> memory \<times> u32 \<Rightarrow> int \<times> memory \<times> u32" where
  "put_while end_ptr c low w st =
     (if low < w then put_while end_ptr c low (w - 1) (bound_string_putchar end_ptr c st) else (w - 1, st))"
  by pat_completeness auto
termination
  by (relation "measure (\<lambda>(end_ptr, c, low, w, st). nat (w - low))") auto

declare put_while.simps [simp del]

text \<open>The digits, least significant first; the callers' bases are 8, 10 and 16.\<close>

function reversed_digits :: "u8 list \<Rightarrow> u32 \<Rightarrow> u32 \<Rightarrow> u8 list" where
  "reversed_digits digits base number =
     (if number = 0 \<or> base < 2 then []
      else digits ! unat (number mod base) # reversed_digits digits base (number div base))"
  by pat_completeness auto
termination
proof (relation "measure (\<lambda>(digits, base, number). unat number)", simp)
  fix digits :: "u8 list" and base number :: u32
  assume "\<not> (number = 0 \<or> base < 2)"
  then have "0 < unat number" "1 < unat base" by (auto simp: unat_gt_0 word_less_nat_alt not_less word_le_nat_alt)
  then show "((digits, base, number div base), digits, base, number) \<in> measure (\<lambda>(digits, base, number). unat number)"
    by (simp add: unat_div)
qed

declare reversed_digits.simps [simp del]

definition bound_string_format_integer :: "u32 \<Rightarrow> u32 \<Rightarrow> u8 \<Rightarrow> int \<Rightarrow> int \<Rightarrow> u32 \<Rightarrow> memory \<times> u32 \<Rightarrow> memory \<times> u32" where
  "bound_string_format_integer end_ptr number base width prescision flags st =
     (let flags = (if 0 \<le> prescision then flags AND NOT ZERO_FLAG else flags);
          (number, sign, width) =
            (if flags AND SIGNED_FLAG \<noteq> 0
             then if sint number < 0 then (- number, ch (CHR ''-''), width - 1)
                  else if flags AND PLUS_FLAG \<noteq> 0 then (number, ch (CHR ''+''), width - 1)
                  else if flags AND SPACE_FLAG \<noteq> 0 then (number, ch (CHR '' ''), width - 1)
                  else (number, 0, width)
             else (number, 0, width));
          digits = (if flags AND UPPER_FLAG \<noteq> 0 then upper_digits else lower_digits);
          reversed_buffer = (if number = 0 then [ch (CHR ''0'')] else reversed_digits digits (ucast base) number);
          num_length = int (length reversed_buffer);
          prescision = (if prescision < num_length then num_length else prescision);
          width = width - prescision;
          prefix_needed = (flags AND ALT_FLAG \<noteq> 0 \<and> base \<noteq> 10);
          width = (if prefix_needed then if base = 16 then width - 1 - 1 else width - 1 else width);
          padding = (if flags AND ZERO_FLAG \<noteq> 0 then ch (CHR ''0'') else ch (CHR '' ''));
          (width, st) = (if flags AND (ZERO_FLAG OR LEFT_FLAG) = 0 then put_while end_ptr (ch (CHR '' '')) 0 width st else (width, st));
          st = (if sign \<noteq> 0 then bound_string_putchar end_ptr sign st else st);
          st = (if prefix_needed
                then let st = bound_string_putchar end_ptr (ch (CHR ''0'')) st in
                     if base = 16 then bound_string_putchar end_ptr (if flags AND UPPER_FLAG \<noteq> 0 then ch (CHR ''X'') else ch (CHR ''x'')) st
                     else st
                else st);
          (width, st) = (if flags AND LEFT_FLAG = 0 then put_while end_ptr padding 0 width st else (width, st));
          (prescision, st) = put_while end_ptr (ch (CHR ''0'')) num_length prescision st;
          st = fold (\<lambda>i. bound_string_putchar end_ptr (reversed_buffer ! i)) (rev [0..<length reversed_buffer]) st;
          (width, st) = put_while end_ptr (ch (CHR '' '')) 0 width st
      in st)"

section \<open>Conversion specifications\<close>

partial_function (option) parse_flags :: "memory \<Rightarrow> u32 \<Rightarrow> u8 \<Rightarrow> (u32 \<times> u8) option" where
  "parse_flags m format flags =
     (let format = format + 1 in
      if m format = ch (CHR ''#'') then parse_flags m format (flags OR ALT_FLAG)
      else if m format = ch (CHR ''0'') then parse_flags m format (flags OR ZERO_FLAG)
      else if m format = ch (CHR ''+'') then parse_flags m format (flags OR PLUS_FLAG)
      else if m format = ch (CHR '' '') then parse_flags m format (flags OR SPACE_FLAG)
      else if m format = ch (CHR ''-'') then parse_flags m format (flags OR LEFT_FLAG)
      else Some (format, flags))"

definition adjust_flags :: "u8 \<Rightarrow> u8" where
  "adjust_flags flags =
     (let flags = (if flags AND PLUS_FLAG \<noteq> 0 then flags AND NOT SPACE_FLAG else flags)
      in (if flags AND LEFT_FLAG \<noteq> 0 then flags AND NOT ZERO_FLAG else flags))"

text \<open>Width: \<open>(format, flags, width, arguments used)\<close>.\<close>

definition parse_width :: "memory \<Rightarrow> (nat \<Rightarrow> u32) \<Rightarrow> u32 \<times> u8 \<times> nat \<Rightarrow> (u32 \<times> u8 \<times> int \<times> nat) option" where
  "parse_width m args s =
     (let (format, flags, k) = s; c = m format in
      if c = ch (CHR ''*'')
      then (let width = sint (args k) in
            if width < 0 then Some (format + 1, flags OR LEFT_FLAG, - width, k + 1)
            else Some (format + 1, flags, width, k + 1))
      else if isdigit c then map_option (\<lambda>(format, width). (format, flags, width, k)) (parse_int m format)
      else Some (format, flags, -1, k))"

definition parse_prescision :: "memory \<Rightarrow> (nat \<Rightarrow> u32) \<Rightarrow> u32 \<times> nat \<Rightarrow> (u32 \<times> int \<times> nat) option" where
  "parse_prescision m args s =
     (let (format, k) = s in
      if m format = ch (CHR ''.'')
      then (let format = format + 1; c = m format in
            map_option (\<lambda>(format, prescision, k). (format, if prescision < 0 then 0 else prescision, k))
              (if isdigit c then map_option (\<lambda>(format, prescision). (format, prescision, k)) (parse_int m format)
               else if c = ch (CHR ''*'') then Some (format + 1, sint (args k), k + 1)
               else Some (format, -1, k)))
      else Some (format, -1, k))"

definition parse_qualifier :: "memory \<Rightarrow> u32 \<Rightarrow> u32 \<times> u8" where
  "parse_qualifier m format =
     (let c = m format in
      if c = ch (CHR ''h'') \<or> c = ch (CHR ''l'') \<or> c = ch (CHR ''L'') then (format + 1, c) else (format, -1))"

record conversion =
  conv_flags :: u8
  conv_width :: int
  conv_prescision :: int
  conv_qualifier :: u8

text \<open>From the \<open>%\<close> to the conversion character.\<close>

definition parse_conversion :: "memory \<Rightarrow> (nat \<Rightarrow> u32) \<Rightarrow> u32 \<Rightarrow> nat \<Rightarrow> (u32 \<times> conversion \<times> nat) option" where
  "parse_conversion m args format k =
     (case parse_flags m format 0 of
        None \<Rightarrow> None
      | Some (format, flags) \<Rightarrow>
          (case parse_width m args (format, adjust_flags flags, k) of
             None \<Rightarrow> None
           | Some (format, flags, width, k) \<Rightarrow>
               (case parse_prescision m args (format, k) of
                  None \<Rightarrow> None
                | Some (format, prescision, k) \<Rightarrow>
                    (let (format, qualifier) = parse_qualifier m format in
                     Some (format, \<lparr>conv_flags = flags, conv_width = width, conv_prescision = prescision,
                       conv_qualifier = qualifier\<rparr>, k)))))"

section \<open>Conversions\<close>

text \<open>\<open>while (--w > 0) pos = bound_string_putchar(pos, end, c);\<close>\<close>

function put_predec :: "u32 \<Rightarrow> u8 \<Rightarrow> int \<Rightarrow> memory \<times> u32 \<Rightarrow> int \<times> memory \<times> u32" where
  "put_predec end_ptr c w st =
     (let w = w - 1 in if 0 < w then put_predec end_ptr c w (bound_string_putchar end_ptr c st) else (w, st))"
  by pat_completeness auto
termination
  by (relation "measure (\<lambda>(end_ptr, c, w, st). nat w)") auto

declare put_predec.simps [simp del]

definition convert_char :: "u32 \<Rightarrow> conversion \<Rightarrow> u8 \<Rightarrow> memory \<times> u32 \<Rightarrow> memory \<times> u32" where
  "convert_char end_ptr cv c st =
     (let (width, st) = (if conv_flags cv AND LEFT_FLAG = 0 then put_predec end_ptr (ch (CHR '' '')) (conv_width cv) st
                         else (conv_width cv, st));
          st = bound_string_putchar end_ptr c st;
          (width, st) = put_predec end_ptr (ch (CHR '' '')) width st
      in st)"

definition convert_string :: "u32 \<Rightarrow> conversion \<Rightarrow> u32 \<Rightarrow> memory \<times> u32 \<Rightarrow> memory \<times> u32" where
  "convert_string end_ptr cv str st =
     (let len = bound_string_length (fst st) str (word_of_int (conv_prescision cv));
          (width, st) = (if conv_flags cv AND LEFT_FLAG = 0
                         then put_while end_ptr (ch (CHR '' '')) (sint len) (conv_width cv) st else (conv_width cv, st));
          st = for_loop len (\<lambda>i st. bound_string_putchar end_ptr (fst st (str + i)) st) st;
          (width, st) = put_while end_ptr (ch (CHR '' '')) (sint len) width st
      in st)"

text \<open>The argument of an integer conversion, by qualifier.\<close>

definition integer_argument :: "u8 \<Rightarrow> u8 \<Rightarrow> u32 \<Rightarrow> u32" where
  "integer_argument qualifier flags a =
     (if qualifier = ch (CHR ''l'') then a
      else if qualifier = ch (CHR ''h'')
      then if flags AND SIGNED_FLAG \<noteq> 0 then scast (ucast a :: u16) else ucast (ucast a :: u16)
      else a)"

text \<open>The \<open>switch\<close>: the base and the extra flags of the integer conversions.\<close>

definition integer_conversion :: "u8 \<Rightarrow> (u8 \<times> u8) option" where
  "integer_conversion c =
     (if c = ch (CHR ''o'') then Some (8, 0)
      else if c = ch (CHR ''i'') \<or> c = ch (CHR ''d'') then Some (10, SIGNED_FLAG)
      else if c = ch (CHR ''u'') then Some (10, 0)
      else if c = ch (CHR ''X'') then Some (16, UPPER_FLAG)
      else if c = ch (CHR ''x'') then Some (16, 0)
      else None)"

definition convert :: "u32 \<Rightarrow> (nat \<Rightarrow> u32) \<Rightarrow> u8 \<Rightarrow> conversion \<Rightarrow> nat \<Rightarrow> memory \<times> u32 \<Rightarrow> nat \<times> memory \<times> u32" where
  "convert end_ptr args c cv k st =
     (if c = ch (CHR ''%'') then (k, bound_string_putchar end_ptr (ch (CHR ''%'')) st)
      else if c = ch (CHR ''c'') then (k + 1, convert_char end_ptr cv (ucast (args k)) st)
      else if c = ch (CHR ''s'') then (k + 1, convert_string end_ptr cv (args k) st)
      else if c = ch (CHR ''p'')
      then (let cv = (if conv_width cv = -1 then cv\<lparr>conv_width := 2 * 4, conv_flags := conv_flags cv OR ZERO_FLAG\<rparr> else cv) in
            (k + 1, bound_string_format_integer end_ptr (args k) 16 (conv_width cv) (conv_prescision cv) (ucast (conv_flags cv)) st))
      else (case integer_conversion c of
              Some (base, extra) \<Rightarrow>
                (let flags = conv_flags cv OR extra;
                     number = integer_argument (conv_qualifier cv) flags (args k)
                 in (k + 1, bound_string_format_integer end_ptr number base (conv_width cv) (conv_prescision cv) (ucast flags) st))
            | None \<Rightarrow> (k, st)))"

section \<open>The formatting functions\<close>

partial_function (option) vsnprintf_loop :: "u32 \<Rightarrow> (nat \<Rightarrow> u32) \<Rightarrow> u32 \<Rightarrow> nat \<Rightarrow> memory \<times> u32 \<Rightarrow> (memory \<times> u32) option" where
  "vsnprintf_loop end_ptr args format k st =
     (let c = fst st format in
      if c = 0 then Some st
      else if c \<noteq> ch (CHR ''%'')
      then vsnprintf_loop end_ptr args (format + 1) k (bound_string_putchar end_ptr c st)
      else (case parse_conversion (fst st) args format k of
              None \<Rightarrow> None
            | Some (format, cv, k) \<Rightarrow>
                (let (k, st') = convert end_ptr args (fst st format) cv k st in
                 vsnprintf_loop end_ptr args (format + 1) k st')))"

definition vsnprintf :: "memory \<Rightarrow> u32 \<Rightarrow> u32 \<Rightarrow> u32 \<Rightarrow> (nat \<Rightarrow> u32) \<Rightarrow> (int \<times> memory) option" where
  "vsnprintf m s n format arg =
     (case vsnprintf_loop (s + n) arg format 0 (m, s) of
        None \<Rightarrow> None
      | Some (m, pos) \<Rightarrow>
          Some (sint (pos - s),
            if 0 < n then if pos < s + n then m(pos := 0) else m(s + n - 1 := 0) else m))"

definition SIZE_MAX :: u32 where
  "SIZE_MAX = 0xFFFFFFFF"

definition snprintf :: "memory \<Rightarrow> u32 \<Rightarrow> u32 \<Rightarrow> u32 \<Rightarrow> (nat \<Rightarrow> u32) \<Rightarrow> (int \<times> memory) option" where
  "snprintf m s n format arg = vsnprintf m s n format arg"

definition vsprintf :: "memory \<Rightarrow> u32 \<Rightarrow> u32 \<Rightarrow> (nat \<Rightarrow> u32) \<Rightarrow> (int \<times> memory) option" where
  "vsprintf m s format arg = vsnprintf m s SIZE_MAX format arg"

definition sprintf :: "memory \<Rightarrow> u32 \<Rightarrow> u32 \<Rightarrow> (nat \<Rightarrow> u32) \<Rightarrow> (int \<times> memory) option" where
  "sprintf m s format arg = vsprintf m s format arg"

section \<open>What the writes amount to\<close>

definition put_list :: "u32 \<Rightarrow> u8 list \<Rightarrow> memory \<times> u32 \<Rightarrow> memory \<times> u32" where
  "put_list end_ptr xs st = fold (bound_string_putchar end_ptr) xs st"

lemma put_list_simps [simp]:
  "put_list e [] st = st" "put_list e (x # xs) st = put_list e xs (bound_string_putchar e x st)"
  "put_list e (xs @ ys) st = put_list e ys (put_list e xs st)"
  by (simp_all add: put_list_def)

lemma put_one: "bound_string_putchar e c st = put_list e [c] st"
  by simp

lemma put_while_list:
  "put_while e c low w st = (if low < w then low - 1 else w - 1, put_list e (replicate (nat (w - low)) c) st)"
proof (induction e c low w st rule: put_while.induct)
  case (1 e c low w st)
  show ?case
  proof (cases "low < w")
    case True
    then have "nat (w - low) = Suc (nat (w - 1 - low))" by simp
    with 1 True show ?thesis by (simp add: put_while.simps [of e c low w])
  qed (simp add: put_while.simps [of e c low w])
qed

lemma put_predec_list:
  "put_predec e c w st = (if 1 < w then 0 else w - 1, put_list e (replicate (nat (w - 1)) c) st)"
proof (induction e c w st rule: put_predec.induct)
  case (1 e c w st)
  show ?case
  proof (cases "1 < w")
    case True
    then have "nat (w - 1) = Suc (nat (w - 1 - 1))" by simp
    with 1 True show ?thesis by (simp add: put_predec.simps [of e c w] Let_def)
  qed (simp add: put_predec.simps [of e c w] Let_def)
qed

lemma fold_reversed:
  "fold (\<lambda>i. bound_string_putchar e (xs ! i)) (rev [0..<length xs]) st = put_list e (rev xs) st"
proof -
  have "rev xs = map ((!) xs) (rev [0..<length xs])" by (metis map_nth rev_map)
  then show ?thesis by (simp add: put_list_def fold_map comp_def)
qed

text \<open>
  \<open>placed s n xs m\<close>: the memory with the bytes \<open>xs\<close> written from \<open>s\<close> on, of which only the
  first \<open>n\<close> are kept.
\<close>

definition placed :: "u32 \<Rightarrow> nat \<Rightarrow> u8 list \<Rightarrow> memory \<Rightarrow> memory" where
  "placed s n xs m = (\<lambda>a. if unat (a - s) < n \<and> unat (a - s) < length xs then xs ! unat (a - s) else m a)"

lemma placed_Nil [simp]: "placed s n [] m = m"
  by (simp add: placed_def)

lemma placed_0 [simp]: "placed s 0 xs m = m"
  by (simp add: placed_def)

lemma same_outside_placed: "same_outside (\<lambda>a. in_region a s n) m (placed s n xs m)"
  by (simp add: same_outside_def placed_def in_region_def)

lemma pointer_below_end:
  fixes s n :: u32
  assumes "unat s + unat n < 2 ^ 32" "unat s + j < 2 ^ 32"
  shows "s + of_nat j < s + n \<longleftrightarrow> j < unat n"
proof -
  have "j < 2 ^ 32" using assms(2) by simp
  then have "unat (of_nat j :: u32) = j" by (simp add: unat_of_nat take_bit_nat_eq_self)
  with assms have "unat (s + of_nat j) = unat s + j" "unat (s + n) = unat s + unat n"
    by (simp_all add: unat_word_ariths)
  then show ?thesis by (simp add: word_less_nat_alt)
qed

lemma putchar_placed:
  assumes "unat s + unat n < 2 ^ 32" "unat s + length xs < 2 ^ 32"
  shows "bound_string_putchar (s + n) c (placed s (unat n) xs m, s + of_nat (length xs))
    = (placed s (unat n) (xs @ [c]) m, s + of_nat (length (xs @ [c])))"
proof -
  have iff: "a = s + of_nat (length xs) \<longleftrightarrow> unat (a - s) = length xs" for a
    using assms(2) by (intro offset_eq_iff) simp
  have "(if length xs < unat n then (placed s (unat n) xs m)(s + of_nat (length xs) := c) else placed s (unat n) xs m)
      = placed s (unat n) (xs @ [c]) m"
    by (rule ext) (auto simp: placed_def iff nth_append less_Suc_eq)
  then show ?thesis
    using pointer_below_end [OF assms(1), of "length xs"] assms(2)
    by (simp add: bound_string_putchar_def ac_simps split: if_splits)
qed

section \<open>The fields of the conversions\<close>

text \<open>
  What an integer conversion writes, as the C standard lays it out: sign, prefix, zeros of
  the precision, digits; padded on the left with spaces, between prefix and digits with
  zeros if the zero flag counts (no precision, not left-justified), or on the right.
\<close>

definition integer_sign :: "u32 \<Rightarrow> u32 \<Rightarrow> u8 list" where
  "integer_sign flags number =
     (if bit flags 6 then if sint number < 0 then [ch (CHR ''-'')]
        else if bit flags 1 then [ch (CHR ''+'')] else if bit flags 2 then [ch (CHR '' '')] else []
      else [])"

definition integer_prefix :: "u32 \<Rightarrow> u8 \<Rightarrow> u8 list" where
  "integer_prefix flags base =
     (if bit flags 3 \<and> base \<noteq> 10
      then if base = 16 then [ch (CHR ''0''), if bit flags 5 then ch (CHR ''X'') else ch (CHR ''x'')] else [ch (CHR ''0'')]
      else [])"

definition integer_digits :: "u32 \<Rightarrow> u8 \<Rightarrow> u32 \<Rightarrow> u8 list" where
  "integer_digits flags base number =
     (let number = (if bit flags 6 \<and> sint number < 0 then - number else number) in
      if number = 0 then [ch (CHR ''0'')]
      else rev (reversed_digits (if bit flags 5 then upper_digits else lower_digits) (ucast base) number))"

definition integer_field :: "u32 \<Rightarrow> u8 \<Rightarrow> int \<Rightarrow> int \<Rightarrow> u32 \<Rightarrow> u8 list" where
  "integer_field number base width prescision flags =
     (let digits = integer_digits flags base number;
          zeros = replicate (nat (prescision - int (length digits))) (ch (CHR ''0''));
          front = integer_sign flags number @ integer_prefix flags base;
          pad = nat (width - int (length (front @ zeros @ digits)))
      in if bit flags 0 then front @ zeros @ digits @ replicate pad (ch (CHR '' ''))
         else if bit flags 4 \<and> prescision < 0 then front @ replicate pad (ch (CHR ''0'')) @ digits
         else replicate pad (ch (CHR '' '')) @ front @ zeros @ digits)"

lemma flag_bits [simp]:
  fixes w :: "'a::len word"
  shows "w AND LEFT_FLAG = 0 \<longleftrightarrow> \<not> bit w 0" "w AND PLUS_FLAG = 0 \<longleftrightarrow> \<not> bit w 1" "w AND SPACE_FLAG = 0 \<longleftrightarrow> \<not> bit w 2"
    "w AND ALT_FLAG = 0 \<longleftrightarrow> \<not> bit w 3" "w AND ZERO_FLAG = 0 \<longleftrightarrow> \<not> bit w 4" "w AND UPPER_FLAG = 0 \<longleftrightarrow> \<not> bit w 5"
    "w AND SIGNED_FLAG = 0 \<longleftrightarrow> \<not> bit w 6"
  using and_exp_eq_0_iff_not_bit [of w 0] and_exp_eq_0_iff_not_bit [of w 1] and_exp_eq_0_iff_not_bit [of w 2]
    and_exp_eq_0_iff_not_bit [of w 3] and_exp_eq_0_iff_not_bit [of w 4] and_exp_eq_0_iff_not_bit [of w 5]
    and_exp_eq_0_iff_not_bit [of w 6]
  by (simp_all add: LEFT_FLAG_def PLUS_FLAG_def SPACE_FLAG_def ALT_FLAG_def ZERO_FLAG_def UPPER_FLAG_def SIGNED_FLAG_def)

lemma zero_or_left [simp]: "(w :: u32) AND (ZERO_FLAG OR LEFT_FLAG) = 0 \<longleftrightarrow> \<not> bit w 0 \<and> \<not> bit w 4"
proof -
  have "w AND (ZERO_FLAG OR LEFT_FLAG) = 0 \<longleftrightarrow> w AND ZERO_FLAG = 0 \<and> w AND LEFT_FLAG = 0"
    by (simp only: bit.conj_disj_distrib or_eq_0_iff)
  then show ?thesis by auto
qed

lemma clear_zero_flag:
  "bit ((w :: u32) AND NOT ZERO_FLAG) i \<longleftrightarrow> bit w i \<and> i \<noteq> 4"
proof -
  have "(ZERO_FLAG :: u32) = 2 ^ 4" by (simp add: ZERO_FLAG_def)
  moreover have "bit ((2 :: u32) ^ 4) i \<longleftrightarrow> i = 4" unfolding bit_exp_iff by auto
  ultimately have "bit (ZERO_FLAG :: u32) i \<longleftrightarrow> i = 4" by metis
  then show ?thesis using bit_imp_le_length [of w i] by (auto simp: bit_simps)
qed

lemma put_sign: "(if c \<noteq> 0 then bound_string_putchar e c st else st) = put_list e (if c \<noteq> 0 then [c] else []) st"
  by simp

text \<open>The layout phase alone: everything after the sign, the digits and the prefix are known.\<close>

lemma layout_list:
  fixes w p :: int and sgn pre ds :: "u8 list"
  assumes "p = max prescision (int (length ds))" "w = width - int (length sgn) - p - int (length pre)"
    and "z \<longrightarrow> prescision < 0"
  shows "(let (w, st) = (if \<not> l \<and> \<not> z then put_while e (ch (CHR '' '')) 0 w st else (w, st));
        st = put_list e sgn st; st = put_list e pre st;
        (w, st) = (if \<not> l then put_while e (if z then ch (CHR ''0'') else ch (CHR '' '')) 0 w st else (w, st));
        (p, st) = put_while e (ch (CHR ''0'')) (int (length ds)) p st;
        st = put_list e ds st;
        (w, st) = put_while e (ch (CHR '' '')) 0 w st
      in st)
    = put_list e (let zeros = replicate (nat (prescision - int (length ds))) (ch (CHR ''0''));
          front = sgn @ pre; pad = nat (width - int (length (front @ zeros @ ds)))
      in if l then front @ zeros @ ds @ replicate pad (ch (CHR '' ''))
         else if z then front @ replicate pad (ch (CHR ''0'')) @ ds
         else replicate pad (ch (CHR '' '')) @ front @ zeros @ ds) st"
proof -
  have z0: "z \<Longrightarrow> nat (prescision - int (length ds)) = 0" using assms(3) by auto
  have zeros: "nat (p - int (length ds)) = nat (prescision - int (length ds))" using assms(1) by auto
  have pad: "nat w = nat (width - int (length ((sgn @ pre) @ replicate (nat (prescision - int (length ds))) (ch (CHR ''0'')) @ ds)))"
    unfolding assms(2,1) by (simp add: algebra_simps)
  show ?thesis
    unfolding Let_def pad [symmetric]
    by (cases l; cases z) (simp_all add: put_while_list zeros z0 del: of_char_Char)
qed

text \<open>The flags the code works on: a precision switches the zero flag off.\<close>

definition clamped_flags :: "int \<Rightarrow> u32 \<Rightarrow> u32" where
  "clamped_flags prescision flags = (if 0 \<le> prescision then flags AND NOT ZERO_FLAG else flags)"

lemma clamped_bits [simp]: "bit (clamped_flags prescision flags) i \<longleftrightarrow> bit flags i \<and> (i = 4 \<longrightarrow> prescision < 0)"
  by (auto simp: clamped_flags_def clear_zero_flag)

text \<open>The steps of the code in terms of the sign, the prefix and the digits.\<close>

lemma sign_step:
  "(if clamped_flags prescision flags AND SIGNED_FLAG \<noteq> 0
    then if sint number < 0 then (- number, ch (CHR ''-''), width - 1)
         else if clamped_flags prescision flags AND PLUS_FLAG \<noteq> 0 then (number, ch (CHR ''+''), width - 1)
         else if clamped_flags prescision flags AND SPACE_FLAG \<noteq> 0 then (number, ch (CHR '' ''), width - 1)
         else (number, 0, width)
    else (number, 0, width))
   = (if bit flags 6 \<and> sint number < 0 then - number else number,
      case integer_sign flags number of [] \<Rightarrow> 0 | c # _ \<Rightarrow> c, width - int (length (integer_sign flags number)))"
  by (simp add: integer_sign_def)

lemma put_sign_step:
  "(if (case integer_sign flags number of [] \<Rightarrow> 0 | c # _ \<Rightarrow> c) \<noteq> 0
    then bound_string_putchar e (case integer_sign flags number of [] \<Rightarrow> 0 | c # _ \<Rightarrow> c) st else st)
   = put_list e (integer_sign flags number) st"
  by (simp add: integer_sign_def)

lemma digits_step:
  "(if (if bit flags 6 \<and> sint number < 0 then - number else number) = 0 then [ch (CHR ''0'')]
    else reversed_digits (if clamped_flags prescision flags AND UPPER_FLAG \<noteq> 0 then upper_digits else lower_digits)
      (ucast base) (if bit flags 6 \<and> sint number < 0 then - number else number))
   = rev (integer_digits flags base number)"
  by (simp add: integer_digits_def Let_def)

lemma prefix_step:
  "(if clamped_flags prescision flags AND ALT_FLAG \<noteq> 0 \<and> base \<noteq> 10
    then if base = 16
         then bound_string_putchar e (if clamped_flags prescision flags AND UPPER_FLAG \<noteq> 0 then ch (CHR ''X'') else ch (CHR ''x''))
           (bound_string_putchar e (ch (CHR ''0'')) st)
         else bound_string_putchar e (ch (CHR ''0'')) st
    else st) = put_list e (integer_prefix flags base) st"
  "(if clamped_flags prescision flags AND ALT_FLAG \<noteq> 0 \<and> base \<noteq> 10 then if base = 16 then w - 1 - 1 else w - 1 else w)
   = w - int (length (integer_prefix flags base))"
  by (simp_all add: integer_prefix_def)

lemma padding_step:
  "clamped_flags prescision flags AND (ZERO_FLAG OR LEFT_FLAG) = 0 \<longleftrightarrow> \<not> bit flags 0 \<and> \<not> (bit flags 4 \<and> prescision < 0)"
  "clamped_flags prescision flags AND LEFT_FLAG = 0 \<longleftrightarrow> \<not> bit flags 0"
  "clamped_flags prescision flags AND ZERO_FLAG \<noteq> 0 \<longleftrightarrow> bit flags 4 \<and> prescision < 0"
  by simp_all

lemma format_integer_list:
  "bound_string_format_integer e number base width prescision flags st
    = put_list e (integer_field number base width prescision flags) st"
proof -
  let ?sgn = "integer_sign flags number" and ?pre = "integer_prefix flags base" and ?ds = "integer_digits flags base number"
  let ?w = "width - int (length ?sgn) - max prescision (int (length ?ds)) - int (length ?pre)"
  let ?z = "bit flags 4 \<and> prescision < 0"
  have body: "fold (\<lambda>i. bound_string_putchar e (rev ?ds ! i)) (rev [0..<length ?ds]) st = put_list e ?ds st" for st
    using fold_reversed [of e "rev ?ds"] by simp
  have p: "(if prescision < int (length ?ds) then int (length ?ds) else prescision) = max prescision (int (length ?ds))"
    by simp
  have "bound_string_format_integer e number base width prescision flags st =
    (let (w, st) = (if \<not> bit flags 0 \<and> \<not> ?z then put_while e (ch (CHR '' '')) 0 ?w st else (?w, st));
        st = put_list e ?sgn st; st = put_list e ?pre st;
        (w, st) = (if \<not> bit flags 0 then put_while e (if ?z then ch (CHR ''0'') else ch (CHR '' '')) 0 w st else (w, st));
        (p, st) = put_while e (ch (CHR ''0'')) (int (length ?ds)) (max prescision (int (length ?ds))) st;
        st = put_list e ?ds st;
        (w, st) = put_while e (ch (CHR '' '')) 0 w st
      in st)"
    unfolding bound_string_format_integer_def clamped_flags_def [symmetric] sign_step Let_def prod.case digits_step
    unfolding put_sign_step body length_rev p prefix_step padding_step
    by (rule refl)
  also have "\<dots> = put_list e (integer_field number base width prescision flags) st"
    unfolding integer_field_def Let_def [of ?ds] by (rule layout_list) auto
  finally show ?thesis .
qed

definition char_field :: "conversion \<Rightarrow> u8 \<Rightarrow> u8 list" where
  "char_field cv c =
     (let pad = replicate (nat (conv_width cv - 1)) (ch (CHR '' ''))
      in if bit (conv_flags cv) 0 then c # pad else pad @ [c])"

lemma convert_char_list: "convert_char e cv c st = put_list e (char_field cv c) st"
  by (cases "bit (conv_flags cv) 0"; cases "1 < conv_width cv")
    (simp_all add: convert_char_def char_field_def put_predec_list Let_def split del: if_split)

text \<open>The bytes of a string argument: up to its terminator, or the precision if that is less.\<close>

definition string_bytes :: "memory \<Rightarrow> u32 \<Rightarrow> u32 \<Rightarrow> u8 list" where
  "string_bytes m str count = map (\<lambda>i. m (str + of_nat i)) [0..<unat (bound_string_length m str count)]"

definition string_field :: "conversion \<Rightarrow> u8 list \<Rightarrow> u8 list" where
  "string_field cv xs =
     (let pad = replicate (nat (conv_width cv - int (length xs))) (ch (CHR '' ''))
      in if bit (conv_flags cv) 0 then xs @ pad else pad @ xs)"

lemma bound_string_length_loop_spec:
  assumes "unat len + unat count < 2 ^ 32"
  shows "\<exists>k \<le> unat count. bound_string_length_loop m str count len = len + of_nat k
    \<and> (\<forall>i < k. m (str + of_nat i) \<noteq> 0) \<and> (k < unat count \<longrightarrow> m (str + of_nat k) = 0)"
  using assms
proof (induction m str count len rule: bound_string_length_loop.induct)
  case (1 m str count len)
  show ?case
  proof (cases "m str \<noteq> 0 \<and> count \<noteq> 0")
    case True
    then have c: "unat (count - 1) = unat count - 1" "0 < unat count" by (simp_all add: unat_minus_one unat_gt_0)
    then have "unat (len + 1) = unat len + 1" using "1.prems" by (simp add: unat_word_ariths)
    with "1.IH" [OF True] "1.prems" c obtain k where k: "k \<le> unat count - 1"
      "bound_string_length_loop m (str + 1) (count - 1) (len + 1) = len + 1 + of_nat k"
      "\<forall>i < k. m (str + 1 + of_nat i) \<noteq> 0" "k < unat count - 1 \<longrightarrow> m (str + 1 + of_nat k) = 0" by auto
    have "\<forall>i < Suc k. m (str + of_nat i) \<noteq> 0"
      using True k(3) by (auto simp: less_Suc_eq_0_disj ac_simps)
    with k c True show ?thesis
      by (intro exI [of _ "Suc k"]) (auto simp: bound_string_length_loop.simps [of m str count] ac_simps)
  next
    case False
    have "unat count = 0 \<longleftrightarrow> count = 0" by (simp add: unat_eq_0)
    with False show ?thesis
      by (intro exI [of _ 0]) (auto simp: bound_string_length_loop.simps [of m str count])
  qed
qed

lemma bound_string_length_spec:
  "unat (bound_string_length m str count) \<le> unat count"
  "i < unat (bound_string_length m str count) \<Longrightarrow> m (str + of_nat i) \<noteq> 0"
  "unat (bound_string_length m str count) < unat count \<Longrightarrow> m (str + bound_string_length m str count) = 0"
proof -
  from bound_string_length_loop_spec [of 0 count m str] unat_lt_2p32 [of count] obtain k where
    k: "k \<le> unat count" "bound_string_length m str count = of_nat k" "\<forall>i < k. m (str + of_nat i) \<noteq> 0"
      "k < unat count \<longrightarrow> m (str + of_nat k) = 0"
    by (auto simp: bound_string_length_def)
  then have u: "unat (bound_string_length m str count) = k"
    using unat_lt_2p32 [of count] by (simp add: unat_of_nat take_bit_nat_eq_self)
  show "unat (bound_string_length m str count) \<le> unat count" using u k(1) by simp
  show "i < unat (bound_string_length m str count) \<Longrightarrow> m (str + of_nat i) \<noteq> 0" using u k(3) by simp
  show "unat (bound_string_length m str count) < unat count \<Longrightarrow> m (str + bound_string_length m str count) = 0"
    using u k(2,4) by simp
qed

text \<open>The length read from another memory that agrees on the string.\<close>

lemma bound_string_length_cong:
  assumes "\<And>i. i \<le> unat (bound_string_length m str count) \<Longrightarrow> m' (str + of_nat i) = m (str + of_nat i)"
  shows "bound_string_length m' str count = bound_string_length m str count"
proof -
  let ?k = "unat (bound_string_length m str count)" and ?k' = "unat (bound_string_length m' str count)"
  have "?k' = ?k"
  proof (cases ?k' ?k rule: linorder_cases)
    case less
    then have "?k' < unat count" using bound_string_length_spec(1) [of m str count] by linarith
    then have "m' (str + of_nat ?k') = 0" using bound_string_length_spec(3) [of m' str count] by simp
    moreover have "m (str + of_nat ?k') \<noteq> 0" using less by (rule bound_string_length_spec(2))
    ultimately show ?thesis using assms [of ?k'] less by simp
  next
    case greater
    then have "?k < unat count" using bound_string_length_spec(1) [of m' str count] by linarith
    then have "m (str + of_nat ?k) = 0" using bound_string_length_spec(3) [of m str count] by simp
    moreover have "m' (str + of_nat ?k) \<noteq> 0" using greater by (rule bound_string_length_spec(2))
    ultimately show ?thesis using assms [of ?k] by simp
  qed
  then show ?thesis by (simp add: word_unat_eq_iff)
qed

text \<open>What a directive writes and where the next argument is, from the memory before the call.\<close>

definition conversion_field :: "memory \<Rightarrow> (nat \<Rightarrow> u32) \<Rightarrow> u8 \<Rightarrow> conversion \<Rightarrow> nat \<Rightarrow> u8 list" where
  "conversion_field m args c cv k =
     (if c = ch (CHR ''%'') then [c]
      else if c = ch (CHR ''c'') then char_field cv (ucast (args k))
      else if c = ch (CHR ''s'') then string_field cv (string_bytes m (args k) (word_of_int (conv_prescision cv)))
      else if c = ch (CHR ''p'')
      then if conv_width cv = -1 then integer_field (args k) 16 8 (conv_prescision cv) (ucast (conv_flags cv OR ZERO_FLAG))
           else integer_field (args k) 16 (conv_width cv) (conv_prescision cv) (ucast (conv_flags cv))
      else (case integer_conversion c of
              Some (base, extra) \<Rightarrow> integer_field (integer_argument (conv_qualifier cv) (conv_flags cv OR extra) (args k)) base
                (conv_width cv) (conv_prescision cv) (ucast (conv_flags cv OR extra))
            | None \<Rightarrow> []))"

definition conversion_next :: "u8 \<Rightarrow> nat \<Rightarrow> nat" where
  "conversion_next c k =
     (if c \<noteq> ch (CHR ''%'') \<and> (c = ch (CHR ''c'') \<or> c = ch (CHR ''s'') \<or> c = ch (CHR ''p'') \<or> integer_conversion c \<noteq> None)
      then k + 1 else k)"

lemma convert_list:
  assumes "c \<noteq> ch (CHR ''s'')"
  shows "convert e args c cv k st = (conversion_next c k, put_list e (conversion_field m args c cv k) st)"
  using assms unfolding convert_def conversion_field_def conversion_next_def
  by (auto simp: convert_char_list format_integer_list Let_def integer_conversion_def del: of_char_Char split: option.split)

section \<open>What a format renders to\<close>

text \<open>
  \<open>renders R m args format k xs\<close>: from \<open>format\<close> on, with \<open>args k\<close> the next argument, the
  output is \<open>xs\<close>, and nothing that is read lies in the region \<open>R\<close>: neither the format, nor a
  specification (it parses the same whatever \<open>R\<close> holds), nor a string argument.
\<close>

inductive renders :: "(u32 \<Rightarrow> bool) \<Rightarrow> memory \<Rightarrow> (nat \<Rightarrow> u32) \<Rightarrow> u32 \<Rightarrow> nat \<Rightarrow> u8 list \<Rightarrow> bool" for R m args where
  stop: "\<not> R f \<Longrightarrow> m f = 0 \<Longrightarrow> renders R m args f k []"
| plain: "\<not> R f \<Longrightarrow> m f \<noteq> 0 \<Longrightarrow> m f \<noteq> ch (CHR ''%'') \<Longrightarrow> renders R m args (f + 1) k xs \<Longrightarrow> renders R m args f k (m f # xs)"
| conv: "\<not> R f \<Longrightarrow> m f = ch (CHR ''%'')
    \<Longrightarrow> (\<And>m'. same_outside R m m' \<Longrightarrow> parse_conversion m' args f k = Some (g, cv, j)) \<Longrightarrow> \<not> R g
    \<Longrightarrow> (\<And>i. m g = ch (CHR ''s'') \<Longrightarrow> i \<le> length (string_bytes m (args j) (word_of_int (conv_prescision cv)))
          \<Longrightarrow> \<not> R (args j + of_nat i))
    \<Longrightarrow> renders R m args (g + 1) (conversion_next (m g) j) xs
    \<Longrightarrow> renders R m args f k (conversion_field m args (m g) cv j @ xs)"

lemma renders_mono:
  assumes "renders R m args f k xs" "\<And>a. R' a \<Longrightarrow> R a"
  shows "renders R' m args f k xs"
  using assms(1)
proof (induction rule: renders.induct)
  case (stop f k)
  then show ?case using assms(2) by (intro renders.stop) auto
next
  case (plain f k xs)
  then show ?case using assms(2) by (intro renders.plain) auto
next
  case (conv f k g cv j xs)
  show ?case
  proof (rule renders.conv)
    show "parse_conversion m' args f k = Some (g, cv, j)" if "same_outside R' m m'" for m'
      using that assms(2) by (intro conv.hyps(3) same_outside_mono [OF that]) auto
  qed (use conv assms(2) in blast)+
qed

text \<open>A format and its arguments stand for one text only.\<close>

inductive_cases renders_endE: "renders R m args f k []"
inductive_cases rendersE: "renders R m args f k xs"

lemma renders_unique: "renders R m args f k xs \<Longrightarrow> renders R m args f k ys \<Longrightarrow> xs = ys"
proof (induction arbitrary: ys rule: renders.induct)
  case (stop f k)
  from stop.prems show ?case by (rule rendersE) (simp_all add: stop.hyps)
next
  case (plain f k xs)
  from plain.prems show ?case by (rule rendersE) (use plain.hyps(2,3) in \<open>simp_all add: plain.IH\<close>)
next
  case (conv f k g cv j xs)
  have parse: "parse_conversion m args f k = Some (g, cv, j)" by (rule conv.hyps(3)) simp
  from conv.prems show ?case
  proof (rule rendersE)
    fix g' cv' j' zs
    assume "\<And>m'. same_outside R m m' \<Longrightarrow> parse_conversion m' args f k = Some (g', cv', j')"
      and ys: "ys = conversion_field m args (m g') cv' j' @ zs" "renders R m args (g' + 1) (conversion_next (m g') j') zs"
    from this(1) [of m] parse have "g' = g" "cv' = cv" "j' = j" by simp_all
    with ys conv.IH [of zs] show ?thesis by simp
  qed (simp_all add: conv.hyps(2))
qed

text \<open>An empty text is the empty format's, or an empty field's with nothing behind it.\<close>

lemma renders_nothing:
  assumes "renders R m args f k []"
  shows "m f = 0 \<or> m f = ch (CHR ''%'')"
  using assms by (rule renders_endE) simp_all

section \<open>Where the output goes\<close>

text \<open>
  What the formatting code needs of its destination: \<open>state xs\<close> is the memory and the
  pointer after the bytes \<open>xs\<close>, one more \<open>bound_string_putchar\<close> appends a byte as long as
  the output is \<open>ok\<close> (not too long), and only the region \<open>R\<close> differs from the memory \<open>m\<close>
  before the call.
\<close>

locale output_sink =
  fixes e :: u32 and R :: "u32 \<Rightarrow> bool" and m :: memory and state :: "u8 list \<Rightarrow> memory \<times> u32"
    and ok :: "u8 list \<Rightarrow> bool"
  assumes put: "ok (xs @ [c]) \<Longrightarrow> bound_string_putchar e c (state xs) = state (xs @ [c])"
    and reads: "same_outside R m (fst (state xs))"
    and prefix: "ok (xs @ ys) \<Longrightarrow> ok xs"
begin

lemma read: "\<not> R a \<Longrightarrow> fst (state xs) a = m a"
  using reads by (rule same_outsideD)

lemma put_list_state: "ok (xs @ ys) \<Longrightarrow> put_list e ys (state xs) = state (xs @ ys)"
proof (induction ys arbitrary: xs)
  case (Cons y ys)
  then have "put_list e ys (state (xs @ [y])) = state ((xs @ [y]) @ ys)" by (intro Cons.IH) simp
  moreover have "ok (xs @ [y])" using prefix [of "xs @ [y]" ys] Cons.prems by simp
  ultimately show ?case by (simp add: put)
qed simp

text \<open>Copying a string that the output does not overlap.\<close>

lemma copy_state:
  assumes "ok (xs @ map (\<lambda>i. m (str + of_nat i)) [0..<unat len])" "\<And>i. i < unat len \<Longrightarrow> \<not> R (str + of_nat i)"
  shows "for_loop len (\<lambda>i st. bound_string_putchar e (fst st (str + i)) st) (state xs)
    = state (xs @ map (\<lambda>i. m (str + of_nat i)) [0..<unat len])"
proof -
  let ?bs = "\<lambda>j. map (\<lambda>i. m (str + of_nat i)) [0..<j]"
  have "for_loop len (\<lambda>i st. bound_string_putchar e (fst st (str + i)) st) (state xs) = state (xs @ ?bs (unat len))"
  proof (rule for_loop_invariant [where P = "\<lambda>j st. st = state (xs @ ?bs j)"])
    fix j st
    assume j: "j < unat len" and st: "st = state (xs @ ?bs j)"
    have "[0..<unat len] = [0..<Suc j] @ [Suc j..<unat len]"
      using j by (metis Suc_leI le0 upt_add_eq_append le_add_diff_inverse)
    then have "ok ((xs @ ?bs (Suc j)) @ map (\<lambda>i. m (str + of_nat i)) [Suc j..<unat len])" using assms(1) by simp
    then have "ok (xs @ ?bs (Suc j))" by (rule prefix)
    then have "bound_string_putchar e (m (str + of_nat j)) st = state (xs @ ?bs (Suc j))"
      unfolding st using put [of "xs @ ?bs j"] by simp
    then show "bound_string_putchar e (fst st (str + of_nat j)) st = state (xs @ ?bs (Suc j))"
      using read [OF assms(2) [OF j]] st by simp
  qed simp
  then show ?thesis .
qed

lemma convert_string_state:
  assumes "ok (xs @ string_field cv bs)" "length bs < 2 ^ 31" "\<And>i. i \<le> length bs \<Longrightarrow> \<not> R (str + of_nat i)"
    and bs: "bs = string_bytes m str (word_of_int (conv_prescision cv))"
  shows "convert_string e cv str (state xs) = state (xs @ string_field cv bs)"
proof -
  let ?len = "bound_string_length m str (word_of_int (conv_prescision cv))"
  let ?pad = "replicate (nat (conv_width cv - int (length bs))) (ch (CHR '' ''))"
  have len: "unat ?len = length bs" by (simp add: bs string_bytes_def)
  have l: "bound_string_length (fst (state xs)) str (word_of_int (conv_prescision cv)) = ?len"
    using read assms(3) len by (intro bound_string_length_cong) simp
  have "sint ?len = uint ?len" using assms(2) len by (intro sint_small) simp
  then have si: "sint ?len = int (length bs)" by (simp only: uint_nat len)
  have bs': "bs = map (\<lambda>i. m (str + of_nat i)) [0..<unat ?len]" by (simp only: bs string_bytes_def)
  have copy: "for_loop ?len (\<lambda>i st. bound_string_putchar e (fst st (str + i)) st) (state zs) = state (zs @ bs)" if "ok (zs @ bs)" for zs
    using copy_state [of zs str ?len, folded bs'] that len assms(3) by simp
  have z: "nat ((if int (length bs) < conv_width cv then sint ?len - 1 else conv_width cv - 1) - int (length bs)) = 0"
    using si by auto
  show ?thesis
  proof (cases "bit (conv_flags cv) 0")
    case True
    then have "ok ((xs @ bs) @ ?pad)" using assms(1) by (simp add: string_field_def Let_def)
    from copy [OF prefix [OF this]] put_list_state [OF this] show ?thesis
      using True unfolding convert_string_def Let_def l put_while_list si prod.case
      by (simp add: string_field_def Let_def del: of_char_Char)
  next
    case False
    then have "ok ((xs @ ?pad) @ bs)" using assms(1) by (simp add: string_field_def Let_def)
    from copy [OF this] put_list_state [OF prefix [OF this]] show ?thesis
      using False unfolding convert_string_def Let_def l put_while_list si prod.case
      by (simp add: z [unfolded si] string_field_def Let_def del: of_char_Char)
  qed
qed

lemma convert_state:
  assumes "ok (xs @ conversion_field m args c cv k)" "length (conversion_field m args c cv k) < 2 ^ 31"
    and "\<And>i. c = ch (CHR ''s'') \<Longrightarrow> i \<le> length (string_bytes m (args k) (word_of_int (conv_prescision cv))) \<Longrightarrow> \<not> R (args k + of_nat i)"
  shows "convert e args c cv k (state xs) = (conversion_next c k, state (xs @ conversion_field m args c cv k))"
proof (cases "c = ch (CHR ''s'')")
  case False
  then show ?thesis using convert_list [OF False, of e args cv k _ m] put_list_state [OF assms(1)] by simp
next
  case True
  let ?bs = "string_bytes m (args k) (word_of_int (conv_prescision cv))"
  have f: "conversion_field m args c cv k = string_field cv ?bs" and nx: "conversion_next c k = k + 1"
    using True by (simp_all add: conversion_field_def conversion_next_def)
  have cv: "convert e args c cv k st = (k + 1, convert_string e cv (args k) st)" for st
    using True by (simp add: convert_def)
  have "length ?bs \<le> length (string_field cv ?bs)" by (simp add: string_field_def Let_def)
  then have "convert_string e cv (args k) (state xs) = state (xs @ string_field cv ?bs)"
    using assms f True by (intro convert_string_state) auto
  then show ?thesis unfolding cv nx f by simp
qed

lemma loop_renders:
  assumes "renders R m args f k ys" "ok (xs @ ys)" "length ys < 2 ^ 31"
  shows "vsnprintf_loop e args f k (state xs) = Some (state (xs @ ys))"
  using assms
proof (induction arbitrary: xs rule: renders.induct)
  case (stop f k)
  then show ?case using read [of f xs] by (simp add: vsnprintf_loop.simps)
next
  case (plain f k ys)
  have "ok (xs @ [m f])" using prefix [of "xs @ [m f]" ys] plain.prems(1) by simp
  moreover have "vsnprintf_loop e args (f + 1) k (state (xs @ [m f])) = Some (state ((xs @ [m f]) @ ys))"
    using plain.prems by (intro plain.IH) auto
  ultimately show ?case
    using plain.hyps read [of f xs] put [of xs "m f"]
    by (simp add: vsnprintf_loop.simps [of _ _ f] Let_def del: of_char_Char)
next
  case (conv f k g cv j ys)
  let ?fld = "conversion_field m args (m g) cv j"
  have "ok ((xs @ ?fld) @ ys)" using conv.prems(1) by simp
  then have "convert e args (m g) cv j (state xs) = (conversion_next (m g) j, state (xs @ ?fld))"
    using conv.prems(2) by (intro convert_state conv.hyps(5) prefix [OF \<open>ok ((xs @ ?fld) @ ys)\<close>]) auto
  moreover have "vsnprintf_loop e args (g + 1) (conversion_next (m g) j) (state (xs @ ?fld)) = Some (state ((xs @ ?fld) @ ys))"
    using conv.prems by (intro conv.IH) auto
  moreover have "parse_conversion (fst (state xs)) args f k = Some (g, cv, j)"
    by (rule conv.hyps(3)) (rule reads)
  ultimately show ?case
    using conv.hyps(1,2,4) read [of f xs] read [of g xs] by (simp add: vsnprintf_loop.simps [of _ _ f] Let_def)
qed

end

text \<open>A buffer of \<open>n\<close> bytes that ends below the top of the address space.\<close>

interpretation buffer: output_sink "s + n" "\<lambda>a. in_region a s (unat n)" m
    "\<lambda>xs. (placed s (unat n) xs m, s + of_nat (length xs))" "\<lambda>xs. unat s + unat n < 2 ^ 32 \<and> unat s + length xs \<le> 2 ^ 32"
  for s n m
proof unfold_locales
  show "bound_string_putchar (s + n) c (placed s (unat n) xs m, s + of_nat (length xs))
      = (placed s (unat n) (xs @ [c]) m, s + of_nat (length (xs @ [c])))"
    if "unat s + unat n < 2 ^ 32 \<and> unat s + length (xs @ [c]) \<le> 2 ^ 32" for xs c
    using that by (intro putchar_placed) auto
qed (auto simp: same_outside_placed)

text \<open>The bound of \<open>vsprintf\<close>: \<open>SIZE_MAX\<close> bytes from \<open>s\<close> wrap around to the byte before \<open>s\<close>.\<close>

interpretation wrapped: output_sink "s + SIZE_MAX" "\<lambda>_. False" m "\<lambda>xs. (m, s + of_nat (length xs))"
    "\<lambda>xs. 0 < unat s \<and> unat s + length xs \<le> 2 ^ 32"
  for s m
proof unfold_locales
  show "bound_string_putchar (s + SIZE_MAX) c (m, s + of_nat (length xs)) = (m, s + of_nat (length (xs @ [c])))"
    if "0 < unat s \<and> unat s + length (xs @ [c]) \<le> 2 ^ 32" for xs c
  proof -
    have "unat (of_nat (length xs) :: u32) = length xs"
      using that by (simp add: unat_of_nat take_bit_nat_eq_self)
    then have "unat (s + of_nat (length xs)) = unat s + length xs" using that by (simp add: unat_word_ariths)
    moreover have e: "s + SIZE_MAX = s - 1" by (simp add: SIZE_MAX_def)
    moreover have "unat (s - 1) = unat s - 1" using that by (simp add: unat_minus_one unat_gt_0)
    ultimately have "\<not> s + of_nat (length xs) < s + SIZE_MAX" unfolding e by (simp add: word_less_nat_alt)
    then show ?thesis by (simp add: bound_string_putchar_def ac_simps)
  qed
qed auto

section \<open>Lemmas: digits\<close>

definition digit_value :: "u8 \<Rightarrow> nat" where
  "digit_value c = (if c \<le> ch (CHR ''9'') then unat (c - ch (CHR ''0''))
     else if c \<le> ch (CHR ''F'') then unat (c - ch (CHR ''A'')) + 10 else unat (c - ch (CHR ''a'')) + 10)"

text \<open>The number a list of digits, most significant first, stands for.\<close>

definition digits_value :: "nat \<Rightarrow> u8 list \<Rightarrow> nat" where
  "digits_value base xs = foldl (\<lambda>v c. v * base + digit_value c) 0 xs"

lemma digit_value_table:
  "d < 16 \<Longrightarrow> digit_value (upper_digits ! d) = d" "d < 16 \<Longrightarrow> digit_value (lower_digits ! d) = d"
proof -
  let ?P = "\<lambda>d. digit_value (upper_digits ! d) = d \<and> digit_value (lower_digits ! d) = d"
  have "\<forall>d \<in> set [0, 1, 2, 3, 4, 5, 6, 7, 8, 9, 10, 11, 12, 13, 14, 15]. ?P d"
    by (simp add: digit_value_def upper_digits_def lower_digits_def)
  moreover have "d \<in> set [0, 1, 2, 3, 4, 5, 6, 7, 8, 9, 10, 11, 12, 13, 14, 15]" if "d < 16" for d :: nat
    using that by simp arith
  ultimately have "?P d" if "d < 16" for d using that by blast
  then show "d < 16 \<Longrightarrow> digit_value (upper_digits ! d) = d" "d < 16 \<Longrightarrow> digit_value (lower_digits ! d) = d"
    by simp_all
qed

lemma reversed_digits_value:
  assumes "1 < unat base" "unat base \<le> 16" "ds = upper_digits \<or> ds = lower_digits"
  shows "digits_value (unat base) (rev (reversed_digits ds base number)) = unat number"
  using assms
proof (induction ds base number rule: reversed_digits.induct)
  case (1 ds base number)
  show ?case
  proof (cases "number = 0")
    case True
    then show ?thesis by (simp add: reversed_digits.simps [of ds base] digits_value_def)
  next
    case False
    have b: "\<not> base < 2" using "1.prems"(1) by (simp add: word_less_nat_alt not_less)
    have m: "unat (number mod base) = unat number mod unat base" "unat (number div base) = unat number div unat base"
      by (simp_all add: unat_mod unat_div)
    have "digit_value (ds ! unat (number mod base)) = unat number mod unat base"
    proof -
      have "unat number mod unat base < unat base" using "1.prems"(1) by (intro mod_less_divisor) simp
      then have "unat number mod unat base < 16" using "1.prems"(2) by linarith
      then show ?thesis using "1.prems"(3) digit_value_table unfolding m by auto
    qed
    moreover have "digits_value (unat base) (rev (reversed_digits ds base (number div base))) = unat number div unat base"
      using "1.IH" "1.prems" False b m by simp
    ultimately show ?thesis
      using False b by (simp add: reversed_digits.simps [of ds base number] digits_value_def)
  qed
qed

lemma reversed_digits_length:
  assumes "1 < unat base" "unat number < unat base ^ k"
  shows "length (reversed_digits ds base number) \<le> k"
  using assms
proof (induction ds base number arbitrary: k rule: reversed_digits.induct)
  case (1 ds base number)
  show ?case
  proof (cases "number = 0")
    case True
    then show ?thesis by (simp add: reversed_digits.simps [of ds base])
  next
    case False
    have b: "\<not> base < 2" using "1.prems"(1) by (simp add: word_less_nat_alt not_less)
    have "0 < unat number" using False by (simp add: unat_gt_0)
    then obtain j where k: "k = Suc j" using "1.prems"(2) by (cases k) auto
    have "unat (number div base) < unat base ^ j"
      using "1.prems" unfolding k unat_div by (simp add: less_mult_imp_div_less mult.commute)
    with "1.IH" "1.prems"(1) False b k show ?thesis
      by (simp add: reversed_digits.simps [of ds base number])
  qed
qed

lemma reversed_digits_nonempty: "number \<noteq> 0 \<Longrightarrow> \<not> base < 2 \<Longrightarrow> reversed_digits ds base number \<noteq> []"
  by (simp add: reversed_digits.simps)

lemma integer_digits_value:
  assumes "base = 8 \<or> base = 10 \<or> base = 16"
  shows "digits_value (unat base) (integer_digits flags base number)
      = unat (if bit flags 6 \<and> sint number < 0 then - number else number)"
    "integer_digits flags base number \<noteq> []" "length (integer_digits flags base number) \<le> 11"
proof -
  define n where "n = (if bit flags 6 \<and> sint number < 0 then - number else number)"
  define ds where "ds = (if bit flags 5 then upper_digits else lower_digits)"
  have u: "unat (ucast base :: u32) = unat base" using assms by auto
  have b: "1 < unat (ucast base :: u32)" "unat (ucast base :: u32) \<le> 16" "\<not> (ucast base :: u32) < 2"
    using assms by auto
  have d: "integer_digits flags base number = (if n = 0 then [ch (CHR ''0'')] else rev (reversed_digits ds (ucast base) n))"
    unfolding integer_digits_def Let_def n_def ds_def ..
  have "digits_value (unat base) (rev (reversed_digits ds (ucast base) n)) = unat n"
    using reversed_digits_value [OF b(1,2), of ds n] u by (simp add: ds_def)
  moreover have "digits_value (unat base) [ch (CHR ''0'')] = 0" by (simp add: digits_value_def digit_value_def)
  ultimately show "digits_value (unat base) (integer_digits flags base number)
      = unat (if bit flags 6 \<and> sint number < 0 then - number else number)"
    unfolding d n_def [symmetric] by (cases "n = 0") simp_all
  show "integer_digits flags base number \<noteq> []"
    unfolding d using reversed_digits_nonempty [OF _ b(3), of n ds] by auto
  have "(8 :: nat) ^ 11 \<le> unat base ^ 11" using assms by (intro power_mono) auto
  moreover have "unat n < 2 ^ 32" using unat_lt_2p32 [of n] by simp
  ultimately have "unat n < unat (ucast base :: u32) ^ 11" using u by simp
  from reversed_digits_length [OF b(1) this, of ds] show "length (integer_digits flags base number) \<le> 11"
    unfolding d by simp
qed

section \<open>Lemmas: simple directives and reading numbers back\<close>

text \<open>A \<open>%\<close> directly followed by a conversion character, or by the end of the format.\<close>

definition simple_conversion :: conversion where
  "simple_conversion = \<lparr>conv_flags = 0, conv_width = -1, conv_prescision = -1, conv_qualifier = -1\<rparr>"

definition special :: "u8 \<Rightarrow> bool" where
  "special c \<longleftrightarrow> isdigit c \<or> c \<in> set (map of_char ''#+ -*.hlL'')"

lemma parse_simple:
  assumes "\<not> special (m (f + 1))"
  shows "parse_conversion m args f k = Some (f + 1, simple_conversion, k)"
proof -
  have c: "m (f + 1) \<noteq> ch (CHR ''#'')" "m (f + 1) \<noteq> ch (CHR ''0'')" "m (f + 1) \<noteq> ch (CHR ''+'')" "m (f + 1) \<noteq> ch (CHR '' '')"
    "m (f + 1) \<noteq> ch (CHR ''-'')" "m (f + 1) \<noteq> ch (CHR ''*'')" "m (f + 1) \<noteq> ch (CHR ''.'')" "m (f + 1) \<noteq> ch (CHR ''h'')"
    "m (f + 1) \<noteq> ch (CHR ''l'')" "m (f + 1) \<noteq> ch (CHR ''L'')" "\<not> isdigit (m (f + 1))"
    using assms by (auto simp: special_def isdigit_def)
  have "parse_flags m f 0 = Some (f + 1, 0)"
    using c by (simp add: parse_flags.simps Let_def)
  with c show ?thesis
    by (simp add: parse_conversion_def adjust_flags_def parse_width_def parse_prescision_def parse_qualifier_def
        simple_conversion_def Let_def)
qed

lemma renders_simple:
  assumes "\<not> R f" "\<not> R (f + 1)" "m f = ch (CHR ''%'')" "\<not> special (m (f + 1))" "m (f + 1) \<noteq> ch (CHR ''s'')"
    and "renders R m args (f + 2) (conversion_next (m (f + 1)) k) xs"
  shows "renders R m args f k (conversion_field m args (m (f + 1)) simple_conversion k @ xs)"
proof (rule renders.conv [of R f m args k "f + 1" simple_conversion k xs])
  show "parse_conversion m' args f k = Some (f + 1, simple_conversion, k)" if "same_outside R m m'" for m'
    using that assms(2,4) by (intro parse_simple) (simp add: same_outside_def)
qed (use assms in \<open>simp_all add: add.assoc\<close>)

lemma decimal_digits:
  assumes "ds = upper_digits \<or> ds = lower_digits"
  shows "\<forall>c \<in> set (reversed_digits ds 10 number). isdigit c"
  using assms
proof (induction ds "10 :: u32" number rule: reversed_digits.induct)
  case (1 ds number)
  have t: "\<forall>d \<in> set [0, 1, 2, 3, 4, 5, 6, 7, 8, 9 :: nat]. isdigit (upper_digits ! d) \<and> isdigit (lower_digits ! d)"
    by (simp add: isdigit_def upper_digits_def lower_digits_def)
  have "unat (number mod 10) < 10" by (simp add: unat_mod)
  then have "unat (number mod 10) \<in> set [0, 1, 2, 3, 4, 5, 6, 7, 8, 9]" by simp arith
  with t "1.prems" have "isdigit (ds ! unat (number mod 10))" by blast
  with 1 show ?case by (auto simp: reversed_digits.simps [of ds 10 number])
qed

lemma integer_digits_decimal: "c \<in> set (integer_digits flags 10 number) \<Longrightarrow> isdigit c"
  using decimal_digits by (auto simp: integer_digits_def isdigit_def Let_def split: if_splits)

lemma parse_int_loop_digits:
  assumes "\<And>i. i < length xs \<Longrightarrow> m (s + of_nat i) = xs ! i" "\<forall>c \<in> set xs. isdigit c" "\<not> isdigit (m (s + of_nat (length xs)))"
  shows "parse_int_loop m s v = Some (s + of_nat (length xs), foldl (\<lambda>v c. v * 10 + (uint c - 48)) v xs)"
  using assms
proof (induction xs arbitrary: s v)
  case Nil
  then show ?case by (simp add: parse_int_loop.simps [of m s])
next
  case (Cons x xs)
  have x: "m s = x" "isdigit x" using Cons.prems(1) [of 0] Cons.prems(2) by simp_all
  have "m (s + 1 + of_nat i) = xs ! i" if "i < length xs" for i
    using Cons.prems(1) [of "Suc i"] that by (simp add: ac_simps)
  then have "parse_int_loop m (s + 1) (v * 10 + (uint x - 48))
      = Some (s + 1 + of_nat (length xs), foldl (\<lambda>v c. v * 10 + (uint c - 48)) (v * 10 + (uint x - 48)) xs)"
    using Cons.prems(2,3) by (intro Cons.IH) (simp_all add: ac_simps)
  moreover have "uint (ch (CHR ''0'')) = 48" by simp
  ultimately show ?case
    using x unfolding parse_int_loop.simps [of m s] by (simp add: ac_simps)
qed

lemma foldl_digits:
  assumes "\<forall>c \<in> set xs. isdigit c"
  shows "foldl (\<lambda>v c. v * 10 + (uint c - 48)) (int v) xs = int (foldl (\<lambda>v c. v * 10 + digit_value c) v xs)"
  using assms
proof (induction xs arbitrary: v)
  case (Cons x xs)
  have d: "48 \<le> x" "x \<le> 57" using Cons.prems by (simp_all add: isdigit_def)
  then have "uint (x - 48) = uint x - 48" by (simp add: uint_minus_simple_alt)
  then have "int (digit_value x) = uint x - 48" using d by (simp add: digit_value_def uint_nat [symmetric])
  then have "int v * 10 + (uint x - 48) = int (v * 10 + digit_value x)" by simp
  with Cons.IH [of "v * 10 + digit_value x"] Cons.prems show ?case by simp
qed simp

section \<open>Properties\<close>

lemma placed_terminated:
  assumes "0 < n" and that: "n < 2 ^ 32"
  shows "(if length xs < n then placed s n (xs @ [0]) m else (placed s n xs m)(s + of_nat n - 1 := 0))
    = placed s n (take (n - 1) xs @ [0]) m"
proof (cases "length xs < n")
  case False
  have e: "s + of_nat n - 1 = s + of_nat (n - 1)" using assms by (simp add: of_nat_diff)
  have last: "a = s + of_nat (n - 1) \<longleftrightarrow> unat (a - s) = n - 1" for a
    using that by (intro offset_eq_iff) simp
  have "(placed s n xs m)(s + of_nat (n - 1) := 0) = placed s n (take (n - 1) xs @ [0]) m"
    using False assms(1) by (intro ext) (simp only: fun_upd_def last, auto simp: placed_def nth_append)
  then show ?thesis using False unfolding e by (simp only: if_False)
qed simp

lemma vsnprintf_output:
  assumes "renders (\<lambda>a. in_region a s (unat n)) m args format 0 xs"
    and "unat s + unat n < 2 ^ 32" "unat s + length xs < 2 ^ 32" "length xs < 2 ^ 31"
  shows "vsnprintf m s n format args
    = Some (int (length xs), if n = 0 then m else placed s (unat n) (take (unat n - 1) xs @ [0]) m)"
proof -
  have "vsnprintf_loop (s + n) args format 0 (m, s) = Some (placed s (unat n) xs m, s + of_nat (length xs))"
    using buffer.loop_renders [OF assms(1), of "[]"] assms(2-4) by simp
  moreover have "sint (s + of_nat (length xs) - s) = int (length xs)"
    using assms(4) by (simp add: sint_uint signed_take_bit_int_eq_self uint_nat unat_of_nat take_bit_nat_eq_self)
  moreover have "s + of_nat (length xs) < s + n \<longleftrightarrow> length xs < unat n"
    using assms(2,3) by (rule pointer_below_end)
  moreover have "(placed s (unat n) xs m)(s + of_nat (length xs) := 0) = placed s (unat n) (xs @ [0]) m" if "length xs < unat n"
    using putchar_placed [OF assms(2,3), of 0] pointer_below_end [OF assms(2,3)] that by (simp add: bound_string_putchar_def)
  moreover have "n = 0 \<longleftrightarrow> unat n = 0" "0 < n \<longleftrightarrow> 0 < unat n"
    by (simp_all add: unat_eq_0 word_less_nat_alt)
  ultimately show ?thesis
    using placed_terminated [of "unat n" xs s m] unat_lt_2p32 [of n] by (auto simp: vsnprintf_def)
qed

text \<open>C34: \<open>vsnprintf\<close> returns the length of the complete output, and puts into the buffer the
  output cut to \<open>n - 1\<close> bytes with its terminator, and nothing anywhere else. What the output is
  (\<open>renders\<close>) does not depend on \<open>n\<close>, as the format and the string arguments do not overlap
  the buffer.\<close>

theorem vsnprintf_correct:
  assumes "renders (\<lambda>a. in_region a s (unat n)) m args format 0 xs"
    and "unat s + unat n < 2 ^ 32" "unat s + length xs < 2 ^ 32" "length xs < 2 ^ 31"
  shows "vsnprintf m s n format args
    = Some (int (length xs), if n = 0 then m else placed s (unat n) (take (unat n - 1) xs @ [0]) m)"
  using assms by (rule vsnprintf_output)

text \<open>An integer conversion writes the field of the C standard: it is at least as wide as
  asked, its digits denote the magnitude of the number in the base, and they fit the
  23 bytes of \<open>reversed_buffer\<close>.\<close>

theorem format_integer_correct:
  assumes "base = 8 \<or> base = 10 \<or> base = 16"
  shows "bound_string_format_integer e number base width prescision flags st
      = put_list e (integer_field number base width prescision flags) st
    \<and> int (length (integer_field number base width prescision flags))
      = max width (int (length (integer_sign flags number @ integer_prefix flags base))
          + max prescision (int (length (integer_digits flags base number))))
    \<and> digits_value (unat base) (integer_digits flags base number)
      = unat (if bit flags 6 \<and> sint number < 0 then - number else number)
    \<and> length (integer_digits flags base number) \<le> 23"
proof (intro conjI)
  show "int (length (integer_field number base width prescision flags))
      = max width (int (length (integer_sign flags number @ integer_prefix flags base))
          + max prescision (int (length (integer_digits flags base number))))"
    by (auto simp: integer_field_def Let_def)
  show "length (integer_digits flags base number) \<le> 23"
    using integer_digits_value(3) [OF assms, of flags number] by simp
qed (rule format_integer_list integer_digits_value(1) [OF assms])+


lemma vsnprintf_correct_witness:
  "\<exists>m format args. vsnprintf m 0x200 2 format args = Some (2, placed 0x200 2 [ch (CHR ''4''), 0] m)"
proof -
  define m :: memory where "m = (\<lambda>_. 0)(0x100 := ch (CHR ''%''), 0x101 := ch (CHR ''u''))"
  have "integer_field 42 10 (-1) (-1) 0 = [ch (CHR ''4''), ch (CHR ''2'')]"
    by (simp add: integer_field_def integer_sign_def integer_prefix_def integer_digits_def reversed_digits.simps
        lower_digits_def Let_def)
  moreover have "renders (\<lambda>a. in_region a 0x200 (unat (2 :: u32))) m (\<lambda>_. 42) 0x100 0
      (conversion_field m (\<lambda>_. 42) (m (0x100 + 1)) simple_conversion 0 @ [])"
    by (rule renders_simple) (auto simp: m_def special_def isdigit_def in_region_def intro!: renders.stop)
  ultimately have "renders (\<lambda>a. in_region a 0x200 (unat (2 :: u32))) m (\<lambda>_. 42) 0x100 0 [ch (CHR ''4''), ch (CHR ''2'')]"
    by (simp add: m_def conversion_field_def simple_conversion_def integer_conversion_def integer_argument_def)
  from vsnprintf_correct [OF this] show ?thesis by (auto intro!: exI [of _ m])
qed

lemma replicate_2: "replicate 2 x = [x, x]"
  by (simp add: numeral_2_eq_2)

lemma format_integer_correct_witness:
  "\<forall>st. bound_string_format_integer 0 (-42) 10 5 (-1) SIGNED_FLAG st = put_list 0 (map of_char ''  -42'') st"
  using format_integer_correct [of 10 0 "-42" 5 "-1" SIGNED_FLAG]
  by (simp add: replicate_2 integer_field_def integer_sign_def integer_prefix_def integer_digits_def reversed_digits.simps
        lower_digits_def SIGNED_FLAG_def Let_def)


text \<open>A number printed with \<open>%u\<close> is read back by \<open>parse_int\<close>: formatting and parsing
  of decimal numbers agree.\<close>

theorem number_roundtrip:
  assumes "m f = ch (CHR ''%'')" "m (f + 1) = ch (CHR ''u'')" "m (f + 2) = 0"
    and "\<not> in_region f s (unat n)" "\<not> in_region (f + 1) s (unat n)" "\<not> in_region (f + 2) s (unat n)"
    and "12 \<le> unat n" "unat s + unat n < 2 ^ 32"
  shows "\<exists>k m'. vsnprintf m s n f args = Some (int k, m') \<and> parse_int m' s = Some (s + of_nat k, uint (args 0))"
proof -
  let ?xs = "integer_digits 0 10 (args 0)"
  let ?m = "placed s (unat n) (?xs @ [0]) m"
  have len: "length ?xs \<le> 11" by (rule integer_digits_value) simp
  have "renders (\<lambda>a. in_region a s (unat n)) m args f 0 (conversion_field m args (m (f + 1)) simple_conversion 0 @ [])"
    using assms by (intro renders_simple) (auto simp: special_def isdigit_def intro!: renders.stop)
  moreover have "conversion_field m args (m (f + 1)) simple_conversion 0 = ?xs"
    using assms(2) by (simp add: conversion_field_def simple_conversion_def integer_conversion_def integer_argument_def
        integer_field_def integer_sign_def integer_prefix_def Let_def)
  ultimately have "vsnprintf m s n f args = Some (int (length ?xs), ?m)"
    using len assms(7,8) vsnprintf_correct [of s n m args f ?xs] by auto
  moreover have "parse_int ?m s = Some (s + of_nat (length ?xs), foldl (\<lambda>v c. v * 10 + (uint c - 48)) 0 ?xs)"
    unfolding parse_int_def
  proof (rule parse_int_loop_digits)
    show "?m (s + of_nat i) = ?xs ! i" if "i < length ?xs" for i
      using that len assms(7) by (simp add: placed_def unat_of_nat take_bit_nat_eq_self nth_append)
    show "\<not> isdigit (?m (s + of_nat (length ?xs)))"
      using len assms(7) by (simp add: placed_def unat_of_nat take_bit_nat_eq_self isdigit_def)
    show "\<forall>c \<in> set ?xs. isdigit c" by (blast intro: integer_digits_decimal)
  qed
  moreover have "foldl (\<lambda>v c. v * 10 + (uint c - 48)) 0 ?xs = uint (args 0)"
  proof -
    have "\<forall>c \<in> set ?xs. isdigit c" by (blast intro: integer_digits_decimal)
    then have "foldl (\<lambda>v c. v * 10 + (uint c - 48)) (int 0) ?xs = int (digits_value 10 ?xs)"
      unfolding digits_value_def by (intro foldl_digits) blast
    moreover have "digits_value 10 ?xs = unat (args 0)" using integer_digits_value(1) [of 10 0 "args 0"] by simp
    ultimately show ?thesis by simp
  qed
  ultimately show ?thesis by auto
qed

lemma number_roundtrip_witness:
  "\<exists>m f k m'. vsnprintf m 0x200 16 f (\<lambda>_. 4000000000) = Some (int k, m') \<and> parse_int m' 0x200 = Some (0x200 + of_nat k, 4000000000)"
proof -
  define m :: memory where "m = (\<lambda>_. 0)(0x100 := ch (CHR ''%''), 0x101 := ch (CHR ''u''))"
  have "\<exists>k m'. vsnprintf m 0x200 16 0x100 (\<lambda>_. 4000000000) = Some (int k, m')
      \<and> parse_int m' 0x200 = Some (0x200 + of_nat k, uint (4000000000 :: u32))"
    by (rule number_roundtrip) (simp_all add: m_def in_region_def)
  then show ?thesis by auto
qed

text \<open>A format that ends in a lone \<open>%\<close> is not stopped by its terminator: the loop takes the
  NUL for a conversion character, ignores it, and goes on with the byte after the end of the
  string.\<close>

theorem percent_at_end:
  assumes "fst st f = ch (CHR ''%'')" "fst st (f + 1) = 0"
  shows "vsnprintf_loop e args f k st = vsnprintf_loop e args (f + 2) k st"
proof -
  have "parse_conversion (fst st) args f k = Some (f + 1, simple_conversion, k)"
    using assms(2) by (intro parse_simple) (simp add: special_def isdigit_def)
  moreover have "convert e args 0 simple_conversion k st = (k, st)"
    by (simp add: convert_def integer_conversion_def)
  ultimately show ?thesis
    using assms by (simp add: vsnprintf_loop.simps [of e args f] Let_def add.assoc)
qed

lemma percent_at_end_witness:
  "\<exists>m. cstring m 0x100 [ch (CHR ''%'')] \<and> (\<forall>args p. vsnprintf_loop (p + 10) args 0x100 0 (m, p) = vsnprintf_loop (p + 10) args 0x102 0 (m, p))"
proof -
  define m :: memory where "m = (\<lambda>_. 0)(0x100 := ch (CHR ''%''))"
  have "vsnprintf_loop (p + 10) args 0x100 0 (m, p) = vsnprintf_loop (p + 10) args 0x102 0 (m, p)" for args p
    using percent_at_end [of "(m, p)" "0x100" "p + 10" args 0] by (simp add: m_def)
  moreover have "cstring m 0x100 [ch (CHR ''%'')]" by (simp add: m_def)
  ultimately show ?thesis by blast
qed

text \<open>C35: \<open>vsprintf\<close> passes \<open>SIZE_MAX\<close> as the size, so \<open>end\<close> wraps around to the byte before the
  buffer: no byte of the output is written, and the terminator goes to the second byte before the
  buffer.\<close>

theorem vsprintf_writes_nothing:
  assumes "renders (\<lambda>_. False) m args format 0 xs" "0 < unat s" "unat s + length xs < 2 ^ 32" "length xs < 2 ^ 31"
  shows "vsprintf m s format args = Some (int (length xs), m(s - 2 := 0))"
proof -
  have e: "s + SIZE_MAX = s - 1" "SIZE_MAX \<noteq> 0" "s + SIZE_MAX - 1 = s - 2" by (simp_all add: SIZE_MAX_def)
  have "vsnprintf_loop (s + SIZE_MAX) args format 0 (m, s) = Some (m, s + of_nat (length xs))"
    using wrapped.loop_renders [OF assms(1), of s "[]"] assms(2-4) by simp
  moreover have "sint (s + of_nat (length xs) - s) = int (length xs)"
    using assms(4) by (simp add: sint_uint signed_take_bit_int_eq_self uint_nat unat_of_nat take_bit_nat_eq_self)
  moreover have "\<not> s + of_nat (length xs) < s + SIZE_MAX"
  proof -
    have "unat (s + of_nat (length xs)) = unat s + length xs"
      using assms(3) by (simp add: unat_word_ariths unat_of_nat take_bit_nat_eq_self)
    moreover have "unat (s - 1) = unat s - 1" using assms(2) by (simp add: unat_minus_one unat_gt_0)
    ultimately show ?thesis unfolding e(1) by (simp add: word_less_nat_alt)
  qed
  moreover have "0 < SIZE_MAX" by (simp add: SIZE_MAX_def)
  ultimately show ?thesis unfolding vsprintf_def vsnprintf_def by (simp add: e(3))
qed

lemma vsprintf_writes_nothing_witness:
  "\<exists>m. m 0x200 = 7 \<and> vsprintf m 0x200 0x100 (\<lambda>_. 0) = Some (1, m(0x1FE := 0))"
proof -
  define m :: memory where "m = (\<lambda>_. 0)(0x100 := ch (CHR ''A''), 0x200 := 7)"
  have "renders (\<lambda>_. False) m (\<lambda>_. 0) 0x100 0 [m 0x100]"
    by (intro renders.plain renders.stop) (simp_all add: m_def)
  from vsprintf_writes_nothing [OF this, of "0x200"] have "vsprintf m 0x200 0x100 (\<lambda>_. 0) = Some (1, m(0x1FE := 0))"
    by simp
  moreover have "m 0x200 = 7" by (simp add: m_def)
  ultimately show ?thesis by blast
qed

end
