(* ===== verification/Vga.thy ===== *)
theory Vga
  imports Prelude Memmgnt
begin

text \<open>
  \<^verbatim>\<open>src/drivers/vga/vga.c\<close> and \<^verbatim>\<open>vga.h\<close>: the text screen at \<open>0xB8000\<close> and its shadow buffer in
  immortal memory. A character cell is two bytes; \<open>cells m base\<close> reads the cells from
  \<open>base\<close> on by their number. \<open>buffer_sync\<close> says that the screen shows the shadow: every
  operation keeps \<open>synced\<close>. The lemmas give each operation's effect on the cells and frame
  it: nothing but the shadow and the screen is written.
\<close>

section \<open>Cells and colours\<close>

datatype VGA_color = BLACK | BLUE | GREEN | CYAN | RED | MAGENTA | BROWN | LIGHT_GRAY | DARK_GRAY | LIGHT_BLUE
  | LIGHT_GREEN | LIGHT_CYAN | LIGHT_RED | LIGHT_MAGENTA | YELLOW | WHITE

definition VGA_colors :: "VGA_color list" where
  "VGA_colors = [BLACK, BLUE, GREEN, CYAN, RED, MAGENTA, BROWN, LIGHT_GRAY, DARK_GRAY, LIGHT_BLUE, LIGHT_GREEN,
     LIGHT_CYAN, LIGHT_RED, LIGHT_MAGENTA, YELLOW, WHITE]"

fun color_code :: "VGA_color \<Rightarrow> u16" where
  "color_code BLACK = 0" | "color_code BLUE = 1" | "color_code GREEN = 2" | "color_code CYAN = 3"
| "color_code RED = 4" | "color_code MAGENTA = 5" | "color_code BROWN = 6" | "color_code LIGHT_GRAY = 7"
| "color_code DARK_GRAY = 8" | "color_code LIGHT_BLUE = 9" | "color_code LIGHT_GREEN = 10" | "color_code LIGHT_CYAN = 11"
| "color_code LIGHT_RED = 12" | "color_code LIGHT_MAGENTA = 13" | "color_code YELLOW = 14" | "color_code WHITE = 15"

record VGACharS =
  character :: u8
  fgcolor :: VGA_color
  bgcolor :: VGA_color

text \<open>The two views of the union \<open>VGAChar\<close>: the character in the low byte, then the colours, four bits each.\<close>

definition attrchar :: "VGACharS \<Rightarrow> u16" where
  "attrchar r = ucast (character r) OR push_bit 8 (color_code (fgcolor r)) OR push_bit 12 (color_code (bgcolor r))"

definition repr :: "u16 \<Rightarrow> VGACharS" where
  "repr w = \<lparr>character = ucast w, fgcolor = VGA_colors ! unat (take_bit 4 (drop_bit 8 w)),
     bgcolor = VGA_colors ! unat (drop_bit 12 w)\<rparr>"

record Point =
  pt_x :: u32
  pt_y :: u32

section \<open>The driver\<close>

definition VGA_TEXT_BASE :: u32 where
  "VGA_TEXT_BASE = 0xB8000"

record vga =
  page_columns :: u32
  page_rows :: u32
  vga_buffer :: u32
  buffer_sync :: bool

definition vga_initial :: vga where
  "vga_initial = \<lparr>page_columns = 80, page_rows = 25, vga_buffer = 0, buffer_sync = False\<rparr>"

definition vga_flush :: "memory \<times> vga \<Rightarrow> memory \<times> vga" where
  "vga_flush s =
     (let (m, v) = s in
      if \<not> buffer_sync v
      then (memmove VGA_TEXT_BASE (vga_buffer v) (page_rows v * page_columns v * 2) m, v\<lparr>buffer_sync := True\<rparr>)
      else (m, v))"

definition vga_clear_screen :: "memory \<times> vga \<Rightarrow> memory \<times> vga" where
  "vga_clear_screen s =
     (let (m, v) = s; v = v\<lparr>buffer_sync := False\<rparr>
      in vga_flush (memzero (vga_buffer v) (page_rows v * page_columns v * 2) m, v))"

definition vga_init_printer :: "u32 \<Rightarrow> u32 \<Rightarrow> immortal \<Rightarrow> memory \<times> vga \<Rightarrow> (immortal \<times> memory \<times> vga) result" where
  "vga_init_printer rows columns im s =
     (let (m, v) = s; v = v\<lparr>page_rows := rows, page_columns := columns\<rparr> in
      case malloc_immortal (rows * columns * 2) 0 im of
        Inl e \<Rightarrow> Inl e
      | Inr (p, im) \<Rightarrow> Inr (im, vga_clear_screen (m, v\<lparr>vga_buffer := p\<rparr>)))"

definition vga_print_char :: "u16 \<Rightarrow> u32 \<Rightarrow> u32 \<Rightarrow> memory \<times> vga \<Rightarrow> memory \<times> vga" where
  "vga_print_char c x y s =
     (let (m, v) = s;
          m = store16 m (vga_buffer v + 2 * (page_columns v * y + x)) c;
          m = store16 m (VGA_TEXT_BASE + 2 * (page_columns v * y + x)) c
      in (m, v))"

definition vga_get_char :: "u32 \<Rightarrow> u32 \<Rightarrow> memory \<times> vga \<Rightarrow> u16" where
  "vga_get_char x y s = (let (m, v) = s in load16 m (VGA_TEXT_BASE + 2 * (page_columns v * y + x)))"

definition vga_copy :: "Point \<Rightarrow> Point \<Rightarrow> Point \<Rightarrow> memory \<times> vga \<Rightarrow> memory \<times> vga" where
  "vga_copy dest src sz s =
     (let (m, v) = vga_flush s;
          dest_p = vga_buffer v + 2 * (pt_y dest * page_columns v + pt_x dest);
          src_p = VGA_TEXT_BASE + 2 * (pt_y src * page_columns v + pt_x src);
          len = pt_x dest + pt_x sz;
          len = min len (page_columns v) * 2;
          m = for_loop (pt_y sz) (\<lambda>i m. memmove (dest_p + 2 * (i * page_columns v)) (src_p + 2 * (i * page_columns v)) len m) m
      in (m, v\<lparr>buffer_sync := False\<rparr>))"

definition vga_fill :: "Point \<Rightarrow> Point \<Rightarrow> u16 \<Rightarrow> memory \<times> vga \<Rightarrow> memory \<times> vga" where
  "vga_fill dest sz ch s =
     (let (m, v) = s; v = v\<lparr>buffer_sync := False\<rparr>;
          dest_p = vga_buffer v + 2 * (pt_y dest * page_columns v + pt_x dest);
          m = for_loop (pt_y sz) (\<lambda>i m. for_loop (pt_x sz) (\<lambda>j m. store16 m (dest_p + 2 * (i * page_columns v + j)) ch) m) m
      in (m, v))"

section \<open>Lemmas: cells\<close>

text \<open>Cell number \<open>k\<close> of the array at \<open>base\<close>.\<close>

definition cells :: "memory \<Rightarrow> u32 \<Rightarrow> nat \<Rightarrow> u16" where
  "cells m base k = load16 m (base + of_nat (2 * k))"

lemma cells_store:
  assumes "k < 2 ^ 31" "j < 2 ^ 31"
  shows "cells (store16 m (base + of_nat (2 * k)) c) base j = (if j = k then c else cells m base j)"
  using assms by (auto simp: cells_def load16_store16_cell simp del: of_nat_mult)

lemma cells_cong:
  assumes "\<And>i. i < 2 \<Longrightarrow> m' (base + of_nat (2 * k) + of_nat i) = m (base + of_nat (2 * k) + of_nat i)"
  shows "cells m' base k = cells m base k"
  unfolding cells_def using assms by (rule load16_cong)

lemma cell_in_region:
  assumes "k < n" "2 * n \<le> 2 ^ 32" "i < 2"
  shows "in_region (base + of_nat (2 * k) + of_nat i) base (2 * n)"
proof -
  have "in_region (base + of_nat (2 * k + i)) base (2 * n)"
    using assms by (intro in_region_offset) auto
  then show ?thesis by (simp add: add.assoc)
qed

lemma cells_same_outside:
  assumes "same_outside W m m'" "k < n" "2 * n \<le> 2 ^ 32" "\<And>a. in_region a base (2 * n) \<Longrightarrow> \<not> W a"
  shows "cells m' base k = cells m base k"
  using same_outsideD [OF assms(1) assms(4) [OF cell_in_region [OF assms(2,3)]]] by (intro cells_cong) blast

text \<open>Copying whole cells.\<close>

lemma cells_memmove:
  assumes "k < n" "2 * n \<le> 2 ^ 31" "unat len = 2 * n"
  shows "cells (memmove dest src len m) dest k = cells m src k"
proof -
  have "memmove dest src len m (dest + of_nat (2 * k) + of_nat i) = m (src + of_nat (2 * k) + of_nat i)" if "i < 2" for i
  proof -
    have "in_region (dest + of_nat (2 * k) + of_nat i) dest (2 * n)"
      using assms that by (intro cell_in_region) auto
    then show ?thesis using assms(2,3) by (simp add: memmove_apply add.assoc)
  qed
  from this [of 0] this [of 1] show ?thesis by (simp add: cells_def load16_def)
qed

lemma same_outside_memmove:
  assumes "unat len \<le> 2 ^ 31"
  shows "same_outside (\<lambda>a. in_region a dest (unat len)) m (memmove dest src len m)"
  using memmove_apply [OF assms] by (simp add: same_outside_def)

lemma color_code_bounds: "unat (color_code c) < 16" "VGA_colors ! unat (color_code c) = c"
  by (cases c; simp add: VGA_colors_def)+

lemma color_code_nth: "k < 16 \<Longrightarrow> unat (color_code (VGA_colors ! k)) = k"
proof -
  assume "k < 16"
  then have "k \<in> set [15, 14, 13, 12, 11, 10, 9, 8, 7, 6, 5, 4, 3, 2, 1, 0]" by simp arith
  moreover have "\<forall>k \<in> set [15, 14, 13, 12, 11, 10, 9, 8, 7, 6, 5, 4, 3, 2, 1, 0]. unat (color_code (VGA_colors ! k)) = k"
    by (simp add: VGA_colors_def)
  ultimately show ?thesis by blast
qed

lemma same_outside_for_loop:
  assumes "\<And>i s. i < unat n \<Longrightarrow> same_outside W s (body (of_nat i) s)"
  shows "same_outside W s (for_loop n body s)"
  by (rule for_loop_invariant [where P = "\<lambda>_ s'. same_outside W s s'"])
    (auto intro: same_outside_trans assms)

text \<open>Cells in rows of \<open>c\<close>.\<close>

lemma cell_number_eq:
  fixes c :: nat
  assumes "x < c" "x' < c"
  shows "c * y + x = c * y' + x' \<longleftrightarrow> x = x' \<and> y = y'"
proof
  assume eq: "c * y + x = c * y' + x'"
  have "(c * y + x) div c = (c * y' + x') div c" "(c * y + x) mod c = (c * y' + x') mod c" by (simp_all only: eq)
  with assms show "x = x' \<and> y = y'" by simp
qed simp

lemma cell_number_less:
  fixes c :: nat
  assumes "x < c" "y < r"
  shows "c * y + x < c * r"
proof -
  have "c * y + x < c * Suc y" using assms(1) by simp
  also have "\<dots> \<le> c * r" using assms(2) by (intro mult_le_mono2) simp
  finally show ?thesis .
qed

text \<open>An interval inside one row.\<close>

lemma row_interval:
  fixes c :: nat
  assumes "x < c" "d + w \<le> c"
  shows "c * r + d \<le> c * y + x \<and> c * y + x < c * r + d + w \<longleftrightarrow> d \<le> x \<and> x < d + w \<and> y = r"
proof (cases y r rule: linorder_cases)
  case less
  then have "c * Suc y \<le> c * r" by (intro mult_le_mono2) simp
  with less assms show ?thesis by simp
next
  case greater
  then have "c * Suc r \<le> c * y" by (intro mult_le_mono2) simp
  with greater assms show ?thesis by simp
qed auto

lemma cells_shift: "cells m base (k + j) = cells m (base + of_nat (2 * k)) j"
  by (simp add: cells_def algebra_simps)

text \<open>A cell outside a row shares no byte with it.\<close>

lemma cell_outside_row:
  assumes "x < c" "y \<noteq> r" "2 * (c * y + x) + 2 \<le> 2 ^ 32" "2 * (c * r) + 2 * c \<le> 2 ^ 32" "i < 2"
  shows "\<not> in_region (base + of_nat (2 * (c * y + x)) + of_nat i) (base + of_nat (2 * (c * r))) (2 * c)"
proof
  assume "in_region (base + of_nat (2 * (c * y + x)) + of_nat i) (base + of_nat (2 * (c * r))) (2 * c)"
  then obtain l where l: "l < 2 * c" "base + of_nat (2 * (c * y + x)) + of_nat i = base + of_nat (2 * (c * r)) + of_nat l"
    by (rule in_regionE)
  have a: "2 * (c * y + x) + i = 2 * c * y + (2 * x + i)" "2 * (c * r) + l = 2 * c * r + l" by (simp_all add: algebra_simps)
  have "base + of_nat (2 * c * y) + of_nat (2 * x + i) = base + of_nat (2 * c * r) + of_nat l"
    using l(2) by (simp add: algebra_simps)
  then have "y = r"
    using assms l(1) by (intro cell_bytes_distinct [of base "2 * c" y "2 * x + i" r l]) (auto simp: algebra_simps)
  with assms(2) show False by simp
qed

section \<open>The layout of the screen and the shadow\<close>

definition screen_cells :: "vga \<Rightarrow> nat" where
  "screen_cells v = unat (page_columns v) * unat (page_rows v)"

definition vga_ok :: "vga \<Rightarrow> bool" where
  "vga_ok v \<longleftrightarrow> 2 * screen_cells v \<le> 0x8000 \<and> 0x100000 \<le> unat (vga_buffer v)
     \<and> unat (vga_buffer v) + 2 * screen_cells v \<le> 0x400000"

definition in_screen :: "vga \<Rightarrow> u32 \<Rightarrow> bool" where
  "in_screen v a \<longleftrightarrow> in_region a VGA_TEXT_BASE (2 * screen_cells v)"

definition in_shadow :: "vga \<Rightarrow> u32 \<Rightarrow> bool" where
  "in_shadow v a \<longleftrightarrow> in_region a (vga_buffer v) (2 * screen_cells v)"

definition synced :: "memory \<times> vga \<Rightarrow> bool" where
  "synced s \<longleftrightarrow> (buffer_sync (snd s) \<longrightarrow>
     (\<forall>k < screen_cells (snd s). cells (fst s) VGA_TEXT_BASE k = cells (fst s) (vga_buffer (snd s)) k))"

lemma screen_shadow_disjoint:
  assumes "vga_ok v" "in_screen v a"
  shows "\<not> in_shadow v a"
proof
  assume "in_shadow v a"
  then obtain j where j: "j < 2 * screen_cells v" "a = vga_buffer v + of_nat j"
    unfolding in_shadow_def by (rule in_regionE)
  from assms(2) obtain i where i: "i < 2 * screen_cells v" "a = VGA_TEXT_BASE + of_nat i"
    unfolding in_screen_def by (rule in_regionE)
  have b: "2 * screen_cells v \<le> 0x8000" "0x100000 \<le> unat (vga_buffer v)"
    "unat (vga_buffer v) + 2 * screen_cells v \<le> 0x400000"
    using assms(1) by (simp_all add: vga_ok_def)
  have "unat (of_nat i :: u32) = i" "unat (of_nat j :: u32) = j"
    using i(1) j(1) b by (simp_all add: unat_of_nat take_bit_nat_eq_self)
  then have "unat (VGA_TEXT_BASE + of_nat i) = 0xB8000 + i" "unat (vga_buffer v + of_nat j) = unat (vga_buffer v) + j"
    using i(1) j(1) b by (simp_all add: VGA_TEXT_BASE_def unat_word_ariths)
  then have "unat a = 0xB8000 + i" "unat a = unat (vga_buffer v) + j"
    by (simp_all only: i(2) [symmetric] j(2) [symmetric])
  with i(1) j(1) b show False by linarith
qed

lemma vga_ok_update [simp]: "vga_ok (v\<lparr>buffer_sync := b\<rparr>) = vga_ok v" "screen_cells (v\<lparr>buffer_sync := b\<rparr>) = screen_cells v"
  "in_screen (v\<lparr>buffer_sync := b\<rparr>) = in_screen v" "in_shadow (v\<lparr>buffer_sync := b\<rparr>) = in_shadow v"
  by (auto simp: vga_ok_def screen_cells_def in_screen_def in_shadow_def fun_eq_iff)

lemma shadow_cell_kept:
  assumes "same_outside (in_screen v) m m'" "vga_ok v" "k < screen_cells v"
  shows "cells m' (vga_buffer v) k = cells m (vga_buffer v) k"
  using assms(2) screen_shadow_disjoint [OF assms(2)] unfolding vga_ok_def in_shadow_def
  by (intro cells_same_outside [OF assms(1,3)]) auto

lemma screen_cell_kept:
  assumes "same_outside (in_shadow v) m m'" "vga_ok v" "k < screen_cells v"
  shows "cells m' VGA_TEXT_BASE k = cells m VGA_TEXT_BASE k"
  using assms(2) screen_shadow_disjoint [OF assms(2)] unfolding vga_ok_def in_screen_def
  by (intro cells_same_outside [OF assms(1,3)]) auto

section \<open>Lemmas: the operations\<close>

lemma vga_flush_facts:
  assumes "vga_ok v" and "vga_flush (m, v) = (m', v')"
  shows "v' = v\<lparr>buffer_sync := True\<rparr>" "same_outside (in_screen v) m m'"
    "\<And>k. k < screen_cells v \<Longrightarrow> cells m' (vga_buffer v) k = cells m (vga_buffer v) k"
    "\<And>k. k < screen_cells v \<Longrightarrow> synced (m, v) \<Longrightarrow> cells m' VGA_TEXT_BASE k = cells m (vga_buffer v) k"
proof -
  have n: "unat (page_rows v * page_columns v * 2) = 2 * screen_cells v"
  proof -
    have "page_rows v * page_columns v * 2 = of_nat (2 * screen_cells v)" by (simp add: screen_cells_def)
    moreover have "2 * screen_cells v < 2 ^ 32" using assms(1) by (simp add: vga_ok_def)
    ultimately show ?thesis by (simp only: unat_of_nat) (simp add: take_bit_nat_eq_self)
  qed
  have b: "2 * screen_cells v \<le> 2 ^ 31" using assms(1) by (simp add: vga_ok_def)
  show "v' = v\<lparr>buffer_sync := True\<rparr>" using assms(2) by (simp add: vga_flush_def split: if_splits)
  show so: "same_outside (in_screen v) m m'"
    using assms(2) same_outside_memmove [of "page_rows v * page_columns v * 2" VGA_TEXT_BASE m "vga_buffer v"] b
    unfolding in_screen_def n by (auto simp: vga_flush_def split: if_splits)
  show "cells m' (vga_buffer v) k = cells m (vga_buffer v) k" if "k < screen_cells v" for k
    using so assms(1) that by (rule shadow_cell_kept)
  show "cells m' VGA_TEXT_BASE k = cells m (vga_buffer v) k" if "k < screen_cells v" "synced (m, v)" for k
    using assms(2) that cells_memmove [OF that(1) b n] by (auto simp: vga_flush_def synced_def split: if_splits)
qed

lemma synced_flush:
  assumes "vga_ok v" "synced (m, v)"
  shows "synced (vga_flush (m, v))"
proof -
  obtain m' v' where f: "vga_flush (m, v) = (m', v')" by fastforce
  from vga_flush_facts [OF assms(1) f] assms(2) show ?thesis unfolding f by (simp add: synced_def)
qed


lemma cell_in_screen:
  assumes "unat x < unat (page_columns v)" "unat y < unat (page_rows v)"
  shows "unat (page_columns v) * unat y + unat x < screen_cells v"
  using cell_number_less [OF assms] by (simp add: screen_cells_def)

lemma cell_address: "base + 2 * (page_columns v * y + x) = base + of_nat (2 * (unat (page_columns v) * unat y + unat x))"
  by simp

text \<open>One character, on the screen and in the shadow.\<close>

lemma vga_print_char_facts:
  assumes "vga_ok v" "unat x < unat (page_columns v)" "unat y < unat (page_rows v)"
    and "vga_print_char c x y (m, v) = (m', v')"
  shows "v' = v" "same_outside (\<lambda>a. in_screen v a \<or> in_shadow v a) m m'"
    "\<And>k. k < screen_cells v \<Longrightarrow> cells m' (vga_buffer v) k
        = (if k = unat (page_columns v) * unat y + unat x then c else cells m (vga_buffer v) k)"
    "\<And>k. k < screen_cells v \<Longrightarrow> cells m' VGA_TEXT_BASE k
        = (if k = unat (page_columns v) * unat y + unat x then c else cells m VGA_TEXT_BASE k)"
proof -
  let ?j = "unat (page_columns v) * unat y + unat x"
  define m1 where "m1 = store16 m (vga_buffer v + of_nat (2 * ?j)) c"
  have m': "m' = store16 m1 (VGA_TEXT_BASE + of_nat (2 * ?j)) c" "v' = v"
    using assms(4) unfolding m1_def vga_print_char_def Let_def prod.case cell_address by blast+
  have j: "?j < screen_cells v" using assms(2,3) by (rule cell_in_screen)
  have n: "2 * screen_cells v \<le> 2 ^ 32" "screen_cells v < 2 ^ 31" using assms(1) by (simp_all add: vga_ok_def)
  have region: "in_region a base (2 * screen_cells v)" if "in_region a (base + of_nat (2 * ?j)) 2" for a base
    using that cell_in_region [OF j n(1)] by (elim in_regionE) (auto simp: less_2_cases_iff)
  have s1: "same_outside (in_shadow v) m m1"
    unfolding m1_def in_shadow_def using region by (intro same_outside_store16)
  have s2: "same_outside (in_screen v) m1 m'"
    unfolding m'(1) in_screen_def using region by (intro same_outside_store16)
  show "v' = v" by (rule m'(2))
  show "same_outside (\<lambda>a. in_screen v a \<or> in_shadow v a) m m'"
    using s1 s2 by (auto simp: same_outside_def)
  show "cells m' (vga_buffer v) k = (if k = ?j then c else cells m (vga_buffer v) k)" if k: "k < screen_cells v" for k
    unfolding shadow_cell_kept [OF s2 assms(1) k] m1_def using k j n by (intro cells_store) auto
  show "cells m' VGA_TEXT_BASE k = (if k = ?j then c else cells m VGA_TEXT_BASE k)" if k: "k < screen_cells v" for k
    unfolding screen_cell_kept [OF s1 assms(1) k, symmetric] m'(1) using k j n by (intro cells_store) auto
qed

lemma synced_print_char:
  assumes "vga_ok v" "unat x < unat (page_columns v)" "unat y < unat (page_rows v)" "synced (m, v)"
  shows "synced (vga_print_char c x y (m, v))"
proof -
  obtain m' v' where f: "vga_print_char c x y (m, v) = (m', v')" by fastforce
  from vga_print_char_facts [OF assms(1-3) f] assms(4) show ?thesis unfolding f by (simp add: synced_def)
qed

lemma vga_get_char_cells: "vga_get_char x y (m, v) = cells m VGA_TEXT_BASE (unat (page_columns v) * unat y + unat x)"
  by (simp add: vga_get_char_def cells_def cell_address)

text \<open>One row of \<open>vga_fill\<close>: \<open>w\<close> cells from cell \<open>k\<close> on.\<close>

lemma fill_row:
  assumes "k + unat w \<le> n" "2 * n \<le> 2 ^ 31"
  shows "same_outside (\<lambda>a. in_region a base (2 * n)) m (for_loop w (\<lambda>j m. store16 m (base + of_nat (2 * k) + 2 * j) c) m)"
    and "i < n \<Longrightarrow> cells (for_loop w (\<lambda>j m. store16 m (base + of_nat (2 * k) + 2 * j) c) m) base i
      = (if k \<le> i \<and> i < k + unat w then c else cells m base i)"
proof -
  have addr: "base + of_nat (2 * k) + 2 * of_nat j = base + of_nat (2 * (k + j))" for j :: nat
    by (simp add: algebra_simps)
  have region: "in_region a base (2 * n)" if "in_region a (base + of_nat (2 * (k + j))) 2" "j < unat w" for a j
    using that assms cell_in_region [of "k + j" n] by (elim in_regionE) (auto simp: less_2_cases_iff)
  show "same_outside (\<lambda>a. in_region a base (2 * n)) m (for_loop w (\<lambda>j m. store16 m (base + of_nat (2 * k) + 2 * j) c) m)"
    unfolding addr using region by (intro same_outside_for_loop) (simp only: addr, blast intro: same_outside_store16)
  let ?P = "\<lambda>j m'. \<forall>i < n. cells m' base i = (if k \<le> i \<and> i < k + j then c else cells m base i)"
  have "?P (unat w) (for_loop w (\<lambda>j m. store16 m (base + of_nat (2 * k) + 2 * j) c) m)"
  proof (rule for_loop_invariant [where P = ?P])
    fix j m'
    assume "j < unat w" and IH: "?P j m'"
    then have "cells (store16 m' (base + of_nat (2 * (k + j))) c) base i = (if i = k + j then c else cells m' base i)" if "i < n" for i
      using that assms by (intro cells_store) auto
    with IH show "?P (Suc j) (store16 m' (base + of_nat (2 * k) + 2 * of_nat j) c)"
      unfolding addr by auto
  qed auto
  then show "i < n \<Longrightarrow> cells (for_loop w (\<lambda>j m. store16 m (base + of_nat (2 * k) + 2 * j) c) m) base i
      = (if k \<le> i \<and> i < k + unat w then c else cells m base i)" by blast
qed


text \<open>
  \<open>vga_fill\<close> on a rectangle of the page: the cells of the rectangle, and no others, take the
  character, in the shadow.
\<close>

lemma vga_fill_facts:
  assumes "vga_ok v" "unat (pt_x dest) + unat (pt_x sz) \<le> unat (page_columns v)"
    and "unat (pt_y dest) + unat (pt_y sz) \<le> unat (page_rows v)" and "vga_fill dest sz c (m, v) = (m', v')"
  shows "v' = v\<lparr>buffer_sync := False\<rparr>" "same_outside (in_shadow v) m m'"
    "\<And>x y. x < unat (page_columns v) \<Longrightarrow> y < unat (page_rows v) \<Longrightarrow>
       cells m' (vga_buffer v) (unat (page_columns v) * y + x)
       = (if unat (pt_x dest) \<le> x \<and> x < unat (pt_x dest) + unat (pt_x sz)
            \<and> unat (pt_y dest) \<le> y \<and> y < unat (pt_y dest) + unat (pt_y sz)
          then c else cells m (vga_buffer v) (unat (page_columns v) * y + x))"
proof -
  let ?C = "unat (page_columns v)" and ?R = "unat (page_rows v)" and ?B = "vga_buffer v"
  let ?dx = "unat (pt_x dest)" and ?dy = "unat (pt_y dest)" and ?w = "unat (pt_x sz)" and ?h = "unat (pt_y sz)"
  let ?row = "\<lambda>i m. for_loop (pt_x sz) (\<lambda>j m. store16 m (?B + of_nat (2 * (?C * (?dy + i) + ?dx)) + 2 * j) c) m"
  have n: "2 * screen_cells v \<le> 2 ^ 31" using assms(1) by (simp add: vga_ok_def)
  have addr: "?B + 2 * (pt_y dest * page_columns v + pt_x dest) + 2 * (of_nat i * page_columns v + j)
      = ?B + of_nat (2 * (?C * (?dy + i) + ?dx)) + 2 * j" for i and j :: u32
    by (simp add: algebra_simps)
  have m': "m' = for_loop (pt_y sz) (\<lambda>i m. for_loop (pt_x sz)
      (\<lambda>j m. store16 m (?B + 2 * (pt_y dest * page_columns v + pt_x dest) + 2 * (i * page_columns v + j)) c) m) m"
    and "v' = v\<lparr>buffer_sync := False\<rparr>"
    using assms(4) by (simp_all add: vga_fill_def Let_def)
  then show "v' = v\<lparr>buffer_sync := False\<rparr>" by simp
  have fits: "?C * (?dy + i) + ?dx + ?w \<le> screen_cells v" if "i < ?h" for i
  proof -
    have "?C * (?dy + i) + ?dx + ?w \<le> ?C * Suc (?dy + i)" using assms(2) by simp
    also have "\<dots> \<le> ?C * ?R" using that assms(3) by (intro mult_le_mono2) simp
    finally show ?thesis by (simp add: screen_cells_def)
  qed
  note row = fill_row [OF fits n, where base = ?B]
  show "same_outside (in_shadow v) m m'"
    unfolding m' in_shadow_def by (rule same_outside_for_loop) (unfold addr, rule row(1))
  let ?P = "\<lambda>i m'. \<forall>x < ?C. \<forall>y < ?R. cells m' ?B (?C * y + x)
      = (if ?dx \<le> x \<and> x < ?dx + ?w \<and> ?dy \<le> y \<and> y < ?dy + i then c else cells m ?B (?C * y + x))"
  have "?P ?h m'"
    unfolding m'
  proof (rule for_loop_invariant [where P = ?P])
    fix i m'
    assume i: "i < ?h" and IH: "?P i m'"
    have "cells (?row i m') ?B (?C * y + x) = (if ?dx \<le> x \<and> x < ?dx + ?w \<and> y = ?dy + i then c else cells m' ?B (?C * y + x))"
      if "x < ?C" "y < ?R" for x y
    proof -
      have "?C * (?dy + i) + ?dx \<le> ?C * y + x \<and> ?C * y + x < ?C * (?dy + i) + ?dx + ?w
          \<longleftrightarrow> ?dx \<le> x \<and> x < ?dx + ?w \<and> y = ?dy + i"
        using that(1) assms(2) by (intro row_interval) auto
      moreover have "?C * y + x < screen_cells v" unfolding screen_cells_def using that by (rule cell_number_less)
      ultimately show ?thesis using row(2) [OF i] by (simp only:)
    qed
    with IH show "?P (Suc i) (for_loop (pt_x sz) (\<lambda>j m. store16 m (?B + 2 * (pt_y dest * page_columns v + pt_x dest)
        + 2 * (of_nat i * page_columns v + j)) c) m')"
      unfolding addr by auto
  qed auto
  then show "\<And>x y. x < ?C \<Longrightarrow> y < ?R \<Longrightarrow> cells m' ?B (?C * y + x)
      = (if ?dx \<le> x \<and> x < ?dx + ?w \<and> ?dy \<le> y \<and> y < ?dy + ?h then c else cells m ?B (?C * y + x))" by blast
qed


text \<open>One row of \<open>vga_copy\<close>: a whole row of the screen into a row of the shadow.\<close>

lemma copy_row:
  fixes v :: vga and m :: memory and r r' :: nat and len :: u32
  assumes "vga_ok v" "r < unat (page_rows v)" "r' < unat (page_rows v)" "unat len = 2 * unat (page_columns v)"
  defines "C \<equiv> unat (page_columns v)"
  defines "m' \<equiv> memmove (vga_buffer v + of_nat (2 * (C * r))) (VGA_TEXT_BASE + of_nat (2 * (C * r'))) len m"
  shows "same_outside (in_shadow v) m m'"
    and "x < C \<Longrightarrow> y < unat (page_rows v) \<Longrightarrow> cells m' (vga_buffer v) (C * y + x)
      = (if y = r then cells m VGA_TEXT_BASE (C * r' + x) else cells m (vga_buffer v) (C * y + x))"
proof -
  let ?B = "vga_buffer v"
  have n: "2 * screen_cells v \<le> 0x8000" using assms(1) by (simp add: vga_ok_def)
  have fits: "C * y + C \<le> screen_cells v" if "y < unat (page_rows v)" for y
  proof -
    have "C * Suc y \<le> C * unat (page_rows v)" using that by (intro mult_le_mono2) simp
    then show ?thesis by (simp add: screen_cells_def C_def)
  qed
  have len: "unat len = 2 * C" "2 * C \<le> 2 ^ 31" using assms(4) fits [OF assms(2)] n by (simp_all add: C_def)
  have so: "same_outside (\<lambda>a. in_region a (?B + of_nat (2 * (C * r))) (2 * C)) m m'"
    using same_outside_memmove [of len] len unfolding m'_def by simp
  have sub: "in_shadow v a" if "in_region a (?B + of_nat (2 * (C * r))) (2 * C)" for a
  proof -
    from that obtain l where l: "l < 2 * C" "a = ?B + of_nat (2 * (C * r)) + of_nat l" by (rule in_regionE)
    have "in_region (?B + of_nat (2 * (C * r) + l)) ?B (2 * screen_cells v)"
      using l(1) fits [OF assms(2)] n by (intro in_region_offset) auto
    then show ?thesis using l(2) by (simp add: in_shadow_def add.assoc)
  qed
  with so show "same_outside (in_shadow v) m m'" by (rule same_outside_mono)
  show "cells m' ?B (C * y + x) = (if y = r then cells m VGA_TEXT_BASE (C * r' + x) else cells m ?B (C * y + x))"
    if "x < C" "y < unat (page_rows v)"
  proof (cases "y = r")
    case True
    have "cells m' (?B + of_nat (2 * (C * r))) x = cells m (VGA_TEXT_BASE + of_nat (2 * (C * r'))) x"
      unfolding m'_def using len by (intro cells_memmove [OF that(1)])
    then show ?thesis unfolding True cells_shift by simp
  next
    case False
    have b: "2 * (C * y + x) + 2 \<le> 2 ^ 32" "2 * (C * r) + 2 * C \<le> 2 ^ 32"
      using fits [OF that(2)] fits [OF assms(2)] that(1) n by simp_all
    have "m' (?B + of_nat (2 * (C * y + x)) + of_nat i) = m (?B + of_nat (2 * (C * y + x)) + of_nat i)" if "i < 2" for i
      by (rule same_outsideD [OF so]) (rule cell_outside_row [OF \<open>x < C\<close> False b that])
    then have "cells m' ?B (C * y + x) = cells m ?B (C * y + x)" by (rule cells_cong)
    then show ?thesis using False by (simp only: if_False)
  qed
qed

text \<open>
  \<open>vga_copy\<close> of whole rows, as \<open>cscroll\<close> uses it: the rows of the destination take what the
  shadow held in the rows of the source (the screen, after the flush, shows the shadow).
\<close>

lemma vga_copy_facts:
  assumes "vga_ok v" "synced (m, v)" "pt_x dest = 0" "pt_x src = 0" "page_columns v \<le> pt_x sz"
    and "unat (pt_y dest) + unat (pt_y sz) \<le> unat (page_rows v)" "unat (pt_y src) + unat (pt_y sz) \<le> unat (page_rows v)"
    and "vga_copy dest src sz (m, v) = (m', v')"
  shows "v' = v\<lparr>buffer_sync := False\<rparr>" "same_outside (\<lambda>a. in_screen v a \<or> in_shadow v a) m m'"
    "\<And>x y. x < unat (page_columns v) \<Longrightarrow> y < unat (page_rows v) \<Longrightarrow>
       cells m' (vga_buffer v) (unat (page_columns v) * y + x)
       = cells m (vga_buffer v) (unat (page_columns v) *
           (if unat (pt_y dest) \<le> y \<and> y < unat (pt_y dest) + unat (pt_y sz) then y - unat (pt_y dest) + unat (pt_y src) else y) + x)"
proof -
  let ?C = "unat (page_columns v)" and ?R = "unat (page_rows v)" and ?B = "vga_buffer v"
  let ?dy = "unat (pt_y dest)" and ?sy = "unat (pt_y src)" and ?h = "unat (pt_y sz)"
  let ?len = "page_columns v * 2"
  obtain m1 v1 where f: "vga_flush (m, v) = (m1, v1)" by fastforce
  note flush = vga_flush_facts [OF assms(1) f]
  have v1: "page_columns v1 = page_columns v" "vga_buffer v1 = ?B" using flush(1) by simp_all
  have min: "min (pt_x dest + pt_x sz) (page_columns v) = page_columns v" using assms(3,5) by simp
  have m': "m' = for_loop (pt_y sz) (\<lambda>i m. memmove (?B + 2 * (pt_y dest * page_columns v + pt_x dest) + 2 * (i * page_columns v))
      (VGA_TEXT_BASE + 2 * (pt_y src * page_columns v + pt_x src) + 2 * (i * page_columns v)) ?len m) m1"
    and v': "v' = v1\<lparr>buffer_sync := False\<rparr>"
    using assms(8) unfolding vga_copy_def f Let_def prod.case v1 min by blast+
  show "v' = v\<lparr>buffer_sync := False\<rparr>" unfolding v' flush(1) by simp
  have addr: "base + 2 * (yy * page_columns v + 0) + 2 * (of_nat i * page_columns v) = base + of_nat (2 * (?C * (unat yy + i)))"
    for base yy :: u32 and i by (simp add: algebra_simps)
  have len: "unat ?len = 2 * ?C" if "0 < ?h"
  proof -
    have "1 \<le> ?R" using that assms(6) by linarith
    from mult_le_mono2 [OF this, of ?C] have "?C \<le> screen_cells v" by (simp only: screen_cells_def mult_1_right)
    moreover have "2 * screen_cells v \<le> 0x8000" using assms(1) by (simp add: vga_ok_def)
    ultimately have "?C * 2 < 4294967296" by linarith
    then show ?thesis by (simp add: unat_word_ariths)
  qed
  have rows: "?dy + i < ?R" "?sy + i < ?R" "unat ?len = 2 * ?C" if "i < ?h" for i
    using that assms(6,7) len by auto
  note row = copy_row [OF assms(1) rows]
  have so: "same_outside (in_shadow v) m1 m'"
    unfolding m' assms(3,4) by (rule same_outside_for_loop) (unfold addr, rule row(1))
  with flush(2) show "same_outside (\<lambda>a. in_screen v a \<or> in_shadow v a) m m'" by (auto simp: same_outside_def)
  let ?step = "\<lambda>i m. memmove (?B + 2 * (pt_y dest * page_columns v + 0) + 2 * (of_nat i * page_columns v))
      (VGA_TEXT_BASE + 2 * (pt_y src * page_columns v + 0) + 2 * (of_nat i * page_columns v)) ?len m"
  let ?P = "\<lambda>i m'. same_outside (in_shadow v) m1 m' \<and> (\<forall>x < ?C. \<forall>y < ?R. cells m' ?B (?C * y + x)
      = cells m ?B (?C * (if ?dy \<le> y \<and> y < ?dy + i then y - ?dy + ?sy else y) + x))"
  have "?P ?h m'"
    unfolding m' assms(3,4)
  proof (rule for_loop_invariant [where P = ?P])
    show "?P 0 m1" using flush(3) cell_number_less [of _ ?C _ ?R] by (auto simp: screen_cells_def)
  next
    fix i m2
    assume i: "i < ?h" and IH: "?P i m2"
    have "cells m2 VGA_TEXT_BASE (?C * (?sy + i) + x) = cells m ?B (?C * (?sy + i) + x)" if "x < ?C" for x
    proof -
      have k: "?C * (?sy + i) + x < screen_cells v"
        unfolding screen_cells_def using that rows(2) [OF i] by (rule cell_number_less)
      show ?thesis using screen_cell_kept [OF conjunct1 [OF IH] assms(1) k] flush(4) [OF k assms(2)] by simp
    qed
    moreover have "cells (?step i m2) ?B (?C * y + x)
        = (if y = ?dy + i then cells m2 VGA_TEXT_BASE (?C * (?sy + i) + x) else cells m2 ?B (?C * y + x))"
      if "x < ?C" "y < ?R" for x y
      unfolding addr using that by (rule row(2) [OF i i i])
    moreover have "same_outside (in_shadow v) m1 (?step i m2)"
      unfolding addr using conjunct1 [OF IH] row(1) [OF i i i] by (rule same_outside_trans)
    ultimately show "?P (Suc i) (?step i m2)"
      using conjunct2 [OF IH] by (auto simp: less_Suc_eq ac_simps simp del: of_nat_add of_nat_mult)
  qed
  then show "\<And>x y. x < ?C \<Longrightarrow> y < ?R \<Longrightarrow> cells m' ?B (?C * y + x)
      = cells m ?B (?C * (if ?dy \<le> y \<and> y < ?dy + ?h then y - ?dy + ?sy else y) + x)" by blast
qed


section \<open>Lines\<close>

text \<open>The screen and the shadow as lists of lines.\<close>

definition lines_at :: "u32 \<Rightarrow> memory \<times> vga \<Rightarrow> u16 list list" where
  "lines_at base s = (let (m, v) = s in
     map (\<lambda>y. map (\<lambda>x. cells m base (unat (page_columns v) * y + x)) [0..<unat (page_columns v)]) [0..<unat (page_rows v)])"

definition screen_lines :: "memory \<times> vga \<Rightarrow> u16 list list" where
  "screen_lines s = lines_at VGA_TEXT_BASE s"

definition shadow_lines :: "memory \<times> vga \<Rightarrow> u16 list list" where
  "shadow_lines s = lines_at (vga_buffer (snd s)) s"

lemma length_lines [simp]:
  "length (shadow_lines s) = unat (page_rows (snd s))" "length (screen_lines s) = unat (page_rows (snd s))"
  by (simp_all add: shadow_lines_def screen_lines_def lines_at_def split: prod.split)

lemma length_line [simp]:
  "y < unat (page_rows (snd s)) \<Longrightarrow> length (shadow_lines s ! y) = unat (page_columns (snd s))"
  by (cases s) (simp add: shadow_lines_def lines_at_def)

lemma shadow_lines_nth:
  "x < unat (page_columns v) \<Longrightarrow> y < unat (page_rows v) \<Longrightarrow>
    shadow_lines (m, v) ! y ! x = cells m (vga_buffer v) (unat (page_columns v) * y + x)"
  by (simp add: shadow_lines_def lines_at_def)

lemma lines_eqI:
  assumes "length L = unat (page_rows v)" "\<And>y. y < unat (page_rows v) \<Longrightarrow> length (L ! y) = unat (page_columns v)"
    and "\<And>x y. x < unat (page_columns v) \<Longrightarrow> y < unat (page_rows v) \<Longrightarrow> cells m base (unat (page_columns v) * y + x) = L ! y ! x"
  shows "lines_at base (m, v) = L"
  using assms by (auto simp: lines_at_def intro!: nth_equalityI)

lemma flush_lines:
  assumes "vga_ok v" "synced (m, v)"
  shows "screen_lines (vga_flush (m, v)) = shadow_lines (m, v)" "shadow_lines (vga_flush (m, v)) = shadow_lines (m, v)"
proof -
  obtain m' v' where f: "vga_flush (m, v) = (m', v')" by fastforce
  note F = vga_flush_facts [OF assms(1) f]
  have k: "unat (page_columns v) * y + x < screen_cells v" if "x < unat (page_columns v)" "y < unat (page_rows v)" for x y
    unfolding screen_cells_def using that by (rule cell_number_less)
  show "screen_lines (vga_flush (m, v)) = shadow_lines (m, v)"
    unfolding f screen_lines_def F(1) by (rule lines_eqI) (auto simp: k F(4) assms(2) shadow_lines_nth)
  show "shadow_lines (vga_flush (m, v)) = shadow_lines (m, v)"
    unfolding f F(1) shadow_lines_def snd_conv vga.simps lines_at_def prod.case
    by (auto simp: k F(3))
qed

lemma print_lines:
  assumes "vga_ok v" "unat x < unat (page_columns v)" "unat y < unat (page_rows v)"
  shows "shadow_lines (vga_print_char c x y (m, v))
    = (shadow_lines (m, v))[unat y := (shadow_lines (m, v) ! unat y)[unat x := c]]"
proof -
  obtain m' v' where f: "vga_print_char c x y (m, v) = (m', v')" by fastforce
  note F = vga_print_char_facts [OF assms f]
  have k: "unat (page_columns v) * y + x < screen_cells v" if "x < unat (page_columns v)" "y < unat (page_rows v)" for x y
    unfolding screen_cells_def using that by (rule cell_number_less)
  have "lines_at (vga_buffer v) (m', v) = (shadow_lines (m, v))[unat y := (shadow_lines (m, v) ! unat y)[unat x := c]]"
    using assms(2,3)
    by (intro lines_eqI) (auto simp: k F(3) cell_number_eq shadow_lines_nth nth_list_update)
  then show ?thesis unfolding f F(1) by (simp add: shadow_lines_def)
qed

lemma fill_lines:
  assumes "vga_ok v" "pt_x dest = 0" "pt_x sz = page_columns v" "unat (pt_y dest) + unat (pt_y sz) \<le> unat (page_rows v)"
  shows "shadow_lines (vga_fill dest sz c (m, v)) = map (\<lambda>y. if unat (pt_y dest) \<le> y \<and> y < unat (pt_y dest) + unat (pt_y sz)
    then replicate (unat (page_columns v)) c else shadow_lines (m, v) ! y) [0..<unat (page_rows v)]"
proof -
  obtain m' v' where f: "vga_fill dest sz c (m, v) = (m', v')" by fastforce
  have w: "unat (pt_x dest) + unat (pt_x sz) \<le> unat (page_columns v)" using assms(2,3) by simp
  note F = vga_fill_facts [OF assms(1) w assms(4) f]
  have "lines_at (vga_buffer v) (m', v\<lparr>buffer_sync := False\<rparr>) = map (\<lambda>y. if unat (pt_y dest) \<le> y \<and> y < unat (pt_y dest) + unat (pt_y sz)
    then replicate (unat (page_columns v)) c else shadow_lines (m, v) ! y) [0..<unat (page_rows v)]"
    by (intro lines_eqI) (auto simp: F(3) assms(2,3) shadow_lines_nth)
  then show ?thesis unfolding f F(1) by (simp add: shadow_lines_def)
qed

lemma copy_lines:
  assumes "vga_ok v" "synced (m, v)" "pt_x dest = 0" "pt_x src = 0" "pt_x sz = page_columns v"
    and "unat (pt_y dest) + unat (pt_y sz) \<le> unat (page_rows v)" "unat (pt_y src) + unat (pt_y sz) \<le> unat (page_rows v)"
  shows "shadow_lines (vga_copy dest src sz (m, v)) = map (\<lambda>y. shadow_lines (m, v) !
    (if unat (pt_y dest) \<le> y \<and> y < unat (pt_y dest) + unat (pt_y sz) then y - unat (pt_y dest) + unat (pt_y src) else y)) [0..<unat (page_rows v)]"
proof -
  obtain m' v' where f: "vga_copy dest src sz (m, v) = (m', v')" by fastforce
  have w: "page_columns v \<le> pt_x sz" using assms(5) by simp
  note F = vga_copy_facts [OF assms(1-4) w assms(6,7) f]
  have "lines_at (vga_buffer v) (m', v\<lparr>buffer_sync := False\<rparr>) = map (\<lambda>y. shadow_lines (m, v) !
    (if unat (pt_y dest) \<le> y \<and> y < unat (pt_y dest) + unat (pt_y sz) then y - unat (pt_y dest) + unat (pt_y src) else y)) [0..<unat (page_rows v)]"
    using assms(7) by (intro lines_eqI) (auto simp: F(3) shadow_lines_nth)
  then show ?thesis unfolding f F(1) by (simp add: shadow_lines_def)
qed

section \<open>The page as the console sees it\<close>

text \<open>
  The operations of the driver the console calls, and what it relies on: they keep the page in order
  and its size, they act on the lines as written, and a flush shows the lines that are pending.
\<close>

locale text_page =
  fixes page_ok :: "'s \<Rightarrow> bool"
    and columns rows :: "'s \<Rightarrow> nat"
    and pending shown :: "'s \<Rightarrow> 'c list list"
    and put :: "'c \<Rightarrow> u32 \<Rightarrow> u32 \<Rightarrow> 's \<Rightarrow> 's"
    and copy_rows :: "u32 \<Rightarrow> u32 \<Rightarrow> u32 \<Rightarrow> 's \<Rightarrow> 's"
    and fill_rows :: "u32 \<Rightarrow> u32 \<Rightarrow> 'c \<Rightarrow> 's \<Rightarrow> 's"
    and flush :: "'s \<Rightarrow> 's"
  assumes pending_rows: "length (pending s) = rows s"
    and pending_columns: "i < rows s \<Longrightarrow> length (pending s ! i) = columns s"
    and put_law: "page_ok s \<Longrightarrow> unat x < columns s \<Longrightarrow> unat y < rows s \<Longrightarrow>
      page_ok (put w x y s) \<and> columns (put w x y s) = columns s \<and> rows (put w x y s) = rows s
      \<and> pending (put w x y s) = (pending s)[unat y := (pending s ! unat y)[unat x := w]]"
    and copy_law: "page_ok s \<Longrightarrow> unat to + unat n \<le> rows s \<Longrightarrow> unat src + unat n \<le> rows s \<Longrightarrow>
      page_ok (copy_rows to src n s) \<and> columns (copy_rows to src n s) = columns s \<and> rows (copy_rows to src n s) = rows s
      \<and> pending (copy_rows to src n s) = map (\<lambda>y. pending s !
          (if unat to \<le> y \<and> y < unat to + unat n then y - unat to + unat src else y)) [0..<rows s]"
    and fill_law: "page_ok s \<Longrightarrow> unat to + unat n \<le> rows s \<Longrightarrow>
      page_ok (fill_rows to n w s) \<and> columns (fill_rows to n w s) = columns s \<and> rows (fill_rows to n w s) = rows s
      \<and> pending (fill_rows to n w s) = map (\<lambda>y. if unat to \<le> y \<and> y < unat to + unat n
          then replicate (columns s) w else pending s ! y) [0..<rows s]"
    and flush_law: "page_ok s \<Longrightarrow>
      page_ok (flush s) \<and> columns (flush s) = columns s \<and> rows (flush s) = rows s
      \<and> pending (flush s) = pending s \<and> shown (flush s) = pending s"
begin

text \<open>Scrolling as a copy and a fill: the top line goes and a blank one comes in at the bottom.\<close>

lemma scrolled:
  assumes "page_ok s" "0 < rows s" "unat n = rows s - 1"
  shows "page_ok (fill_rows n 1 w (copy_rows 0 1 n s))"
    "columns (fill_rows n 1 w (copy_rows 0 1 n s)) = columns s" "rows (fill_rows n 1 w (copy_rows 0 1 n s)) = rows s"
    "pending (fill_rows n 1 w (copy_rows 0 1 n s)) = tl (pending s) @ [replicate (columns s) w]"
proof -
  have c: "page_ok (copy_rows 0 1 n s)" "columns (copy_rows 0 1 n s) = columns s" "rows (copy_rows 0 1 n s) = rows s"
    "pending (copy_rows 0 1 n s) = map (\<lambda>y. pending s ! (if y < unat n then y + 1 else y)) [0..<rows s]"
    using copy_law [OF assms(1), of 0 n 1] assms(2,3) by simp_all
  have f: "page_ok (fill_rows n 1 w (copy_rows 0 1 n s))"
    "columns (fill_rows n 1 w (copy_rows 0 1 n s)) = columns s" "rows (fill_rows n 1 w (copy_rows 0 1 n s)) = rows s"
    "pending (fill_rows n 1 w (copy_rows 0 1 n s)) = map (\<lambda>y. if unat n \<le> y \<and> y < unat n + 1
       then replicate (columns s) w else pending (copy_rows 0 1 n s) ! y) [0..<rows s]"
    using fill_law [OF c(1), of n 1 w] c(2,3) assms(2,3) by simp_all
  show "page_ok (fill_rows n 1 w (copy_rows 0 1 n s))"
    "columns (fill_rows n 1 w (copy_rows 0 1 n s)) = columns s" "rows (fill_rows n 1 w (copy_rows 0 1 n s)) = rows s"
    by (rule f)+
  show "pending (fill_rows n 1 w (copy_rows 0 1 n s)) = tl (pending s) @ [replicate (columns s) w]"
    unfolding f(4) c(4) using assms(2,3) pending_rows [of s]
    by (intro nth_equalityI) (auto simp: nth_append nth_tl)
qed

text \<open>A character put below the top line is one line higher after the scroll.\<close>

lemma put_scrolled:
  assumes "page_ok s" "unat n = rows s - 1" "unat x < columns s" "0 < unat y" "unat y < rows s"
  shows "pending (fill_rows n 1 w (copy_rows 0 1 n (put k x y s))) ! (unat y - 1) ! unat x = k"
proof -
  note p = put_law [OF assms(1,3,5), of k]
  have "pending (fill_rows n 1 w (copy_rows 0 1 n (put k x y s))) = tl (pending (put k x y s)) @ [replicate (columns s) w]"
    using scrolled(4) [of "put k x y s" n w] p assms(2,5) by simp
  moreover have "unat y - 1 < rows s - 1" using assms(4,5) by linarith
  ultimately show ?thesis using p assms(3-5) pending_rows [of s] pending_columns [of "unat y" s] by (simp add: nth_append nth_tl)
qed

lemma cleared:
  assumes "page_ok s" "unat n = rows s"
  shows "page_ok (fill_rows 0 n w s)" "pending (fill_rows 0 n w s) = replicate (rows s) (replicate (columns s) w)"
    "shown (flush (fill_rows 0 n w s)) = replicate (rows s) (replicate (columns s) w)"
proof -
  have f: "page_ok (fill_rows 0 n w s)" "pending (fill_rows 0 n w s)
      = map (\<lambda>y. if y < unat n then replicate (columns s) w else pending s ! y) [0..<rows s]"
    using fill_law [OF assms(1), of 0 n w] assms(2) by simp_all
  then show "page_ok (fill_rows 0 n w s)" by simp
  show "pending (fill_rows 0 n w s) = replicate (rows s) (replicate (columns s) w)"
    unfolding f(2) using assms(2) by (intro nth_equalityI) auto
  then show "shown (flush (fill_rows 0 n w s)) = replicate (rows s) (replicate (columns s) w)"
    using flush_law [OF f(1)] by simp
qed

end

lemma synced_unsynced [simp]: "synced (m, v\<lparr>buffer_sync := False\<rparr>)"
  by (simp add: synced_def)

interpretation screen: text_page "\<lambda>s. vga_ok (snd s) \<and> synced s" "\<lambda>s. unat (page_columns (snd s))" "\<lambda>s. unat (page_rows (snd s))"
  shadow_lines screen_lines vga_print_char
  "\<lambda>to src n s. vga_copy \<lparr>pt_x = 0, pt_y = to\<rparr> \<lparr>pt_x = 0, pt_y = src\<rparr> \<lparr>pt_x = page_columns (snd s), pt_y = n\<rparr> s"
  "\<lambda>to n w s. vga_fill \<lparr>pt_x = 0, pt_y = to\<rparr> \<lparr>pt_x = page_columns (snd s), pt_y = n\<rparr> w s"
  vga_flush
proof (unfold_locales, goal_cases)
  case (3 s x y w)
  obtain m v where s: "s = (m, v)" by (cases s)
  obtain m' v' where f: "vga_print_char w x y (m, v) = (m', v')" by fastforce
  have "vga_ok v" "synced (m, v)" "unat x < unat (page_columns v)" "unat y < unat (page_rows v)" using 3 by (simp_all add: s)
  note * = this(1,3,4) and sy = this(2)
  show ?case using vga_print_char_facts(1) [OF * f] print_lines [OF *, of w m] synced_print_char [OF * sy, of w] *(1)
    unfolding s f by simp
next
  case (4 s to n src)
  obtain m v where s: "s = (m, v)" by (cases s)
  let ?to = "\<lparr>pt_x = 0, pt_y = to\<rparr>" and ?src = "\<lparr>pt_x = 0, pt_y = src\<rparr>" and ?sz = "\<lparr>pt_x = page_columns v, pt_y = n\<rparr>"
  obtain m' v' where f: "vga_copy ?to ?src ?sz (m, v) = (m', v')" by fastforce
  have *: "vga_ok v" "synced (m, v)" "pt_x ?to = 0" "pt_x ?src = 0" "pt_x ?sz = page_columns v"
    "unat (pt_y ?to) + unat (pt_y ?sz) \<le> unat (page_rows v)" "unat (pt_y ?src) + unat (pt_y ?sz) \<le> unat (page_rows v)"
    using 4 by (simp_all add: s)
  have "v' = v\<lparr>buffer_sync := False\<rparr>" using vga_copy_facts(1) [OF *(1-4) _ *(6,7) f] by simp
  then show ?case using copy_lines [OF *] *(1) f unfolding s by simp
next
  case (5 s to n w)
  obtain m v where s: "s = (m, v)" by (cases s)
  let ?to = "\<lparr>pt_x = 0, pt_y = to\<rparr>" and ?sz = "\<lparr>pt_x = page_columns v, pt_y = n\<rparr>"
  obtain m' v' where f: "vga_fill ?to ?sz w (m, v) = (m', v')" by fastforce
  have *: "vga_ok v" "pt_x ?to = 0" "pt_x ?sz = page_columns v" "unat (pt_y ?to) + unat (pt_y ?sz) \<le> unat (page_rows v)"
    using 5 by (simp_all add: s)
  have "v' = v\<lparr>buffer_sync := False\<rparr>" using vga_fill_facts(1) [OF *(1) _ *(4) f] by simp
  then show ?case using fill_lines [OF *, of w m] *(1) f unfolding s by simp
next
  case (6 s)
  obtain m v where s: "s = (m, v)" by (cases s)
  obtain m' v' where f: "vga_flush (m, v) = (m', v')" by fastforce
  have *: "vga_ok v" "synced (m, v)" using 6 by (simp_all add: s)
  show ?case using vga_flush_facts(1) [OF *(1) f] synced_flush [OF *] flush_lines [OF *] *(1) unfolding s f by simp
qed simp_all

section \<open>Properties\<close>

text \<open>The two views of a screen cell, the 16-bit word and its character and colours, determine
  each other: no two cells with different characters or colours have the same word, and every
  word is a cell.\<close>

theorem cell_roundtrip: "repr (attrchar r) = r \<and> attrchar (repr w) = w"
proof
  have "take_bit 4 (color_code c) = color_code c" for c by (cases c) simp_all
  then have small: "bit (color_code c) i \<Longrightarrow> i < 4" for c i by (metis bit_take_bit_iff)
  have "ucast (attrchar r) = character r"
    by (rule bit_word_eqI) (auto simp: attrchar_def bit_simps)
  moreover have "take_bit 4 (drop_bit 8 (attrchar r)) = color_code (fgcolor r)"
    by (rule bit_word_eqI) (auto simp: attrchar_def bit_simps dest: small bit_imp_le_length)
  moreover have "drop_bit 12 (attrchar r) = color_code (bgcolor r)"
    by (rule bit_word_eqI) (auto simp: attrchar_def bit_simps dest: small bit_imp_le_length)
  ultimately show "repr (attrchar r) = r"
    by (simp add: repr_def color_code_bounds)
  have code: "color_code (VGA_colors ! unat u) = u" if "unat u < 16" for u :: u16
    using color_code_nth [OF that] by (simp add: word_unat_eq_iff)
  have "unat (take_bit 4 (drop_bit 8 w)) < 16" using take_bit_nat_less_exp [of 4 "unat (drop_bit 8 w)"] by (simp add: unsigned_take_bit_eq)
  moreover have "unat (drop_bit 12 w) < 16"
  proof -
    have "unat w < 2 ^ 16" using unsigned_less [of w, where 'a = nat] by simp
    then show ?thesis by (subst unat_drop_bit_eq) (simp add: drop_bit_eq_div less_mult_imp_div_less)
  qed
  ultimately have bits: "bit (attrchar (repr w)) n \<longleftrightarrow> bit w n \<and> n < 8 \<or> 8 \<le> n \<and> n < 12 \<and> bit w n \<or> 12 \<le> n \<and> bit w n" if "n < 16" for n
    using that by (auto simp: attrchar_def repr_def code bit_simps)
  show "attrchar (repr w) = w"
  proof (rule bit_word_eqI)
    fix n
    assume "n < LENGTH(16)"
    then show "bit (attrchar (repr w)) n = bit w n" using bits [of n] by (auto simp: not_less)
  qed
qed

end
