(* ===== verification/Console.thy ===== *)
theory Console
  imports Printf Vga
begin

text \<open>
  \<^verbatim>\<open>src/console.c\<close> (lines 1 to 41 and 346 to 686) and \<^verbatim>\<open>console.h\<close>: a console collects bytes in its
  buffer (\<open>cputc\<close>, \<open>vcprintf\<close>) and \<open>cflush\<close> interprets them on the screen. \<open>terminal\<close> is what
  it promises, a list of lines of cells, and the refinement lemmas show that flushing plain
  text does to the screen what \<open>type_text\<close> does to the terminal. \<open>cflush\<close> and \<open>clear_console\<close>
  work on \<open>(memory \<times> vga) \<times> Console\<close>; the constant 0 that \<open>cflush\<close> and \<open>cputs\<close> return is
  left out.
\<close>

section \<open>The console\<close>

definition STDOUT_BUFFER_SIZE :: u32 where
  "STDOUT_BUFFER_SIZE = 512"

record Format =
  foreground :: VGA_color
  background :: VGA_color

record Console =
  con_buffer :: u32
  con_buffer_pos :: u32
  con_buffer_size :: u32
  con_position :: Point
  con_size :: Point
  con_cursor :: Point
  default_format :: Format
  con_format :: Format

type_synonym tty = "(memory \<times> vga) \<times> Console"

definition vga_character :: "u8 \<Rightarrow> Format \<Rightarrow> u16" where
  "vga_character c f = attrchar \<lparr>character = c, fgcolor = foreground f, bgcolor = background f\<rparr>"

definition fullscreen :: Console where
  "fullscreen = \<lparr>con_buffer = 0, con_buffer_pos = 0, con_buffer_size = 0, con_position = \<lparr>pt_x = 0, pt_y = 0\<rparr>,
     con_size = \<lparr>pt_x = 0, pt_y = 0\<rparr>, con_cursor = \<lparr>pt_x = 0, pt_y = 0\<rparr>,
     default_format = \<lparr>foreground = WHITE, background = BLACK\<rparr>, con_format = \<lparr>foreground = BLACK, background = BLACK\<rparr>\<rparr>"

definition clear_console :: "tty \<Rightarrow> tty" where
  "clear_console t =
     (let (s, c) = t;
          s = vga_fill (con_position c) (con_size c) (vga_character (ch (CHR '' '')) (con_format c)) s
      in (vga_flush s, c\<lparr>con_cursor := \<lparr>pt_x = 0, pt_y = 0\<rparr>\<rparr>))"

definition init_consoles :: "immortal \<Rightarrow> tty \<Rightarrow> (immortal \<times> tty) result" where
  "init_consoles im t =
     (let (s, c) = t in
      case malloc_immortal STDOUT_BUFFER_SIZE 8 im of
        Inl e \<Rightarrow> Inl e
      | Inr (p, im) \<Rightarrow>
          (let c = c\<lparr>con_buffer := p, con_buffer_size := STDOUT_BUFFER_SIZE, con_buffer_pos := 0\<rparr> in
           case vga_init_printer 24 80 im s of
             Inl e \<Rightarrow> Inl e
           | Inr (im, s) \<Rightarrow>
               (let c = c\<lparr>con_position := \<lparr>pt_x = 0, pt_y = 0\<rparr>, con_size := \<lparr>pt_x = 80, pt_y = 24\<rparr>,
                      con_cursor := \<lparr>pt_x = 0, pt_y = 0\<rparr>, con_format := default_format c\<rparr>
                in Inr (im, clear_console (s, c)))))"

section \<open>Escape sequences\<close>

definition ESC :: u8 where
  "ESC = 0x1b"

text \<open>The enumerators of \<open>ANSI_4_BIT_COLOR\<close>.\<close>

definition ANSI_FOREGROUND_BLACK :: int where "ANSI_FOREGROUND_BLACK = 30"
definition ANSI_FOREGROUND_RED :: int where "ANSI_FOREGROUND_RED = 31"
definition ANSI_FOREGROUND_GREEN :: int where "ANSI_FOREGROUND_GREEN = 32"
definition ANSI_FOREGROUND_YELLOW :: int where "ANSI_FOREGROUND_YELLOW = 33"
definition ANSI_FOREGROUND_BLUE :: int where "ANSI_FOREGROUND_BLUE = 34"
definition ANSI_FOREGROUND_MAGENTA :: int where "ANSI_FOREGROUND_MAGENTA = 35"
definition ANSI_FOREGROUND_CYAN :: int where "ANSI_FOREGROUND_CYAN = 36"
definition ANSI_FOREGROUND_WHITE :: int where "ANSI_FOREGROUND_WHITE = 37"
definition ANSI_FOREGROUND_DEFAULT :: int where "ANSI_FOREGROUND_DEFAULT = 39"
definition ANSI_FOREGROUND_BRIGHT_BLACK :: int where "ANSI_FOREGROUND_BRIGHT_BLACK = 90"
definition ANSI_FOREGROUND_BRIGHT_RED :: int where "ANSI_FOREGROUND_BRIGHT_RED = 91"
definition ANSI_FOREGROUND_BRIGHT_GREEN :: int where "ANSI_FOREGROUND_BRIGHT_GREEN = 92"
definition ANSI_FOREGROUND_BRIGHT_YELLOW :: int where "ANSI_FOREGROUND_BRIGHT_YELLOW = 93"
definition ANSI_FOREGROUND_BRIGHT_BLUE :: int where "ANSI_FOREGROUND_BRIGHT_BLUE = 94"
definition ANSI_FOREGROUND_BRIGHT_MAGENTA :: int where "ANSI_FOREGROUND_BRIGHT_MAGENTA = 95"
definition ANSI_FOREGROUND_BRIGHT_CYAN :: int where "ANSI_FOREGROUND_BRIGHT_CYAN = 96"
definition ANSI_FOREGROUND_BRIGHT_WHITE :: int where "ANSI_FOREGROUND_BRIGHT_WHITE = 97"
definition ANSI_BACKGROUND_BLACK :: int where "ANSI_BACKGROUND_BLACK = 40"
definition ANSI_BACKGROUND_RED :: int where "ANSI_BACKGROUND_RED = 41"
definition ANSI_BACKGROUND_GREEN :: int where "ANSI_BACKGROUND_GREEN = 42"
definition ANSI_BACKGROUND_YELLOW :: int where "ANSI_BACKGROUND_YELLOW = 43"
definition ANSI_BACKGROUND_BLUE :: int where "ANSI_BACKGROUND_BLUE = 44"
definition ANSI_BACKGROUND_MAGENTA :: int where "ANSI_BACKGROUND_MAGENTA = 45"
definition ANSI_BACKGROUND_CYAN :: int where "ANSI_BACKGROUND_CYAN = 46"
definition ANSI_BACKGROUND_WHITE :: int where "ANSI_BACKGROUND_WHITE = 47"
definition ANSI_BACKGROUND_DEFAULT :: int where "ANSI_BACKGROUND_DEFAULT = 49"
definition ANSI_BACKGROUND_BRIGHT_BLACK :: int where "ANSI_BACKGROUND_BRIGHT_BLACK = 100"
definition ANSI_BACKGROUND_BRIGHT_RED :: int where "ANSI_BACKGROUND_BRIGHT_RED = 101"
definition ANSI_BACKGROUND_BRIGHT_GREEN :: int where "ANSI_BACKGROUND_BRIGHT_GREEN = 102"
definition ANSI_BACKGROUND_BRIGHT_YELLOW :: int where "ANSI_BACKGROUND_BRIGHT_YELLOW = 103"
definition ANSI_BACKGROUND_BRIGHT_BLUE :: int where "ANSI_BACKGROUND_BRIGHT_BLUE = 104"
definition ANSI_BACKGROUND_BRIGHT_MAGENTA :: int where "ANSI_BACKGROUND_BRIGHT_MAGENTA = 105"
definition ANSI_BACKGROUND_BRIGHT_CYAN :: int where "ANSI_BACKGROUND_BRIGHT_CYAN = 106"
definition ANSI_BACKGROUND_BRIGHT_WHITE :: int where "ANSI_BACKGROUND_BRIGHT_WHITE = 107"

lemmas ansi_code_defs =
  ANSI_FOREGROUND_BLACK_def ANSI_FOREGROUND_RED_def ANSI_FOREGROUND_GREEN_def ANSI_FOREGROUND_YELLOW_def
  ANSI_FOREGROUND_BLUE_def ANSI_FOREGROUND_MAGENTA_def ANSI_FOREGROUND_CYAN_def ANSI_FOREGROUND_WHITE_def
  ANSI_FOREGROUND_DEFAULT_def ANSI_FOREGROUND_BRIGHT_BLACK_def ANSI_FOREGROUND_BRIGHT_RED_def ANSI_FOREGROUND_BRIGHT_GREEN_def
  ANSI_FOREGROUND_BRIGHT_YELLOW_def ANSI_FOREGROUND_BRIGHT_BLUE_def ANSI_FOREGROUND_BRIGHT_MAGENTA_def ANSI_FOREGROUND_BRIGHT_CYAN_def
  ANSI_FOREGROUND_BRIGHT_WHITE_def ANSI_BACKGROUND_BLACK_def ANSI_BACKGROUND_RED_def ANSI_BACKGROUND_GREEN_def
  ANSI_BACKGROUND_YELLOW_def ANSI_BACKGROUND_BLUE_def ANSI_BACKGROUND_MAGENTA_def ANSI_BACKGROUND_CYAN_def
  ANSI_BACKGROUND_WHITE_def ANSI_BACKGROUND_DEFAULT_def ANSI_BACKGROUND_BRIGHT_BLACK_def ANSI_BACKGROUND_BRIGHT_RED_def
  ANSI_BACKGROUND_BRIGHT_GREEN_def ANSI_BACKGROUND_BRIGHT_YELLOW_def ANSI_BACKGROUND_BRIGHT_BLUE_def ANSI_BACKGROUND_BRIGHT_MAGENTA_def
  ANSI_BACKGROUND_BRIGHT_CYAN_def ANSI_BACKGROUND_BRIGHT_WHITE_def

text \<open>The cases of the \<open>switch\<close> and the colours they give.\<close>

definition ansi_foreground :: "(int \<times> VGA_color) list" where
  "ansi_foreground =
     [(ANSI_FOREGROUND_BLACK, BLACK), (ANSI_FOREGROUND_RED, RED), (ANSI_FOREGROUND_GREEN, GREEN),
      (ANSI_FOREGROUND_YELLOW, BROWN), (ANSI_FOREGROUND_BLUE, BLUE), (ANSI_FOREGROUND_MAGENTA, MAGENTA),
      (ANSI_FOREGROUND_CYAN, CYAN), (ANSI_FOREGROUND_WHITE, LIGHT_GRAY), (ANSI_FOREGROUND_BRIGHT_BLACK, DARK_GRAY),
      (ANSI_FOREGROUND_BRIGHT_RED, LIGHT_RED), (ANSI_FOREGROUND_BRIGHT_GREEN, LIGHT_GREEN), (ANSI_FOREGROUND_BRIGHT_YELLOW, YELLOW),
      (ANSI_FOREGROUND_BRIGHT_BLUE, LIGHT_BLUE), (ANSI_FOREGROUND_BRIGHT_MAGENTA, LIGHT_MAGENTA), (ANSI_FOREGROUND_BRIGHT_CYAN, LIGHT_CYAN),
      (ANSI_FOREGROUND_BRIGHT_WHITE, WHITE)]"

definition ansi_background :: "(int \<times> VGA_color) list" where
  "ansi_background =
     [(ANSI_BACKGROUND_BLACK, BLACK), (ANSI_BACKGROUND_RED, RED), (ANSI_BACKGROUND_GREEN, GREEN),
      (ANSI_BACKGROUND_YELLOW, BROWN), (ANSI_BACKGROUND_BLUE, BLUE), (ANSI_BACKGROUND_MAGENTA, MAGENTA),
      (ANSI_BACKGROUND_CYAN, CYAN), (ANSI_BACKGROUND_WHITE, LIGHT_GRAY), (ANSI_BACKGROUND_BRIGHT_BLACK, DARK_GRAY),
      (ANSI_BACKGROUND_BRIGHT_RED, LIGHT_RED), (ANSI_BACKGROUND_BRIGHT_GREEN, LIGHT_GREEN), (ANSI_BACKGROUND_BRIGHT_YELLOW, YELLOW),
      (ANSI_BACKGROUND_BRIGHT_BLUE, LIGHT_BLUE), (ANSI_BACKGROUND_BRIGHT_MAGENTA, LIGHT_MAGENTA), (ANSI_BACKGROUND_BRIGHT_CYAN, LIGHT_CYAN),
      (ANSI_BACKGROUND_BRIGHT_WHITE, WHITE)]"

definition process_graphic_escape_sequence :: "int \<Rightarrow> Console \<Rightarrow> Console" where
  "process_graphic_escape_sequence code c =
     (let c = (if code = 0 then c\<lparr>con_format := default_format c\<rparr> else c) in
      if ANSI_FOREGROUND_BLACK \<le> code \<and> code \<le> ANSI_FOREGROUND_WHITE
         \<or> ANSI_FOREGROUND_BRIGHT_BLACK \<le> code \<and> code \<le> ANSI_FOREGROUND_BRIGHT_WHITE
         \<or> ANSI_BACKGROUND_BLACK \<le> code \<and> code \<le> ANSI_BACKGROUND_WHITE
         \<or> ANSI_BACKGROUND_BRIGHT_BLACK \<le> code \<and> code \<le> ANSI_BACKGROUND_BRIGHT_WHITE
      then if code = ANSI_FOREGROUND_DEFAULT then c\<lparr>con_format := (con_format c)\<lparr>foreground := foreground (default_format c)\<rparr>\<rparr>
           else if code = ANSI_BACKGROUND_DEFAULT then c\<lparr>con_format := (con_format c)\<lparr>background := background (default_format c)\<rparr>\<rparr>
           else (case map_of ansi_foreground code of
                   Some col \<Rightarrow> c\<lparr>con_format := (con_format c)\<lparr>foreground := col\<rparr>\<rparr>
                 | None \<Rightarrow>
                     (case map_of ansi_background code of
                        Some col \<Rightarrow> c\<lparr>con_format := (con_format c)\<lparr>background := col\<rparr>\<rparr>
                      | None \<Rightarrow> c))
      else c)"

definition process_escape_sequence :: "memory \<Rightarrow> u32 \<Rightarrow> Console \<Rightarrow> (u32 \<times> Console) option" where
  "process_escape_sequence m string c =
     (if m string \<noteq> ch (CHR ''['') then Some (string, c)
      else let pos = string + 1 in
           if isdigit (m pos)
           then (case parse_int m pos of
                   None \<Rightarrow> None
                 | Some (pos, n) \<Rightarrow>
                     Some (pos + 1, if m pos = ch (CHR ''m'') then process_graphic_escape_sequence n c else c))
           else Some (pos, c))"

section \<open>Writing to the screen\<close>

definition inplace_cwrite :: "u8 \<Rightarrow> tty \<Rightarrow> tty" where
  "inplace_cwrite k t =
     (let (s, c) = t in
      (vga_print_char (vga_character k (con_format c)) (pt_x (con_position c) + pt_x (con_cursor c))
         (pt_y (con_position c) + pt_y (con_cursor c)) s, c))"

definition cwrite :: "u8 \<Rightarrow> tty \<Rightarrow> tty" where
  "cwrite k t =
     (let (s, c) = inplace_cwrite k t; x = pt_x (con_cursor c) + 1 in
      if x div pt_x (con_size c) \<noteq> 0
      then (s, c\<lparr>con_cursor := \<lparr>pt_x = 0, pt_y = pt_y (con_cursor c) + 1\<rparr>\<rparr>)
      else (s, c\<lparr>con_cursor := (con_cursor c)\<lparr>pt_x := x\<rparr>\<rparr>))"

definition cget_char :: "tty \<Rightarrow> u8" where
  "cget_char t =
     (let (s, c) = t in
      character (repr (vga_get_char (pt_x (con_position c) + pt_x (con_cursor c)) (pt_y (con_position c) + pt_y (con_cursor c)) s)))"

definition cscroll :: "tty \<Rightarrow> tty" where
  "cscroll t =
     (let (s, c) = t;
          s = vga_copy (con_position c) \<lparr>pt_x = pt_x (con_position c), pt_y = pt_y (con_position c) + 1\<rparr>
                \<lparr>pt_x = pt_x (con_size c), pt_y = pt_y (con_size c) - 1\<rparr> s;
          s = vga_fill \<lparr>pt_x = pt_x (con_position c), pt_y = pt_y (con_position c) + pt_y (con_size c) - 1\<rparr>
                \<lparr>pt_x = pt_x (con_size c), pt_y = 1\<rparr> (vga_character (ch (CHR '' '')) (con_format c)) s
      in (s, if pt_y (con_cursor c) \<noteq> 0 then c\<lparr>con_cursor := (con_cursor c)\<lparr>pt_y := pt_y (con_cursor c) - 1\<rparr>\<rparr> else c))"

text \<open>
  The loop of \<open>\b\<close> at the start of a line: back over blanks; the flag is \<open>c = 0\<close>, that at
  least one blank was passed.
\<close>

function back_over_blanks :: "memory \<times> vga \<Rightarrow> Console \<Rightarrow> bool \<Rightarrow> Console \<times> bool" where
  "back_over_blanks s c passed =
     (if cget_char (s, c) = ch (CHR '' '') \<and> pt_x (con_cursor c) \<noteq> 0
      then back_over_blanks s (c\<lparr>con_cursor := (con_cursor c)\<lparr>pt_x := pt_x (con_cursor c) - 1\<rparr>\<rparr>) True
      else (c, passed))"
  by pat_completeness auto
termination
  by (relation "measure (\<lambda>(s, c, passed). unat (pt_x (con_cursor c)))") (auto simp: unat_minus_one unat_gt_0)

declare back_over_blanks.simps [simp del]

definition cbackspace :: "tty \<Rightarrow> tty" where
  "cbackspace t =
     (let (s, c) = t;
          c = (if pt_x (con_cursor c) \<noteq> 0
               then c\<lparr>con_cursor := (con_cursor c)\<lparr>pt_x := pt_x (con_cursor c) - 1\<rparr>\<rparr>
               else let c = c\<lparr>con_cursor := (con_cursor c)\<lparr>pt_x := pt_x (con_size c) - 1\<rparr>\<rparr>;
                        c = (if pt_y (con_cursor c) \<noteq> 0
                             then c\<lparr>con_cursor := (con_cursor c)\<lparr>pt_y := pt_y (con_cursor c) - 1\<rparr>\<rparr> else c);
                        (c, passed) = back_over_blanks s c False
                    in if passed then c\<lparr>con_cursor := (con_cursor c)\<lparr>pt_x := pt_x (con_cursor c) + 1\<rparr>\<rparr> else c)
      in inplace_cwrite (ch (CHR '' '')) (s, c))"

text \<open>The \<open>switch\<close> of \<open>cflush\<close>, escapes apart.\<close>

definition cflush_char :: "u32 \<Rightarrow> u8 \<Rightarrow> tty \<Rightarrow> tty" where
  "cflush_char bottom_bound k t =
     (if k = ch (CHR ''\<newline>'')
      then let (s, c) = t;
               c = c\<lparr>con_cursor := (con_cursor c)\<lparr>pt_y := pt_y (con_cursor c) + 1\<rparr>\<rparr>;
               (s, c) = (if bottom_bound \<le> pt_y (con_cursor c) then cscroll (s, c) else (s, c))
           in (s, c\<lparr>con_cursor := (con_cursor c)\<lparr>pt_x := 0\<rparr>\<rparr>)
      else if k = 0x0d then (let (s, c) = t in (s, c\<lparr>con_cursor := (con_cursor c)\<lparr>pt_x := 0\<rparr>\<rparr>))
      else if k = 0x08 then cbackspace t
      else cwrite k t)"

partial_function (option) cflush_loop :: "u32 \<Rightarrow> u32 \<Rightarrow> u32 \<Rightarrow> tty \<Rightarrow> tty option" where
  "cflush_loop end_ptr bottom_bound pos t =
     (if \<not> pos < end_ptr then Some t
      else let (s, c) = (if bottom_bound \<le> pt_y (con_cursor (snd t)) then cscroll t else t); k = fst s pos in
           if k = ESC
           then (case process_escape_sequence (fst s) (pos + 1) c of
                   None \<Rightarrow> None
                 | Some (pos, c) \<Rightarrow> cflush_loop end_ptr bottom_bound pos (s, c))
           else cflush_loop end_ptr bottom_bound (pos + 1) (cflush_char bottom_bound k (s, c)))"

definition cflush :: "tty \<Rightarrow> tty option" where
  "cflush t =
     (let c = snd t in
      if con_buffer_pos c = 0 then Some t
      else case cflush_loop (con_buffer c + con_buffer_pos c) (pt_y (con_position c) + pt_y (con_size c)) (con_buffer c) t of
             None \<Rightarrow> None
           | Some (s, c) \<Rightarrow> Some (vga_flush s, c\<lparr>con_buffer_pos := 0\<rparr>))"

section \<open>Output to the buffer\<close>

text \<open>\<open>cputc\<close> and the functions on it return the character written.\<close>

definition cputc :: "u32 \<Rightarrow> tty \<Rightarrow> (u8 \<times> tty) option" where
  "cputc k t =
     (case (if con_buffer_size (snd t) \<le> con_buffer_pos (snd t) then cflush t else Some t) of
        None \<Rightarrow> None
      | Some ((m, v), c) \<Rightarrow>
          Some (ucast k, (m(con_buffer c + con_buffer_pos c := ucast k), v), c\<lparr>con_buffer_pos := con_buffer_pos c + 1\<rparr>))"

partial_function (option) cputs :: "u32 \<Rightarrow> tty \<Rightarrow> tty option" where
  "cputs s t =
     (let c = fst (fst t) s in
      if c = 0 then Some t
      else case cputc (scast c) t of None \<Rightarrow> None | Some (_, t) \<Rightarrow> cputs (s + 1) t)"

definition putchar :: "u32 \<Rightarrow> tty \<Rightarrow> (u8 \<times> tty) option" where
  "putchar k t = cputc k t"

definition puts :: "u32 \<Rightarrow> tty \<Rightarrow> tty option" where
  "puts s t =
     (case cputs s t of
        None \<Rightarrow> None
      | Some t \<Rightarrow> map_option snd (putchar (ucast (ch (CHR ''\<newline>''))) t))"

definition vcprintf :: "u32 \<Rightarrow> (nat \<Rightarrow> u32) \<Rightarrow> tty \<Rightarrow> (int \<times> tty) option" where
  "vcprintf fmt arg t =
     (let ((m, v), c) = t; sz = con_buffer_size c - con_buffer_pos c in
      case vsnprintf m (con_buffer c + con_buffer_pos c) sz fmt arg of
        None \<Rightarrow> None
      | Some (ret, m) \<Rightarrow>
          if 0 \<le> ret
          then let c = c\<lparr>con_buffer_pos := con_buffer_pos c + (if (word_of_int ret :: u32) < sz then word_of_int ret else sz)\<rparr>
               in map_option (\<lambda>t. (ret, t)) (cflush ((m, v), c))
          else Some (ret, (m, v), c))"

definition cprintf :: "u32 \<Rightarrow> (nat \<Rightarrow> u32) \<Rightarrow> tty \<Rightarrow> (int \<times> tty) option" where
  "cprintf fmt arg t = vcprintf fmt arg t"

definition printf :: "u32 \<Rightarrow> (nat \<Rightarrow> u32) \<Rightarrow> tty \<Rightarrow> (int \<times> tty) option" where
  "printf fmt arg t = vcprintf fmt arg t"

definition vprintf :: "u32 \<Rightarrow> (nat \<Rightarrow> u32) \<Rightarrow> tty \<Rightarrow> (int \<times> tty) option" where
  "vprintf fmt arg t = vcprintf fmt arg t"

section \<open>Lemmas: a console on the whole page\<close>

definition console_ok :: "tty \<Rightarrow> bool" where
  "console_ok t \<longleftrightarrow> (let ((m, v), c) = t in
     vga_ok v \<and> synced (m, v) \<and> con_position c = \<lparr>pt_x = 0, pt_y = 0\<rparr>
     \<and> con_size c = \<lparr>pt_x = page_columns v, pt_y = page_rows v\<rparr> \<and> 0 < unat (page_columns v) \<and> 0 < unat (page_rows v)
     \<and> unat (pt_x (con_cursor c)) < unat (page_columns v) \<and> unat (pt_y (con_cursor c)) \<le> unat (page_rows v))"

definition in_display :: "vga \<Rightarrow> u32 \<Rightarrow> bool" where
  "in_display v a \<longleftrightarrow> in_screen v a \<or> in_shadow v a"

text \<open>
  What any of the operations may do to a console that is in order: it stays in order, only
  the cursor, the format and \<open>buffer_sync\<close> change, and only the screen and its shadow are
  written.
\<close>

definition evolves :: "tty \<Rightarrow> tty \<Rightarrow> bool" where
  "evolves t t' \<longleftrightarrow> (let ((m, v), c) = t; ((m', v'), c') = t' in
     console_ok t' \<and> v' = v\<lparr>buffer_sync := buffer_sync v'\<rparr>
     \<and> c' = c\<lparr>con_cursor := con_cursor c', con_format := con_format c'\<rparr> \<and> same_outside (in_display v) m m')"

lemma in_display_eta: "in_display v = (\<lambda>a. in_screen v a \<or> in_shadow v a)"
  by (simp add: in_display_def fun_eq_iff)

lemma in_display_update [simp]: "in_display (v\<lparr>buffer_sync := b\<rparr>) = in_display v"
  by (simp add: in_display_def fun_eq_iff)

lemma evolves_refl: "console_ok t \<Longrightarrow> evolves t t"
  by (simp add: evolves_def split: prod.splits)

lemma evolves_trans:
  assumes "evolves t t'" "evolves t' t''"
  shows "evolves t t''"
proof -
  obtain m v c m' v' c' m'' v'' c'' where t: "t = ((m, v), c)" "t' = ((m', v'), c')" "t'' = ((m'', v''), c'')"
    by (metis surj_pair)
  have 1: "v' = v\<lparr>buffer_sync := buffer_sync v'\<rparr>" "c' = c\<lparr>con_cursor := con_cursor c', con_format := con_format c'\<rparr>"
    "same_outside (in_display v) m m'"
    using assms(1) by (simp_all add: evolves_def t)
  have 2: "console_ok t''" "v'' = v'\<lparr>buffer_sync := buffer_sync v''\<rparr>"
    "c'' = c'\<lparr>con_cursor := con_cursor c'', con_format := con_format c''\<rparr>" "same_outside (in_display v') m' m''"
    using assms(2) by (simp_all add: evolves_def t)
  have "in_display v' = in_display v" by (subst 1(1)) simp
  with 1(3) 2(4) have "same_outside (in_display v) m m''" using same_outside_trans by metis
  moreover have "v'' = v\<lparr>buffer_sync := buffer_sync v''\<rparr>"
    using 1(1) 2(2) by (metis vga.update_convs(4) vga.surjective)
  moreover have "c'' = c\<lparr>con_cursor := con_cursor c'', con_format := con_format c''\<rparr>"
    by (rule Console.equality; subst 2(3), subst 1(2)) simp_all
  ultimately show ?thesis using 2(1) by (simp add: evolves_def t)
qed

lemma evolves_ok: "evolves t t' \<Longrightarrow> console_ok t'"
  by (simp add: evolves_def split: prod.splits)

text \<open>The geometry of a console that is in order.\<close>

lemma console_okD:
  assumes "console_ok ((m, v), c)"
  shows "vga_ok v" "synced (m, v)" "con_position c = \<lparr>pt_x = 0, pt_y = 0\<rparr>" "con_size c = \<lparr>pt_x = page_columns v, pt_y = page_rows v\<rparr>"
    "0 < unat (page_columns v)" "0 < unat (page_rows v)" "unat (pt_x (con_cursor c)) < unat (page_columns v)"
    "unat (pt_y (con_cursor c)) \<le> unat (page_rows v)"
  using assms by (simp_all add: console_ok_def)

lemma console_okI:
  assumes "console_ok ((m, v), c)" "synced (m', v')" "v' = v\<lparr>buffer_sync := b\<rparr>"
    and "c' = c\<lparr>con_cursor := p, con_format := f\<rparr>" "unat (pt_x p) < unat (page_columns v)" "unat (pt_y p) \<le> unat (page_rows v)"
  shows "console_ok ((m', v'), c')"
  using assms by (simp add: console_ok_def)

lemma inplace_cwrite_step:
  assumes "console_ok ((m, v), c)" "pt_y (con_cursor c) < page_rows v"
    and "inplace_cwrite k ((m, v), c) = ((m', v'), c')"
  shows "evolves ((m, v), c) ((m', v'), c')" "c' = c" "v' = v"
    "shadow_lines (m', v') = (shadow_lines (m, v))[unat (pt_y (con_cursor c)) :=
       (shadow_lines (m, v) ! unat (pt_y (con_cursor c)))[unat (pt_x (con_cursor c)) := vga_character k (con_format c)]]"
proof -
  note D = console_okD [OF assms(1)]
  have y: "unat (pt_y (con_cursor c)) < unat (page_rows v)" using assms(2) by (simp add: word_less_nat_alt)
  let ?p = "vga_print_char (vga_character k (con_format c)) (pt_x (con_cursor c)) (pt_y (con_cursor c)) (m, v)"
  have f: "?p = (m', v')" and c: "c' = c" using assms(3) D(3) by (auto simp: inplace_cwrite_def)
  note F = vga_print_char_facts [OF D(1,7) y f]
  show "c' = c" by (rule c)
  show "v' = v" by (rule F(1))
  have "synced (m', v')" using screen.put_law [of "(m, v)"] D(1,2,7) y f by (metis snd_conv)
  then have "console_ok ((m', v'), c')" using assms(1) D unfolding c F(1) by (simp add: console_ok_def)
  then show "evolves ((m, v), c) ((m', v'), c')" using F(2) unfolding c F(1) by (simp add: evolves_def in_display_eta)
  show "shadow_lines (m', v') = (shadow_lines (m, v))[unat (pt_y (con_cursor c)) :=
       (shadow_lines (m, v) ! unat (pt_y (con_cursor c)))[unat (pt_x (con_cursor c)) := vga_character k (con_format c)]]"
    using screen.put_law [of "(m, v)"] D(1,2,7) y f by (metis snd_conv)
qed

lemma cwrite_step:
  assumes "console_ok ((m, v), c)" "pt_y (con_cursor c) < page_rows v" "cwrite k ((m, v), c) = ((m', v'), c')"
  shows "evolves ((m, v), c) ((m', v'), c')" "v' = v"
    "shadow_lines (m', v') = (shadow_lines (m, v))[unat (pt_y (con_cursor c)) :=
       (shadow_lines (m, v) ! unat (pt_y (con_cursor c)))[unat (pt_x (con_cursor c)) := vga_character k (con_format c)]]"
    "con_format c' = con_format c"
    "(unat (pt_x (con_cursor c')), unat (pt_y (con_cursor c'))) =
       (if Suc (unat (pt_x (con_cursor c))) = unat (page_columns v) then (0, Suc (unat (pt_y (con_cursor c))))
        else (Suc (unat (pt_x (con_cursor c))), unat (pt_y (con_cursor c))))"
proof -
  note D = console_okD [OF assms(1)]
  obtain m1 v1 c1 where f: "inplace_cwrite k ((m, v), c) = ((m1, v1), c1)" by (metis surj_pair)
  note F = inplace_cwrite_step [OF assms(1,2) f]
  let ?x = "pt_x (con_cursor c)" and ?y = "pt_y (con_cursor c)"
  have x: "unat (?x + 1) = Suc (unat ?x)" using D(7) unat_lt_2p32 [of "page_columns v"] by (simp add: unat_word_ariths)
  have y: "unat (?y + 1) = Suc (unat ?y)" "unat ?y < unat (page_rows v)"
    using assms(2) unat_lt_2p32 [of "page_rows v"] by (simp_all add: unat_word_ariths word_less_nat_alt)
  have wrap: "(?x + 1) div page_columns v \<noteq> 0 \<longleftrightarrow> Suc (unat ?x) = unat (page_columns v)"
  proof -
    have "(?x + 1) div page_columns v = 0 \<longleftrightarrow> unat ((?x + 1) div page_columns v) = 0" by (simp add: unat_eq_0)
    also have "\<dots> \<longleftrightarrow> Suc (unat ?x) < unat (page_columns v)" using D(5) unfolding unat_div x by (simp add: div_eq_0_iff)
    finally show ?thesis using D(7) by linarith
  qed
  have r: "((m', v'), c') = ((m1, v1), if Suc (unat ?x) = unat (page_columns v)
      then c\<lparr>con_cursor := \<lparr>pt_x = 0, pt_y = ?y + 1\<rparr>\<rparr> else c\<lparr>con_cursor := (con_cursor c)\<lparr>pt_x := ?x + 1\<rparr>\<rparr>)"
    using assms(3) wrap D(4) unfolding cwrite_def f F(2) Let_def prod.case by (auto split: if_splits)
  show "v' = v" using r F(3) by simp
  show "(unat (pt_x (con_cursor c')), unat (pt_y (con_cursor c'))) =
       (if Suc (unat ?x) = unat (page_columns v) then (0, Suc (unat ?y)) else (Suc (unat ?x), unat ?y))"
    using r x y by simp
  show "shadow_lines (m', v') = (shadow_lines (m, v))[unat ?y := (shadow_lines (m, v) ! unat ?y)[unat ?x := vga_character k (con_format c)]]"
    using F(4) r by simp
  show "con_format c' = con_format c" using r by simp
  have "console_ok ((m', v'), c')"
    using evolves_ok [OF F(1)] r x y D(5,7) F(2,3) by (auto simp: console_ok_def split: if_splits)
  then show "evolves ((m, v), c) ((m', v'), c')" using F(1) r F(2) by (simp add: evolves_def)
qed


text \<open>Scrolling: the top line goes, the others move up, a blank one comes in.\<close>

lemma cscroll_step:
  assumes "console_ok ((m, v), c)" "cscroll ((m, v), c) = ((m', v'), c')"
  shows "evolves ((m, v), c) ((m', v'), c')"
    "shadow_lines (m', v') = tl (shadow_lines (m, v)) @ [replicate (unat (page_columns v)) (vga_character (ch (CHR '' '')) (con_format c))]"
    "con_format c' = con_format c" "pt_x (con_cursor c') = pt_x (con_cursor c)"
    "unat (pt_y (con_cursor c')) = unat (pt_y (con_cursor c)) - 1"
proof -
  note D = console_okD [OF assms(1)]
  let ?C = "unat (page_columns v)" and ?R = "unat (page_rows v)" and ?bl = "vga_character (ch (CHR '' '')) (con_format c)"
  let ?src = "\<lparr>pt_x = 0 :: u32, pt_y = 1\<rparr>" and ?sz = "\<lparr>pt_x = page_columns v, pt_y = page_rows v - 1\<rparr>"
  let ?last = "\<lparr>pt_x = 0 :: u32, pt_y = page_rows v - 1\<rparr>" and ?one = "\<lparr>pt_x = page_columns v, pt_y = 1 :: u32\<rparr>"
  have r: "unat (page_rows v - 1) = ?R - 1" using D(6) by (simp add: unat_minus_one unat_gt_0)
  obtain m1 v1 where f1: "vga_copy (con_position c) ?src ?sz (m, v) = (m1, v1)" by fastforce
  obtain m2 v2 where f2: "vga_fill ?last ?one ?bl (m1, v1) = (m2, v2)" by fastforce
  have fits: "unat (pt_y (con_position c)) + unat (pt_y ?sz) \<le> ?R" "unat (pt_y ?src) + unat (pt_y ?sz) \<le> ?R"
    using D(3,6) r by simp_all
  have x: "pt_x (con_position c) = 0" "pt_x ?src = 0" "page_columns v \<le> pt_x ?sz" "pt_x ?sz = page_columns v" using D(3) by simp_all
  note F1 = vga_copy_facts [OF D(1,2) x(1-3) fits f1]
  have ok1: "vga_ok v1" and p1: "page_columns v1 = page_columns v" "page_rows v1 = page_rows v" "in_shadow v1 = in_shadow v"
    using D(1) F1(1) by simp_all
  have fits2: "unat (pt_x ?last) + unat (pt_x ?one) \<le> unat (page_columns v1)" "unat (pt_y ?last) + unat (pt_y ?one) \<le> unat (page_rows v1)"
    using D(6) r p1 by simp_all
  note F2 = vga_fill_facts [OF ok1 fits2 f2]
  have res: "m' = m2" "v' = v2" "c' = (if pt_y (con_cursor c) \<noteq> 0
      then c\<lparr>con_cursor := (con_cursor c)\<lparr>pt_y := pt_y (con_cursor c) - 1\<rparr>\<rparr> else c)"
    using assms(2) f1 f2 unfolding cscroll_def Let_def prod.case D(3,4) by (auto simp: D(3))
  show "con_format c' = con_format c" "pt_x (con_cursor c') = pt_x (con_cursor c)" using res(3) by simp_all
  show y: "unat (pt_y (con_cursor c')) = unat (pt_y (con_cursor c)) - 1"
    using res(3) by (simp add: unat_minus_one)
  have v': "v' = v\<lparr>buffer_sync := False\<rparr>" unfolding res(2) F2(1) F1(1) by simp
  have "same_outside (in_display v) m m'"
    using F1(2) F2(2) unfolding res(1) p1(3) in_display_eta by (auto simp: same_outside_def)
  moreover have "console_ok ((m', v'), c')"
    using assms(1) y res(3) unfolding v' by (auto simp: console_ok_def synced_def)
  ultimately show "evolves ((m, v), c) ((m', v'), c')"
    using v' res(3) by (simp add: evolves_def)
  have "vga_ok (snd (m, v)) \<and> synced (m, v)" "0 < unat (page_rows (snd (m, v)))" "unat (page_rows v - 1) = unat (page_rows (snd (m, v))) - 1"
    using D(1,2,6) r by simp_all
  from screen.scrolled(4) [OF this, of ?bl]
  show "shadow_lines (m', v') = tl (shadow_lines (m, v)) @ [replicate ?C ?bl]"
    using f1 f2 D(3) p1 res(1,2) by simp
qed

text \<open>Backspace, wherever the cursor is.\<close>

lemma back_over_blanks_cursor:
  assumes "back_over_blanks s c p = (c', p')"
  shows "\<exists>x. c' = c\<lparr>con_cursor := (con_cursor c)\<lparr>pt_x := x\<rparr>\<rparr> \<and> unat x + (if p' \<and> \<not> p then 1 else 0) \<le> unat (pt_x (con_cursor c))"
  using assms
proof (induction s c p arbitrary: c' p' rule: back_over_blanks.induct)
  case (1 s c p)
  let ?c = "c\<lparr>con_cursor := (con_cursor c)\<lparr>pt_x := pt_x (con_cursor c) - 1\<rparr>\<rparr>"
  show ?case
  proof (cases "cget_char (s, c) = ch (CHR '' '') \<and> pt_x (con_cursor c) \<noteq> 0")
    case True
    then have "back_over_blanks s ?c True = (c', p')" using "1.prems" by (simp add: back_over_blanks.simps [of s c])
    from "1.IH" [OF True this] obtain x where x: "c' = ?c\<lparr>con_cursor := (con_cursor ?c)\<lparr>pt_x := x\<rparr>\<rparr>"
      "unat x \<le> unat (pt_x (con_cursor c) - 1)" by auto
    moreover have "unat (pt_x (con_cursor c) - 1) = unat (pt_x (con_cursor c)) - 1" "0 < unat (pt_x (con_cursor c))"
      using True by (simp_all add: unat_minus_one unat_gt_0)
    ultimately show ?thesis by (intro exI [of _ x]) auto
  next
    case False
    then have "(c, p) = (c', p')" using "1.prems" unfolding back_over_blanks.simps [of s c] by (simp only: if_False)
    then show ?thesis by (intro exI [of _ "pt_x (con_cursor c)"]) auto
  qed
qed

lemma cbackspace_step:
  assumes "console_ok ((m, v), c)" "pt_y (con_cursor c) < page_rows v"
  shows "evolves ((m, v), c) (cbackspace ((m, v), c))"
proof -
  note D = console_okD [OF assms(1)]
  have y: "unat (pt_y (con_cursor c)) < unat (page_rows v)" using assms(2) by (simp add: word_less_nat_alt)
  define p where "p = (if pt_x (con_cursor c) \<noteq> 0 then (con_cursor c)\<lparr>pt_x := pt_x (con_cursor c) - 1\<rparr>
    else \<lparr>pt_x = page_columns v - 1, pt_y = if pt_y (con_cursor c) \<noteq> 0 then pt_y (con_cursor c) - 1 else pt_y (con_cursor c)\<rparr>)"
  have p: "unat (pt_x p) < unat (page_columns v)" "unat (pt_y p) < unat (page_rows v)"
    using D(5,7) y by (auto simp: p_def unat_minus_one unat_gt_0)
  have "\<exists>q. cbackspace ((m, v), c) = inplace_cwrite (ch (CHR '' '')) ((m, v), c\<lparr>con_cursor := q\<rparr>)
      \<and> unat (pt_x q) < unat (page_columns v) \<and> unat (pt_y q) < unat (page_rows v)"
  proof (cases "pt_x (con_cursor c) = 0")
    case False
    then have "cbackspace ((m, v), c) = inplace_cwrite (ch (CHR '' '')) ((m, v), c\<lparr>con_cursor := p\<rparr>)"
      by (simp add: cbackspace_def p_def)
    then show ?thesis using p by blast
  next
    case True
    obtain c1 passed where b: "back_over_blanks (m, v) (c\<lparr>con_cursor := p\<rparr>) False = (c1, passed)" by fastforce
    from back_over_blanks_cursor [OF this] obtain x where x: "c1 = c\<lparr>con_cursor := p\<lparr>pt_x := x\<rparr>\<rparr>"
      "unat x + (if passed then 1 else 0) \<le> unat (pt_x p)" by auto
    define q where "q = (if passed then p\<lparr>pt_x := x + 1\<rparr> else p\<lparr>pt_x := x\<rparr>)"
    have "unat (pt_x q) \<le> unat (pt_x p)" using x(2) by (auto simp: q_def unat_word_ariths intro: order_trans [OF mod_less_eq_dividend])
    moreover have "pt_y q = pt_y p" by (simp add: q_def)
    moreover have "c\<lparr>con_cursor := (con_cursor c)\<lparr>pt_x := pt_x (con_size c) - 1\<rparr>\<rparr>\<lparr>con_cursor := (con_cursor c)\<lparr>pt_x := pt_x (con_size c) - 1, pt_y := pt_y (con_cursor c) - 1\<rparr>\<rparr> = c\<lparr>con_cursor := p\<rparr>" if "pt_y (con_cursor c) \<noteq> 0"
      using True that D(4) by (simp add: p_def)
    moreover have "c\<lparr>con_cursor := (con_cursor c)\<lparr>pt_x := pt_x (con_size c) - 1\<rparr>\<rparr> = c\<lparr>con_cursor := p\<rparr>" if "pt_y (con_cursor c) = 0"
      using True that D(4) by (simp add: p_def)
    ultimately have "cbackspace ((m, v), c) = inplace_cwrite (ch (CHR '' '')) ((m, v), c\<lparr>con_cursor := q\<rparr>)"
      using True b x(1) unfolding cbackspace_def Let_def by (auto simp: q_def)
    then show ?thesis using p \<open>unat (pt_x q) \<le> _\<close> \<open>pt_y q = _\<close> by (intro exI [of _ q]) auto
  qed
  then obtain q where q: "cbackspace ((m, v), c) = inplace_cwrite (ch (CHR '' '')) ((m, v), c\<lparr>con_cursor := q\<rparr>)"
    "unat (pt_x q) < unat (page_columns v)" "unat (pt_y q) < unat (page_rows v)" by auto
  have ok: "console_ok ((m, v), c\<lparr>con_cursor := q\<rparr>)" using assms(1) q(2,3) by (simp add: console_ok_def)
  then have e: "evolves ((m, v), c) ((m, v), c\<lparr>con_cursor := q\<rparr>)" by (simp add: evolves_def)
  obtain m' v' c' where f: "inplace_cwrite (ch (CHR '' '')) ((m, v), c\<lparr>con_cursor := q\<rparr>) = ((m', v'), c')" by (metis surj_pair)
  have "pt_y (con_cursor (c\<lparr>con_cursor := q\<rparr>)) < page_rows v" using q(3) by (simp add: word_less_nat_alt)
  from inplace_cwrite_step(1) [OF ok this f] show ?thesis unfolding q(1) f using e evolves_trans by blast
qed


lemma cflush_char_step:
  assumes "console_ok ((m, v), c)" "pt_y (con_cursor c) < page_rows v"
  shows "evolves ((m, v), c) (cflush_char (page_rows v) k ((m, v), c))"
proof -
  note D = console_okD [OF assms(1)]
  have y: "unat (pt_y (con_cursor c) + 1) = Suc (unat (pt_y (con_cursor c)))" "unat (pt_y (con_cursor c)) < unat (page_rows v)"
    using assms(2) unat_lt_2p32 [of "page_rows v"] by (simp_all add: word_less_nat_alt unat_word_ariths)
  have home: "evolves t ((m', v'), c'\<lparr>con_cursor := (con_cursor c')\<lparr>pt_x := 0\<rparr>\<rparr>)" if "evolves t ((m', v'), c')" for t m' v' c'
  proof -
    have "evolves ((m', v'), c') ((m', v'), c'\<lparr>con_cursor := (con_cursor c')\<lparr>pt_x := 0\<rparr>\<rparr>)"
      using evolves_ok [OF that] by (simp add: evolves_def console_ok_def)
    with that show ?thesis by (rule evolves_trans)
  qed
  consider (nl) "k = ch (CHR ''\<newline>'')" | (cr) "k = 0x0d" | (bs) "k = 0x08"
    | (plain) "k \<noteq> ch (CHR ''\<newline>'')" "k \<noteq> 0x0d" "k \<noteq> 0x08" by blast
  then show ?thesis
  proof cases
    case nl
    let ?c = "c\<lparr>con_cursor := (con_cursor c)\<lparr>pt_y := pt_y (con_cursor c) + 1\<rparr>\<rparr>"
    have ok: "console_ok ((m, v), ?c)" using assms(1) y by (simp add: console_ok_def)
    then have e: "evolves ((m, v), c) ((m, v), ?c)" by (simp add: evolves_def)
    obtain m' v' c' where f: "cscroll ((m, v), ?c) = ((m', v'), c')" by (metis surj_pair)
    show ?thesis
      using nl home [OF e] home [OF evolves_trans [OF e cscroll_step(1) [OF ok f]]] f
      by (simp add: cflush_char_def Let_def)
  next
    case cr
    then show ?thesis using home [OF evolves_refl [OF assms(1)]] by (simp add: cflush_char_def)
  next
    case bs
    then show ?thesis using cbackspace_step [OF assms] by (simp add: cflush_char_def)
  next
    case plain
    obtain m' v' c' where f: "cwrite k ((m, v), c) = ((m', v'), c')" by (metis surj_pair)
    show ?thesis using plain cwrite_step(1) [OF assms f] f by (simp add: cflush_char_def)
  qed
qed

section \<open>Lemmas: escape sequences end\<close>

lemma parse_int_loop_stops:
  assumes "\<not> isdigit (m (s + of_nat d))"
  shows "\<exists>k n. k \<le> d \<and> parse_int_loop m s w = Some (s + of_nat k, n)"
  using assms
proof (induction d arbitrary: s w)
  case 0
  then show ?case by (intro exI [of _ 0] exI [of _ w]) (simp add: parse_int_loop.simps [of m s])
next
  case (Suc d)
  show ?case
  proof (cases "isdigit (m s)")
    case True
    have "\<not> isdigit (m (s + 1 + of_nat d))" using Suc.prems by (simp add: ac_simps)
    from Suc.IH [OF this] obtain k n where "k \<le> d"
      "parse_int_loop m (s + 1) (w * 10 + (uint (m s) - uint (ch (CHR ''0'')))) = Some (s + 1 + of_nat k, n)" by blast
    then show ?thesis using True unfolding parse_int_loop.simps [of m s]
      by (intro exI [of _ "Suc k"] exI [of _ n]) (simp add: ac_simps del: of_char_Char)
  next
    case False
    then show ?thesis by (intro exI [of _ 0] exI [of _ w]) (simp add: parse_int_loop.simps [of m s])
  qed
qed

lemma graphic_changes_format: "\<exists>f. process_graphic_escape_sequence n c = c\<lparr>con_format := f\<rparr>"
proof -
  define fmt where "fmt d \<longleftrightarrow> (\<exists>f. d = c\<lparr>con_format := f\<rparr>)" for d :: Console
  have "c = c\<lparr>con_format := con_format c\<rparr>" by simp
  then have base: "fmt c" unfolding fmt_def by blast
  have set: "fmt (d\<lparr>con_format := g\<rparr>)" if "fmt d" for d g using that by (auto simp: fmt_def)
  have branch: "fmt (if b then x else y)" if "fmt x" "fmt y" for b x y using that by simp
  have choice: "fmt (case m of None \<Rightarrow> x | Some col \<Rightarrow> y col)" if "fmt x" "\<And>col. fmt (y col)" for m :: "VGA_color option" and x y
    using that by (cases m) auto
  show ?thesis
    unfolding fmt_def [symmetric] process_graphic_escape_sequence_def Let_def by (intro branch choice set base)
qed

text \<open>A byte \<open>b\<close> that is neither a digit nor \<open>[\<close> stops every escape sequence that starts before it.\<close>

lemma process_escape_sequence_stops:
  assumes "unat s \<le> unat b" "unat b < 2 ^ 32 - 1" "\<not> isdigit (m b)" "m b \<noteq> ch (CHR ''['')"
  shows "\<exists>s' f. process_escape_sequence m s c = Some (s', c\<lparr>con_format := f\<rparr>) \<and> unat s \<le> unat s' \<and> unat s' \<le> unat b + 1"
proof -
  have same: "\<exists>f. c = c\<lparr>con_format := f\<rparr>" by (intro exI [of _ "con_format c"]) simp
  show ?thesis
  proof (cases "m s = ch (CHR ''['')")
    case False
    then show ?thesis using assms(1) same by (auto simp: process_escape_sequence_def simp del: of_char_Char)
  next
    case True
    then have "s \<noteq> b" using assms(4) by metis
    then have "unat s \<noteq> unat b" by (simp add: word_unat_eq_iff)
    then have s1: "unat (s + 1) = unat s + 1" "unat (s + 1) \<le> unat b" using assms(1,2) by (simp_all add: unat_word_ariths)
    show ?thesis
    proof (cases "isdigit (m (s + 1))")
      case False
      then show ?thesis using True s1 same by (auto simp: process_escape_sequence_def simp del: of_char_Char)
    next
      case digit: True
      define d where "d = unat b - unat (s + 1)"
      have "b = s + 1 + of_nat d" unfolding d_def using s1(2) by (simp add: of_nat_diff)
      then have "\<not> isdigit (m (s + 1 + of_nat d))" using assms(3) by simp
      from parse_int_loop_stops [of m "s + 1" d 0, OF this] obtain k n where k: "k \<le> d"
        "parse_int m (s + 1) = Some (s + 1 + of_nat k, n)" by (auto simp: parse_int_def)
      have "unat (of_nat k :: u32) = k"
        using k(1) s1(2) assms(2) unfolding d_def by (simp add: unat_of_nat take_bit_nat_eq_self)
      then have "unat (s + 1 + of_nat k) = unat s + 1 + k" "unat (s + 1 + of_nat k + 1) = unat s + 1 + k + 1"
        using k(1) s1 assms(2) unfolding d_def by (simp_all add: unat_word_ariths)
      then have "unat s \<le> unat (s + 1 + of_nat k + 1) \<and> unat (s + 1 + of_nat k + 1) \<le> unat b + 1"
        using k(1) s1 unfolding d_def by linarith
      moreover obtain f where "(if m (s + 1 + of_nat k) = ch (CHR ''m'') then process_graphic_escape_sequence n c else c) = c\<lparr>con_format := f\<rparr>"
        using graphic_changes_format same by metis
      ultimately show ?thesis using True digit k(2) by (auto simp: process_escape_sequence_def simp del: of_char_Char)
    qed
  qed
qed


section \<open>Lemmas: the flush loop\<close>

text \<open>The scroll at the top of the loop leaves the cursor on a line of the page.\<close>

lemma scroll_if_below:
  assumes "console_ok t" "page_rows (snd (fst t)) \<le> pt_y (con_cursor (snd t)) \<longleftrightarrow> sc"
  shows "\<exists>m v c. (if sc then cscroll t else t) = ((m, v), c) \<and> evolves t ((m, v), c) \<and> pt_y (con_cursor c) < page_rows v"
proof -
  obtain m v c where t: "t = ((m, v), c)" by (metis surj_pair)
  have ok: "console_ok ((m, v), c)" using assms(1) t by simp
  note D = console_okD [OF ok]
  show ?thesis
  proof (cases sc)
    case False
    then show ?thesis using evolves_refl [OF ok] assms(2) by (auto simp: t)
  next
    case True
    obtain m' v' c' where f: "cscroll ((m, v), c) = ((m', v'), c')" by (metis surj_pair)
    note S = cscroll_step [OF ok f]
    have "page_rows v' = page_rows v" using S(1) by (auto simp: evolves_def) (metis vga.ext_inject vga.surjective vga.update_convs(4))
    then show ?thesis using True S(1,5) f D(6,8) by (auto simp: t word_less_nat_alt)
  qed
qed

lemma evolves_geometry:
  assumes "evolves ((m, v), c) ((m', v'), c')"
  shows "page_rows v' = page_rows v" "page_columns v' = page_columns v" "in_display v' = in_display v" "vga_buffer v' = vga_buffer v"
    "\<And>a. \<not> in_display v a \<Longrightarrow> m' a = m a" "con_buffer c' = con_buffer c" "con_buffer_pos c' = con_buffer_pos c"
    "con_buffer_size c' = con_buffer_size c"
proof -
  have v: "v' = v\<lparr>buffer_sync := buffer_sync v'\<rparr>" and c: "c' = c\<lparr>con_cursor := con_cursor c', con_format := con_format c'\<rparr>"
    and m: "same_outside (in_display v) m m'"
    using assms by (simp_all add: evolves_def)
  show "page_rows v' = page_rows v" "page_columns v' = page_columns v" "in_display v' = in_display v" "vga_buffer v' = vga_buffer v"
    by (subst v, simp)+
  show "con_buffer c' = con_buffer c" "con_buffer_pos c' = con_buffer_pos c" "con_buffer_size c' = con_buffer_size c"
    by (subst c, simp)+
  show "m' a = m a" if "\<not> in_display v a" for a using m that by (rule same_outsideD)
qed

text \<open>
  With a byte \<open>b\<close> at or after the end of the buffered bytes that stops escape sequences, the
  loop returns, whatever the bytes are.
\<close>

lemma cflush_loop_returns:
  assumes "console_ok t" "unat end_ptr \<le> unat b" "unat b < 2 ^ 32 - 1" "\<not> in_display (snd (fst t)) b"
    and "\<not> isdigit (fst (fst t) b)" "fst (fst t) b \<noteq> ch (CHR ''['')"
  shows "\<exists>t'. cflush_loop end_ptr (page_rows (snd (fst t))) pos t = Some t' \<and> evolves t t'"
  using assms
proof (induction "unat end_ptr - unat pos" arbitrary: pos t rule: less_induct)
  case less
  let ?bb = "page_rows (snd (fst t))"
  show ?case
  proof (cases "pos < end_ptr")
    case False
    then show ?thesis using evolves_refl [OF less.prems(1)] by (simp add: cflush_loop.simps)
  next
    case True
    obtain m v c where s: "(if ?bb \<le> pt_y (con_cursor (snd t)) then cscroll t else t) = ((m, v), c)"
      "evolves t ((m, v), c)" "pt_y (con_cursor c) < page_rows v"
      using scroll_if_below [OF less.prems(1) refl] by blast
    obtain m0 v0 c0 where t: "t = ((m0, v0), c0)" by (metis surj_pair)
    note G = evolves_geometry [OF s(2) [unfolded t]]
    have u: "unat pos < unat end_ptr" "unat (pos + 1) = unat pos + 1"
      using True less.prems(3) unat_lt_2p32 [of end_ptr] by (simp_all add: word_less_nat_alt unat_word_ariths)
    have go: "\<exists>t'. cflush_loop end_ptr ?bb p t1 = Some t' \<and> evolves t t'"
      if e: "evolves ((m, v), c) t1" and p: "unat pos < unat p" for p t1
    proof -
      obtain m1 v1 c1 where t1: "t1 = ((m1, v1), c1)" by (metis surj_pair)
      note G1 = evolves_geometry [OF e [unfolded t1]]
      have "\<exists>t'. cflush_loop end_ptr (page_rows (snd (fst t1))) p t1 = Some t' \<and> evolves t1 t'"
        using less.prems p u G G1 evolves_ok [OF e] by (intro less.hyps) (auto simp: t t1)
      then show ?thesis using evolves_trans [OF s(2)] e evolves_trans [of "((m, v), c)" t1] G(1) G1(1) by (auto simp: t t1)
    qed
    show ?thesis
    proof (cases "m pos = ESC")
      case False
      have "evolves ((m, v), c) (cflush_char ?bb (m pos) ((m, v), c))"
        using cflush_char_step [OF evolves_ok [OF s(2)] s(3)] G(1) by (simp add: t)
      from go [OF this, of "pos + 1"] u False True s(1) show ?thesis
        by (simp add: cflush_loop.simps [of _ _ pos] Let_def)
    next
      case esc: True
      have "unat (pos + 1) \<le> unat b" "\<not> isdigit (m b)" "m b \<noteq> ch (CHR ''['')"
        using u less.prems G by (simp_all add: t)
      from process_escape_sequence_stops [of "pos + 1" b m c, OF this(1) less.prems(3) this(2,3)]
      obtain p f where p: "process_escape_sequence m (pos + 1) c = Some (p, c\<lparr>con_format := f\<rparr>)" "unat (pos + 1) \<le> unat p" by blast
      have "console_ok ((m, v), c\<lparr>con_format := f\<rparr>)" using evolves_ok [OF s(2)] by (simp add: console_ok_def)
      then have "evolves ((m, v), c) ((m, v), c\<lparr>con_format := f\<rparr>)" by (simp add: evolves_def)
      from go [OF this, of p] u esc True s(1) p show ?thesis
        by (simp add: cflush_loop.simps [of _ _ pos] Let_def)
    qed
  qed
qed


section \<open>The terminal\<close>

text \<open>
  What a console of plain text promises: a page of lines and a cursor. A character goes where
  the cursor is, and the cursor on, at the end of a line to the start of the line below; a
  line feed starts the line below, a carriage return the same line again. A cursor that has
  left the page scrolls it when the next character comes, a line feed does at once.
\<close>

record terminal =
  t_lines :: "u16 list list"
  t_column :: nat
  t_line :: nat

definition type_scroll :: "Format \<Rightarrow> nat \<Rightarrow> terminal \<Rightarrow> terminal" where
  "type_scroll f width T =
     \<lparr>t_lines = tl (t_lines T) @ [replicate width (vga_character (ch (CHR '' '')) f)], t_column = t_column T, t_line = t_line T - 1\<rparr>"

definition type_put :: "u16 \<Rightarrow> nat \<Rightarrow> terminal \<Rightarrow> terminal" where
  "type_put w width T =
     (let T = T\<lparr>t_lines := (t_lines T)[t_line T := (t_lines T ! t_line T)[t_column T := w]]\<rparr>
      in if Suc (t_column T) = width then T\<lparr>t_column := 0, t_line := Suc (t_line T)\<rparr> else T\<lparr>t_column := Suc (t_column T)\<rparr>)"

definition type_char :: "Format \<Rightarrow> nat \<Rightarrow> u8 \<Rightarrow> terminal \<Rightarrow> terminal" where
  "type_char f width k T =
     (let T = (if length (t_lines T) \<le> t_line T then type_scroll f width T else T) in
      if k = ch (CHR ''\<newline>'')
      then (let T = T\<lparr>t_line := Suc (t_line T), t_column := 0\<rparr>
            in if length (t_lines T) \<le> t_line T then type_scroll f width T else T)
      else if k = 0x0d then T\<lparr>t_column := 0\<rparr>
      else type_put (vga_character k f) width T)"

definition type_text :: "Format \<Rightarrow> nat \<Rightarrow> u8 list \<Rightarrow> terminal \<Rightarrow> terminal" where
  "type_text f width xs T = fold (type_char f width) xs T"

text \<open>The terminal a console stands for.\<close>

definition display_of :: "tty \<Rightarrow> terminal" where
  "display_of t = \<lparr>t_lines = shadow_lines (fst t), t_column = unat (pt_x (con_cursor (snd t))), t_line = unat (pt_y (con_cursor (snd t)))\<rparr>"

lemma cscroll_display:
  assumes "console_ok ((m, v), c)" "cscroll ((m, v), c) = ((m', v'), c')"
  shows "display_of ((m', v'), c') = type_scroll (con_format c) (unat (page_columns v)) (display_of ((m, v), c))"
  using cscroll_step [OF assms] by (simp add: display_of_def type_scroll_def)

lemma cflush_char_display:
  assumes "console_ok ((m, v), c)" "pt_y (con_cursor c) < page_rows v" "k \<noteq> 0x08"
    and "cflush_char (page_rows v) k ((m, v), c) = ((m', v'), c')"
  shows "display_of ((m', v'), c') = type_char (con_format c) (unat (page_columns v)) k (display_of ((m, v), c))"
    "con_format c' = con_format c"
proof -
  note D = console_okD [OF assms(1)]
  let ?T = "display_of ((m, v), c)"
  have y: "unat (pt_y (con_cursor c) + 1) = Suc (unat (pt_y (con_cursor c)))" "unat (pt_y (con_cursor c)) < unat (page_rows v)"
    using assms(2) unat_lt_2p32 [of "page_rows v"] by (simp_all add: word_less_nat_alt unat_word_ariths)
  have top: "\<not> length (t_lines ?T) \<le> t_line ?T" using y(2) by (simp add: display_of_def)
  consider (nl) "k = ch (CHR ''\<newline>'')" | (cr) "k = 0x0d" | (plain) "k \<noteq> ch (CHR ''\<newline>'')" "k \<noteq> 0x0d" by blast
  then have "display_of ((m', v'), c') = type_char (con_format c) (unat (page_columns v)) k ?T \<and> con_format c' = con_format c"
  proof cases
    case nl
    let ?c = "c\<lparr>con_cursor := (con_cursor c)\<lparr>pt_y := pt_y (con_cursor c) + 1\<rparr>\<rparr>"
    have ok: "console_ok ((m, v), ?c)" using assms(1) y by (simp add: console_ok_def)
    obtain m1 v1 c1 where f: "cscroll ((m, v), ?c) = ((m1, v1), c1)" by (metis surj_pair)
    note S = cscroll_step [OF ok f]
    have le: "page_rows v \<le> pt_y (con_cursor c) + 1 \<longleftrightarrow> unat (page_rows v) \<le> Suc (unat (pt_y (con_cursor c)))"
      using y(1) by (simp add: word_le_nat_alt)
    show ?thesis
    proof (cases "page_rows v \<le> pt_y (con_cursor c) + 1")
      case True
      then have "m' = m1" "v' = v1" "c' = c1\<lparr>con_cursor := (con_cursor c1)\<lparr>pt_x := 0\<rparr>\<rparr>"
        using assms(4) nl f by (simp_all add: cflush_char_def Let_def)
      then show ?thesis using S True le top nl y by (simp add: display_of_def type_char_def type_scroll_def Let_def)
    next
      case False
      then have "m' = m" "v' = v" "c' = ?c\<lparr>con_cursor := (con_cursor ?c)\<lparr>pt_x := 0\<rparr>\<rparr>"
        using assms(4) nl by (simp_all add: cflush_char_def Let_def)
      then show ?thesis using False le top nl y by (simp add: display_of_def type_char_def Let_def)
    qed
  next
    case cr
    then show ?thesis using assms(4) top by (auto simp: cflush_char_def type_char_def display_of_def Let_def)
  next
    case plain
    then have "cwrite k ((m, v), c) = ((m', v'), c')" using assms(3,4) by (simp add: cflush_char_def)
    note W = cwrite_step [OF assms(1,2) this]
    show ?thesis using W(3,4,5) plain top by (auto simp: type_char_def type_put_def display_of_def Let_def split: if_splits)
  qed
  then show "display_of ((m', v'), c') = type_char (con_format c) (unat (page_columns v)) k ?T" "con_format c' = con_format c" by auto
qed

text \<open>One pass of the flush loop over a plain character, the scroll at its top included.\<close>

lemma cflush_loop_char:
  assumes "console_ok t" "pos < end_ptr" "\<not> in_display (snd (fst t)) pos" "fst (fst t) pos = k" "k \<noteq> ESC" "k \<noteq> 0x08"
  shows "\<exists>t'. cflush_loop end_ptr (page_rows (snd (fst t))) pos t = cflush_loop end_ptr (page_rows (snd (fst t))) (pos + 1) t'
    \<and> evolves t t' \<and> display_of t' = type_char (con_format (snd t)) (unat (page_columns (snd (fst t)))) k (display_of t)
    \<and> con_format (snd t') = con_format (snd t)"
proof -
  let ?bb = "page_rows (snd (fst t))"
  obtain m0 v0 c0 where t: "t = ((m0, v0), c0)" by (metis surj_pair)
  obtain m v c where s: "(if ?bb \<le> pt_y (con_cursor (snd t)) then cscroll t else t) = ((m, v), c)"
    "evolves t ((m, v), c)" "pt_y (con_cursor c) < page_rows v"
    using scroll_if_below [OF assms(1) refl] by blast
  note G = evolves_geometry [OF s(2) [unfolded t]]
  obtain m' v' c' where f: "cflush_char (page_rows v) k ((m, v), c) = ((m', v'), c')" by (metis surj_pair)
  have ok: "console_ok ((m, v), c)" using s(2) by (rule evolves_ok)
  note C = cflush_char_display [OF ok s(3) assms(6) f]
  have top: "con_format c = con_format c0 \<and> type_char (con_format c) (unat (page_columns v)) k (display_of ((m, v), c))
      = type_char (con_format c0) (unat (page_columns v)) k (display_of t)"
  proof (cases "?bb \<le> pt_y (con_cursor (snd t))")
    case True
    then have sc: "cscroll ((m0, v0), c0) = ((m, v), c)" using s(1) by (simp add: t)
    note S = cscroll_display [OF assms(1) [unfolded t] sc] cscroll_step(3) [OF assms(1) [unfolded t] sc]
    have "length (t_lines (display_of t)) \<le> t_line (display_of t)" using True by (simp add: t display_of_def word_le_nat_alt)
    moreover have "\<not> length (t_lines (display_of ((m, v), c))) \<le> t_line (display_of ((m, v), c))"
      using s(3) by (simp add: display_of_def word_less_nat_alt)
    ultimately show ?thesis using S G(2) by (simp add: type_char_def t)
  qed (use s(1) in \<open>simp add: t\<close>)
  have "m pos = k" using G(5) assms(3,4) by (simp add: t)
  moreover have "?bb = page_rows v" using G(1) by (simp add: t)
  ultimately have "cflush_loop end_ptr ?bb pos t = cflush_loop end_ptr ?bb (pos + 1) ((m', v'), c')"
    unfolding cflush_loop.simps [of _ _ pos] s(1) Let_def prod.case fst_conv using assms(2,5) f by simp
  moreover have "evolves t ((m', v'), c')"
    using evolves_trans [OF s(2)] cflush_char_step [OF ok s(3), of k] f by metis
  ultimately show ?thesis using C top G(2) by (intro exI [of _ "((m', v'), c')"]) (auto simp: t)
qed

text \<open>Flushing the plain bytes \<open>xs\<close> at \<open>pos\<close>.\<close>

lemma cflush_loop_text:
  assumes "console_ok t" "unat pos + length xs < 2 ^ 32"
    and "\<And>i. i < length xs \<Longrightarrow> fst (fst t) (pos + of_nat i) = xs ! i \<and> \<not> in_display (snd (fst t)) (pos + of_nat i)"
    and "ESC \<notin> set xs" "0x08 \<notin> set xs"
  shows "\<exists>t'. cflush_loop (pos + of_nat (length xs)) (page_rows (snd (fst t))) pos t = Some t' \<and> evolves t t'
    \<and> display_of t' = type_text (con_format (snd t)) (unat (page_columns (snd (fst t)))) xs (display_of t)"
  using assms
proof (induction xs arbitrary: pos t)
  case Nil
  then show ?case using evolves_refl by (auto simp: cflush_loop.simps type_text_def)
next
  case (Cons x xs)
  let ?bb = "page_rows (snd (fst t))"
  obtain m v c where t: "t = ((m, v), c)" by (metis surj_pair)
  have u: "unat (pos + 1) = unat pos + 1" "unat (pos + of_nat (length (x # xs))) = unat pos + length (x # xs)"
    using Cons.prems(2) by (simp_all add: unat_word_ariths unat_of_nat take_bit_nat_eq_self)
  then have lt: "pos < pos + of_nat (length (x # xs))" by (simp add: word_less_nat_alt)
  have x: "fst (fst t) pos = x" "\<not> in_display (snd (fst t)) pos" using Cons.prems(3) [of 0] by simp_all
  have "x \<noteq> ESC" "x \<noteq> 0x08" using Cons.prems(4,5) by auto
  from cflush_loop_char [OF Cons.prems(1) lt x(2,1) this] obtain t1 where t1:
    "cflush_loop (pos + of_nat (length (x # xs))) ?bb pos t = cflush_loop (pos + of_nat (length (x # xs))) ?bb (pos + 1) t1"
    "evolves t t1" "display_of t1 = type_char (con_format (snd t)) (unat (page_columns (snd (fst t)))) x (display_of t)"
    "con_format (snd t1) = con_format (snd t)" by blast
  obtain m1 v1 c1 where t1': "t1 = ((m1, v1), c1)" by (metis surj_pair)
  note G = evolves_geometry [OF t1(2) [unfolded t t1']]
  have "\<exists>t'. cflush_loop (pos + 1 + of_nat (length xs)) (page_rows (snd (fst t1))) (pos + 1) t1 = Some t' \<and> evolves t1 t'
    \<and> display_of t' = type_text (con_format (snd t1)) (unat (page_columns (snd (fst t1)))) xs (display_of t1)"
  proof (rule Cons.IH)
    show "fst (fst t1) (pos + 1 + of_nat i) = xs ! i \<and> \<not> in_display (snd (fst t1)) (pos + 1 + of_nat i)" if "i < length xs" for i
      using Cons.prems(3) [of "Suc i"] that G by (simp add: t t1' ac_simps)
  qed (use evolves_ok [OF t1(2)] Cons.prems u in auto)
  then show ?case
    using t1 G(1,2) evolves_trans [OF t1(2)] by (auto simp: t t1' type_text_def ac_simps)
qed


section \<open>Lemmas: whole flushes and the start\<close>

definition buffer_apart :: "tty \<Rightarrow> bool" where
  "buffer_apart t \<longleftrightarrow> (let ((m, v), c) = t in
     unat (con_buffer c) + unat (con_buffer_size c) < 2 ^ 32 - 1 \<and> con_buffer_pos c \<le> con_buffer_size c
     \<and> (\<forall>a. in_region a (con_buffer c) (unat (con_buffer_size c)) \<longrightarrow> \<not> in_display v a))"

lemma vga_flush_step:
  assumes "console_ok ((m, v), c)" "vga_flush (m, v) = (m', v')"
  shows "evolves ((m, v), c) ((m', v'), c)" "shadow_lines (m', v') = shadow_lines (m, v)"
    "screen_lines (m', v') = shadow_lines (m, v)"
proof -
  note D = console_okD [OF assms(1)]
  note F = vga_flush_facts [OF D(1) assms(2)]
  have page: "vga_ok (snd (m, v)) \<and> synced (m, v)" using D(1,2) by simp
  have "synced (m', v')" using screen.flush_law [OF page] assms(2) by simp
  then have "console_ok ((m', v'), c)" using assms(1) unfolding F(1) by (simp add: console_ok_def)
  moreover have "same_outside (in_display v) m m'" using F(2) by (rule same_outside_mono) (simp add: in_display_def)
  ultimately show "evolves ((m, v), c) ((m', v'), c)" unfolding F(1) by (simp add: evolves_def)
  show "shadow_lines (m', v') = shadow_lines (m, v)" "screen_lines (m', v') = shadow_lines (m, v)"
    using screen.flush_law [OF page] assms(2) by simp_all
qed

lemma cflush_finish:
  assumes "console_ok ((m, v), c)" "con_buffer_pos c \<noteq> 0" "evolves ((m, v), c) t1"
    and "cflush_loop (con_buffer c + con_buffer_pos c) (page_rows v) (con_buffer c) ((m, v), c) = Some t1"
  shows "\<exists>m' v' c'. cflush ((m, v), c) = Some ((m', v'), c'\<lparr>con_buffer_pos := 0\<rparr>) \<and> evolves ((m, v), c) ((m', v'), c')
    \<and> screen_lines (m', v') = t_lines (display_of t1) \<and> display_of ((m', v'), c'\<lparr>con_buffer_pos := 0\<rparr>) = display_of t1"
proof -
  obtain m1 v1 c1 where t1: "t1 = ((m1, v1), c1)" by (metis surj_pair)
  obtain m' v' where f: "vga_flush (m1, v1) = (m', v')" by fastforce
  note F = vga_flush_step [OF evolves_ok [OF assms(3) [unfolded t1]] f]
  have "pt_y (con_position c) + pt_y (con_size c) = page_rows v" using console_okD [OF assms(1)] by simp
  then have "cflush ((m, v), c) = Some ((m', v'), c1\<lparr>con_buffer_pos := 0\<rparr>)"
    using assms(2,4) f by (simp add: cflush_def Let_def t1)
  with F evolves_trans [OF assms(3)] show ?thesis
    by (intro exI [of _ m'] exI [of _ v'] exI [of _ c1]) (auto simp: display_of_def t1)
qed

lemma console_ok_pos [simp]: "console_ok (s, c\<lparr>con_buffer_pos := p\<rparr>) = console_ok (s, c)"
  by (simp add: console_ok_def split: prod.split)

lemma in_region_bounds:
  assumes "in_region a base n" "unat base + n \<le> 2 ^ 32"
  shows "unat base \<le> unat a" "unat a < unat base + n"
proof -
  from assms(1) obtain k where k: "k < n" "a = base + of_nat k" by (rule in_regionE)
  have "unat (of_nat k :: u32) = k" using k(1) assms(2) by (simp add: unat_of_nat take_bit_nat_eq_self)
  then have "unat a = unat base + k" using k assms(2) by (simp add: unat_word_ariths)
  with k(1) show "unat base \<le> unat a" "unat a < unat base + n" by simp_all
qed

text \<open>The printer that \<open>init_consoles\<close> asks for.\<close>

lemma vga_init_printer_facts:
  assumes "immortal_inv im" "vga_init_printer 24 80 im (m, v) = Inr (im', m', v')"
  shows "vga_ok v'" "synced (m', v')" "page_columns v' = 80" "page_rows v' = 24" "immortal_inv im'"
    "unat (current im ! 1) \<le> unat (vga_buffer v')" "same_outside (in_display v') m m'"
    "unat (vga_buffer v') + 3840 = unat (current im' ! 1)"
proof -
  let ?v = "\<lambda>p. v\<lparr>page_rows := 24, page_columns := 80, vga_buffer := p, buffer_sync := False\<rparr>"
  obtain p where p: "malloc_immortal 3840 0 im = Inr (p, im')"
    and r: "(m', v') = vga_flush (memzero p 3840 m, ?v p)"
    using assms(2) by (auto simp: vga_init_printer_def vga_clear_screen_def Let_def split: sum.splits)
  have n: "screen_cells (?v p) = 1920" by (simp add: screen_cells_def)
  have M: "immortal_inv im'" "unat (current im ! 1) \<le> unat p" "unat p + 3840 \<le> 0x400000" "0x100000 \<le> unat p"
    "unat (current im' ! 1) = unat p + 3840"
    using malloc_immortal_ok [OF assms(1) _ _ p] by simp_all
  have ok: "vga_ok (?v p)" using M(3,4) n by (simp add: vga_ok_def)
  note F = vga_flush_facts [OF ok r [symmetric]]
  show "synced (m', v')" using synced_flush [OF ok, of "memzero p 3840 m"] r by (simp add: synced_def)
  show "vga_ok v'" "page_columns v' = 80" "page_rows v' = 24" "unat (current im ! 1) \<le> unat (vga_buffer v')"
    "unat (vga_buffer v') + 3840 = unat (current im' ! 1)"
    using ok M(2,5) unfolding F(1) by simp_all
  have "in_shadow (?v p) = (\<lambda>a. in_region a p 3840)" using n by (intro ext) (simp only: in_shadow_def, simp)
  then have "same_outside (in_shadow (?v p)) m (memzero p 3840 m)" by (simp add: same_outside_def)
  with F(2) show "same_outside (in_display v') m m'" unfolding F(1) by (simp add: in_display_def same_outside_def)
  show "immortal_inv im'" by (rule M(1))
qed

lemma init_consoles_facts:
  assumes "immortal_inv im" "init_consoles im ((m, v), c) = Inr (im', (m', v'), c')"
  shows "console_ok ((m', v'), c')" "buffer_apart ((m', v'), c')" "con_buffer_pos c' = 0" "con_format c' = default_format c"
    "con_buffer_size c' = 512" "page_rows v' = 24" "page_columns v' = 80"
    "screen_lines (m', v') = replicate 24 (replicate 80 (vga_character (ch (CHR '' '')) (default_format c)))"
    "con_cursor c' = \<lparr>pt_x = 0, pt_y = 0\<rparr>" "immortal_inv im'" "shadow_lines (m', v') = screen_lines (m', v')"
    "same_outside (in_display v') m m'" "unat (current im ! 1) \<le> unat (con_buffer c')"
    "unat (con_buffer c') + 512 \<le> unat (vga_buffer v')" "unat (vga_buffer v') + 3840 = unat (current im' ! 1)"
proof -
  obtain p im1 im2 m1 v1 where p: "malloc_immortal 512 8 im = Inr (p, im1)"
    and i: "vga_init_printer 24 80 im1 (m, v) = Inr (im2, m1, v1)"
    and r: "((m', v'), c') = clear_console ((m1, v1), c\<lparr>con_buffer := p, con_buffer_size := 512, con_buffer_pos := 0,
      con_position := \<lparr>pt_x = 0, pt_y = 0\<rparr>, con_size := \<lparr>pt_x = 80, pt_y = 24\<rparr>, con_cursor := \<lparr>pt_x = 0, pt_y = 0\<rparr>,
      con_format := default_format c\<rparr>)" "im' = im2"
    using assms(2) by (auto simp: init_consoles_def STDOUT_BUFFER_SIZE_def Let_def split: sum.splits)
  have M: "immortal_inv im1" "unat (current im1 ! 1) = unat p + 512" "unat p + 512 \<le> 0x400000" "0x100000 \<le> unat p"
    "unat (current im ! 1) \<le> unat p"
    using malloc_immortal_ok [OF assms(1) _ _ p] by simp_all
  note V = vga_init_printer_facts [OF M(1) i]
  let ?w = "vga_character (ch (CHR '' '')) (default_format c)"
  let ?sz = "\<lparr>pt_x = 80 :: u32, pt_y = 24 :: u32\<rparr>" and ?o = "\<lparr>pt_x = 0 :: u32, pt_y = 0 :: u32\<rparr>"
  obtain m2 v2 where f: "vga_fill ?o ?sz ?w (m1, v1) = (m2, v2)" by fastforce
  have fits: "unat (pt_x ?o) + unat (pt_x ?sz) \<le> unat (page_columns v1)" "unat (pt_y ?o) + unat (pt_y ?sz) \<le> unat (page_rows v1)"
    "pt_x ?o = 0" "pt_x ?sz = page_columns v1" using V by simp_all
  note F = vga_fill_facts [OF V(1) fits(1,2) f]
  have ok2: "vga_ok v2" "synced (m2, v2)" "page_rows v2 = 24" "page_columns v2 = 80" "vga_buffer v2 = vga_buffer v1"
    using V unfolding F(1) by (simp_all add: synced_def)
  have e: "(m', v') = vga_flush (m2, v2)" and c': "con_position c' = ?o" "con_size c' = ?sz" "con_cursor c' = ?o"
    "con_buffer c' = p" "con_buffer_size c' = 512" "con_buffer_pos c' = 0" "con_format c' = default_format c"
    using r(1) f by (auto simp: clear_console_def Let_def)
  have "console_ok ((m2, v2), c')" using ok2 c' by (simp add: console_ok_def)
  note L = vga_flush_step [OF this e [symmetric]]
  note G = evolves_geometry [OF L(1)]
  show "console_ok ((m', v'), c')" using L(1) by (rule evolves_ok)
  have "shadow_lines (m2, v2) = replicate 24 (replicate 80 ?w)"
    using screen.cleared(2) [of "(m1, v1)" 24 ?w] V(1-4) f by simp
  then show "screen_lines (m', v') = replicate 24 (replicate 80 ?w)" "shadow_lines (m', v') = screen_lines (m', v')"
    using L(2,3) by simp_all
  have "\<not> in_display v' a" if "in_region a p 512" for a
  proof -
    have a: "unat p \<le> unat a" "unat a < unat p + 512" using in_region_bounds [OF that] M(3) by simp_all
    have v': "vga_ok v'" "unat p + 512 \<le> unat (vga_buffer v')"
      using evolves_ok [OF L(1)] M(2) V(6) ok2(5) G(4) by (simp_all add: console_ok_def)
    then have "\<not> in_screen v' a" "\<not> in_shadow v' a"
      using in_region_bounds [of a VGA_TEXT_BASE "2 * screen_cells v'"] in_region_bounds [of a "vga_buffer v'" "2 * screen_cells v'"] a M(4)
      by (auto simp: vga_ok_def in_screen_def in_shadow_def VGA_TEXT_BASE_def)
    then show ?thesis by (simp add: in_display_def)
  qed
  then show "buffer_apart ((m', v'), c')" using c' M(3) by (simp add: buffer_apart_def)
  show "con_buffer_pos c' = 0" "con_format c' = default_format c" "con_buffer_size c' = 512" "con_cursor c' = ?o" by (fact c')+
  show "page_rows v' = 24" "page_columns v' = 80" using G ok2 by simp_all
  show "immortal_inv im'" using V(5) r(2) by simp
  show "unat (current im ! 1) \<le> unat (con_buffer c')" using M(5) c' by simp
  show "unat (con_buffer c') + 512 \<le> unat (vga_buffer v')" "unat (vga_buffer v') + 3840 = unat (current im' ! 1)"
    using M(2) V(6,8) G(4) ok2(5) c' r(2) by simp_all
  have "same_outside (in_display v') m m1" "same_outside (in_display v') m1 m2" "same_outside (in_display v') m2 m'"
    using V(7) F(2) L(1) G(3) F(1) by (auto simp: evolves_def in_display_def same_outside_def)
  then show "same_outside (in_display v') m m'" using same_outside_trans by blast
qed


text \<open>Bytes outside the screen and its shadow do not matter to the display.\<close>

lemma display_outside:
  assumes "console_ok ((m, v), c)" "\<And>a. in_display v a \<Longrightarrow> m' a = m a"
  shows "console_ok ((m', v), c)" "shadow_lines (m', v) = shadow_lines (m, v)"
proof -
  note D = console_okD [OF assms(1)]
  have so: "same_outside (\<lambda>a. \<not> in_display v a) m m'" using assms(2) by (simp add: same_outside_def)
  have n: "2 * screen_cells v \<le> 2 ^ 32" using D(1) by (simp add: vga_ok_def)
  have c: "cells m' VGA_TEXT_BASE k = cells m VGA_TEXT_BASE k" "cells m' (vga_buffer v) k = cells m (vga_buffer v) k"
    if "k < screen_cells v" for k
    using cells_same_outside [OF so that n] by (auto simp: in_display_def in_screen_def in_shadow_def)
  then show "console_ok ((m', v), c)" using assms(1) by (simp add: console_ok_def synced_def)
  have "unat (page_columns v) * y + x < screen_cells v" if "x < unat (page_columns v)" "y < unat (page_rows v)" for x y
    unfolding screen_cells_def using that by (rule cell_number_less)
  then show "shadow_lines (m', v) = shadow_lines (m, v)"
    by (auto simp: shadow_lines_def lines_at_def c)
qed

definition buffered :: "tty \<Rightarrow> u8 list" where
  "buffered t = map (\<lambda>i. fst (fst t) (con_buffer (snd t) + of_nat i)) [0..<unat (con_buffer_pos (snd t))]"

lemma buffer_apart_byte:
  assumes "buffer_apart ((m, v), c)" "i < unat (con_buffer_pos c)"
  shows "\<not> in_display v (con_buffer c + of_nat i)"
proof -
  have "i < unat (con_buffer_size c)" using assms by (simp add: buffer_apart_def word_le_nat_alt)
  then have "in_region (con_buffer c + of_nat i) (con_buffer c) (unat (con_buffer_size c))"
    using unat_lt_2p32 [of "con_buffer_size c"] by (intro in_region_offset) auto
  with assms(1) show ?thesis by (simp add: buffer_apart_def)
qed

lemma flush_text:
  assumes "console_ok ((m, v), c)" "buffer_apart ((m, v), c)" "con_buffer_pos c \<noteq> 0"
    and "ESC \<notin> set (buffered ((m, v), c))" "0x08 \<notin> set (buffered ((m, v), c))"
  shows "\<exists>m' v' c'. cflush ((m, v), c) = Some ((m', v'), c'\<lparr>con_buffer_pos := 0\<rparr>) \<and> evolves ((m, v), c) ((m', v'), c')
    \<and> display_of ((m', v'), c'\<lparr>con_buffer_pos := 0\<rparr>)
      = type_text (con_format c) (unat (page_columns v)) (buffered ((m, v), c)) (display_of ((m, v), c))
    \<and> screen_lines (m', v') = t_lines (display_of ((m', v'), c'\<lparr>con_buffer_pos := 0\<rparr>))"
proof -
  let ?xs = "buffered ((m, v), c)"
  have len: "length ?xs = unat (con_buffer_pos c)" by (simp add: buffered_def)
  have b: "unat (con_buffer c) + length ?xs < 2 ^ 32" using assms(2) by (simp add: buffer_apart_def word_le_nat_alt len)
  have "fst (fst ((m, v), c)) (con_buffer c + of_nat i) = ?xs ! i \<and> \<not> in_display (snd (fst ((m, v), c))) (con_buffer c + of_nat i)"
    if "i < length ?xs" for i
    using that buffer_apart_byte [OF assms(2)] by (simp add: buffered_def)
  from cflush_loop_text [OF assms(1) b this assms(4,5)] obtain t1 where t1:
    "cflush_loop (con_buffer c + con_buffer_pos c) (page_rows v) (con_buffer c) ((m, v), c) = Some t1" "evolves ((m, v), c) t1"
    "display_of t1 = type_text (con_format c) (unat (page_columns v)) ?xs (display_of ((m, v), c))" by (auto simp: len)
  from cflush_finish [OF assms(1,3) t1(2,1)] obtain m' v' c' where
    "cflush ((m, v), c) = Some ((m', v'), c'\<lparr>con_buffer_pos := 0\<rparr>)" "evolves ((m, v), c) ((m', v'), c')"
    "screen_lines (m', v') = t_lines (display_of t1)" "display_of ((m', v'), c'\<lparr>con_buffer_pos := 0\<rparr>) = display_of t1" by blast
  with t1(3) show ?thesis by (intro exI [of _ m'] exI [of _ v'] exI [of _ c']) simp
qed

text \<open>A console with something in its buffer, for the witnesses.\<close>

lemma boot_console:
  obtains im' m' v' c' where "init_consoles immortal_initial ((m, vga_initial), fullscreen) = Inr (im', (m', v'), c')"
proof -
  have "\<exists>im' t. init_consoles immortal_initial ((m, vga_initial), fullscreen) = Inr (im', t)"
    by (simp add: init_consoles_def vga_init_printer_def malloc_immortal_def immortal_initial_def ARENA_START_def STDOUT_BUFFER_SIZE_def
        Let_def split: prod.split)
  then show ?thesis using that by (metis surj_pair)
qed

lemma low_not_display:
  assumes "vga_ok v" "unat a < 0xB8000"
  shows "\<not> in_display v a"
  using assms in_region_bounds [of a VGA_TEXT_BASE "2 * screen_cells v"] in_region_bounds [of a "vga_buffer v" "2 * screen_cells v"]
  by (auto simp: vga_ok_def in_display_def in_screen_def in_shadow_def VGA_TEXT_BASE_def)

lemma boot_text:
  "\<exists>m v c. console_ok ((m, v), c) \<and> buffer_apart ((m, v), c) \<and> con_buffer_pos c = 1 \<and> buffered ((m, v), c) = [x]
    \<and> page_columns v = 80 \<and> page_rows v = 24 \<and> con_format c = default_format fullscreen \<and> con_buffer_size c = 512
    \<and> (\<forall>a. \<not> in_display v a \<and> a \<noteq> con_buffer c \<longrightarrow> m a = m0 a)
    \<and> display_of ((m, v), c) = \<lparr>t_lines = replicate 24 (replicate 80 (vga_character (ch (CHR '' '')) (default_format fullscreen))),
        t_column = 0, t_line = 0\<rparr>"
proof -
  obtain im m v c where i: "init_consoles immortal_initial ((m0, vga_initial), fullscreen) = Inr (im, (m, v), c)"
    by (rule boot_console)
  note I = init_consoles_facts [OF immortal_inv_initial i]
  let ?m = "m(con_buffer c := x)" and ?c = "c\<lparr>con_buffer_pos := 1\<rparr>"
  have b: "in_region (con_buffer c) (con_buffer c) (unat (con_buffer_size c))" using I(5) by simp
  then have apart: "?m a = m a" if "in_display v a" for a using that I(2) by (auto simp: buffer_apart_def)
  note O = display_outside [of m v c ?m, OF I(1) apart]
  have "?m a = m0 a" if "\<not> in_display v a" "a \<noteq> con_buffer c" for a using I(12) that by (simp add: same_outside_def)
  moreover have "buffer_apart ((?m, v), ?c)" using I(2,5) by (simp add: buffer_apart_def)
  ultimately show ?thesis using O I
    by (intro exI [of _ ?m] exI [of _ v] exI [of _ ?c]) (auto simp: buffered_def display_of_def fullscreen_def)
qed


lemma printf_text:
  assumes "console_ok ((m, v), c)" "buffer_apart ((m, v), c)" "con_buffer_pos c = 0"
    and "renders (\<lambda>a. in_region a (con_buffer c) (unat (con_buffer_size c))) m args fmt 0 xs"
    and "xs \<noteq> []" "length xs < unat (con_buffer_size c)" "length xs < 2 ^ 31" "ESC \<notin> set xs" "0x08 \<notin> set xs"
  shows "\<exists>m' v' c'. vcprintf fmt args ((m, v), c) = Some (int (length xs), (m', v'), c')
    \<and> console_ok ((m', v'), c') \<and> con_buffer_pos c' = 0
    \<and> display_of ((m', v'), c') = type_text (con_format c) (unat (page_columns v)) xs (display_of ((m, v), c))
    \<and> screen_lines (m', v') = t_lines (display_of ((m', v'), c'))"
proof -
  let ?n = "con_buffer_size c" and ?B = "con_buffer c" and ?len = "of_nat (length xs) :: u32"
  have fits: "unat ?B + unat ?n < 2 ^ 32" "unat ?B + length xs < 2 ^ 32" using assms(2,6) by (simp_all add: buffer_apart_def)
  have nz: "?n \<noteq> 0" using assms(6) by auto
  define m1 where "m1 = placed ?B (unat ?n) (take (unat ?n - 1) xs @ [0]) m"
  have out: "vsnprintf m ?B ?n fmt args = Some (int (length xs), m1)"
    using vsnprintf_output [OF assms(4) fits assms(7)] nz by (simp add: m1_def)
  have len: "unat ?len = length xs" using assms(6) unat_lt_2p32 [of ?n] by (simp add: unat_of_nat take_bit_nat_eq_self)
  moreover have "0 < length xs" using assms(5) by simp
  ultimately have lt: "?len < ?n" "?len \<noteq> 0" using assms(6) by (simp add: word_less_nat_alt, metis less_irrefl unat_0)
  have apart: "m1 a = m a" if "in_display v a" for a
  proof -
    have "\<not> in_region a ?B (unat ?n)" using that assms(2) by (auto simp: buffer_apart_def)
    then show ?thesis unfolding m1_def by (rule same_outsideD [OF same_outside_placed])
  qed
  let ?c = "c\<lparr>con_buffer_pos := ?len\<rparr>"
  note O = display_outside [of m v c m1, OF assms(1) apart]
  have ok: "console_ok ((m1, v), ?c)" "buffer_apart ((m1, v), ?c)" "con_buffer_pos ?c \<noteq> 0"
    using O assms(2) lt by (simp_all add: buffer_apart_def)
  have "buffered ((m1, v), ?c) = map ((!) xs) [0..<length xs]"
    unfolding buffered_def using assms(6) len unat_lt_2p32 [of ?n]
    by (auto simp: m1_def placed_def nth_append unat_of_nat take_bit_nat_eq_self)
  then have b: "buffered ((m1, v), ?c) = xs" by (simp add: map_nth)
  from flush_text [OF ok] assms(8,9) obtain m' v' c' where f: "cflush ((m1, v), ?c) = Some ((m', v'), c'\<lparr>con_buffer_pos := 0\<rparr>)"
    "evolves ((m1, v), ?c) ((m', v'), c')"
    "display_of ((m', v'), c'\<lparr>con_buffer_pos := 0\<rparr>) = type_text (con_format c) (unat (page_columns v)) xs (display_of ((m1, v), ?c))"
    "screen_lines (m', v') = t_lines (display_of ((m', v'), c'\<lparr>con_buffer_pos := 0\<rparr>))" by (auto simp: b)
  have "display_of ((m1, v), ?c) = display_of ((m, v), c)" using O(2) by (simp add: display_of_def)
  moreover have "vcprintf fmt args ((m, v), c) = Some (int (length xs), (m', v'), c'\<lparr>con_buffer_pos := 0\<rparr>)"
    using out lt f(1) by (simp add: vcprintf_def Let_def assms(3))
  ultimately show ?thesis
    using f evolves_ok [OF f(2)] by (intro exI [of _ m'] exI [of _ v'] exI [of _ "c'\<lparr>con_buffer_pos := 0\<rparr>"]) simp
qed

lemma cflush_evolves:
  assumes "console_ok ((m, v), c)" "buffer_apart ((m, v), c)"
    and "unat (con_buffer c) + unat (con_buffer_pos c) \<le> unat b" "unat b < 2 ^ 32 - 1" "\<not> in_display v b"
    and "\<not> isdigit (m b)" "m b \<noteq> ch (CHR ''['')"
  shows "\<exists>m' v' c'. cflush ((m, v), c) = Some ((m', v'), c'\<lparr>con_buffer_pos := 0\<rparr>) \<and> evolves ((m, v), c) ((m', v'), c')"
proof (cases "con_buffer_pos c = 0")
  case True
  then have "c = c\<lparr>con_buffer_pos := 0\<rparr>" by (cases c) simp
  then show ?thesis using evolves_refl [OF assms(1)] True by (intro exI [of _ m] exI [of _ v] exI [of _ c]) (simp add: cflush_def)
next
  case False
  have "unat (con_buffer c + con_buffer_pos c) = unat (con_buffer c) + unat (con_buffer_pos c)"
    using assms(2) by (simp add: buffer_apart_def word_le_nat_alt unat_word_ariths)
  then obtain t1 where t1: "cflush_loop (con_buffer c + con_buffer_pos c) (page_rows v) (con_buffer c) ((m, v), c) = Some t1"
    "evolves ((m, v), c) t1"
    using cflush_loop_returns [OF assms(1), of "con_buffer c + con_buffer_pos c" b "con_buffer c"] assms(3-7) by auto
  from cflush_finish [OF assms(1) False t1(2,1)] show ?thesis by blast
qed

text \<open>A buffer of one byte, a backspace included.\<close>

lemma cflush_byte:
  assumes "console_ok ((m, v), c)" "buffer_apart ((m, v), c)" "con_buffer_pos c = 1" "m (con_buffer c) \<noteq> ESC"
  shows "\<exists>m' v' c'. cflush ((m, v), c) = Some ((m', v'), c'\<lparr>con_buffer_pos := 0\<rparr>) \<and> evolves ((m, v), c) ((m', v'), c')"
proof -
  obtain m1 v1 c1 where s: "(if page_rows v \<le> pt_y (con_cursor c) then cscroll ((m, v), c) else ((m, v), c)) = ((m1, v1), c1)"
    "evolves ((m, v), c) ((m1, v1), c1)" "pt_y (con_cursor c1) < page_rows v1"
    using scroll_if_below [OF assms(1) refl] by auto
  note G = evolves_geometry [OF s(2)]
  obtain m2 v2 c2 where f: "cflush_char (page_rows v) (m1 (con_buffer c)) ((m1, v1), c1) = ((m2, v2), c2)" by (metis surj_pair)
  have e: "evolves ((m, v), c) ((m2, v2), c2)"
    using evolves_trans [OF s(2)] cflush_char_step [OF evolves_ok [OF s(2)] s(3), of "m1 (con_buffer c)"] f G(1) by metis
  have "unat (con_buffer c) < 2 ^ 32 - 1" using assms(2) by (simp add: buffer_apart_def)
  then have lt: "con_buffer c < con_buffer c + 1" by (simp add: word_less_nat_alt unat_word_ariths)
  have "m1 (con_buffer c) = m (con_buffer c)"
    using buffer_apart_byte [OF assms(2), of 0] assms(3) by (intro G(5)) simp
  then have "cflush_loop (con_buffer c + con_buffer_pos c) (page_rows v) (con_buffer c) ((m, v), c) = Some ((m2, v2), c2)"
    using lt s(1) f assms(3,4) by (simp add: cflush_loop.simps [of _ _ "con_buffer c"] cflush_loop.simps [of _ _ "con_buffer c + 1"] Let_def)
  from cflush_finish [OF assms(1) _ e this] assms(3) show ?thesis by auto
qed

section \<open>Properties\<close>

text \<open>Flushing buffered plain text does to the screen what typing it does to a terminal: the
  cells, the line wraps, the scrolling and the cursor are those of \<open>type_text\<close>, and the text
  memory shows them.\<close>

theorem plain_text_shown:
  assumes "console_ok ((m, v), c)" "buffer_apart ((m, v), c)" "con_buffer_pos c \<noteq> 0"
    and "ESC \<notin> set (buffered ((m, v), c))" "0x08 \<notin> set (buffered ((m, v), c))"
  shows "\<exists>m' v' c'. cflush ((m, v), c) = Some ((m', v'), c') \<and> console_ok ((m', v'), c') \<and> con_buffer_pos c' = 0
    \<and> display_of ((m', v'), c')
      = type_text (con_format c) (unat (page_columns v)) (buffered ((m, v), c)) (display_of ((m, v), c))
    \<and> screen_lines (m', v') = t_lines (display_of ((m', v'), c'))"
proof -
  obtain m' v' c' where f: "cflush ((m, v), c) = Some ((m', v'), c'\<lparr>con_buffer_pos := 0\<rparr>)" "evolves ((m, v), c) ((m', v'), c')"
    "display_of ((m', v'), c'\<lparr>con_buffer_pos := 0\<rparr>)
      = type_text (con_format c) (unat (page_columns v)) (buffered ((m, v), c)) (display_of ((m, v), c))"
    "screen_lines (m', v') = t_lines (display_of ((m', v'), c'\<lparr>con_buffer_pos := 0\<rparr>))"
    using flush_text [OF assms] by blast
  then show ?thesis using evolves_ok [OF f(2)] by (intro exI [of _ m'] exI [of _ v'] exI [of _ "c'\<lparr>con_buffer_pos := 0\<rparr>"]) simp
qed

lemma plain_text_shown_witness:
  "\<exists>t t'. cflush t = Some t' \<and> screen_lines (fst t') ! 0 ! 0 = vga_character (ch (CHR ''A'')) (default_format fullscreen)"
proof -
  obtain m v c where t: "console_ok ((m, v), c)" "buffer_apart ((m, v), c)" "con_buffer_pos c = 1"
    "buffered ((m, v), c) = [ch (CHR ''A'')]" "page_columns v = 80" "con_format c = default_format fullscreen"
    "display_of ((m, v), c) = \<lparr>t_lines = replicate 24 (replicate 80 (vga_character (ch (CHR '' '')) (default_format fullscreen))),
        t_column = 0, t_line = 0\<rparr>"
    using boot_text [of "ch (CHR ''A'')" "\<lambda>_. 0"] by blast
  from plain_text_shown [OF t(1,2)] obtain t' where "cflush ((m, v), c) = Some t'"
    "screen_lines (fst t') = t_lines (type_text (con_format c) 80 [ch (CHR ''A'')] (display_of ((m, v), c)))"
    using t by (auto simp: ESC_def)
  moreover from this t(6,7) have "screen_lines (fst t') ! 0 ! 0 = vga_character (ch (CHR ''A'')) (default_format fullscreen)"
    by (simp add: type_text_def type_char_def type_put_def Let_def)
  ultimately show ?thesis by blast
qed






lemma ansi_codes:
  "code \<in> fst ` set ansi_foreground \<or> code \<in> fst ` set ansi_background
    \<longleftrightarrow> ANSI_FOREGROUND_BLACK \<le> code \<and> code \<le> ANSI_FOREGROUND_WHITE
    \<or> ANSI_FOREGROUND_BRIGHT_BLACK \<le> code \<and> code \<le> ANSI_FOREGROUND_BRIGHT_WHITE
    \<or> ANSI_BACKGROUND_BLACK \<le> code \<and> code \<le> ANSI_BACKGROUND_WHITE
    \<or> ANSI_BACKGROUND_BRIGHT_BLACK \<le> code \<and> code \<le> ANSI_BACKGROUND_BRIGHT_WHITE"
  by (auto simp: ansi_foreground_def ansi_background_def ansi_code_defs)

lemma graphic_by_table:
  "process_graphic_escape_sequence code c = (case map_of ansi_foreground code of
      Some col \<Rightarrow> c\<lparr>con_format := (con_format c)\<lparr>foreground := col\<rparr>\<rparr>
    | None \<Rightarrow> (case map_of ansi_background code of
        Some col \<Rightarrow> c\<lparr>con_format := (con_format c)\<lparr>background := col\<rparr>\<rparr>
      | None \<Rightarrow> if code = 0 then c\<lparr>con_format := default_format c\<rparr> else c))"
proof (cases "code \<in> fst ` set ansi_foreground \<or> code \<in> fst ` set ansi_background")
  case True
  then have "code \<noteq> 0" "code \<noteq> ANSI_FOREGROUND_DEFAULT" "code \<noteq> ANSI_BACKGROUND_DEFAULT" by (auto simp: ansi_codes ansi_code_defs)
  then show ?thesis
    using True unfolding process_graphic_escape_sequence_def ansi_codes [symmetric] Let_def
    by (auto simp: map_of_eq_None_iff split: option.splits)
next
  case False
  then have "map_of ansi_foreground code = None" "map_of ansi_background code = None" by (simp_all add: map_of_eq_None_iff)
  then show ?thesis
    using False unfolding process_graphic_escape_sequence_def ansi_codes [symmetric] Let_def by simp
qed

text \<open>A colour sequence \<open>CSI n m\<close>, after its escape byte, is consumed up to its \<open>m\<close> and sets the
  foreground for the codes 30 to 37 and 90 to 97, the background for 40 to 47 and 100 to 107,
  both back to the defaults for 0, and nothing for any other code, 39 and 49 (default
  foreground and background, which the \<open>switch\<close> has cases for) included.\<close>

theorem escape_sequence_colours:
  assumes "m s = ch (CHR ''['')" "\<And>i. i < length ds \<Longrightarrow> m (s + 1 + of_nat i) = ds ! i" "ds \<noteq> []" "\<forall>d \<in> set ds. isdigit d"
    and "m (s + 1 + of_nat (length ds)) = ch (CHR ''m'')"
  shows "process_escape_sequence m s c = Some (s + of_nat (length ds + 2),
    case map_of ansi_foreground (int (digits_value 10 ds)) of
      Some col \<Rightarrow> c\<lparr>con_format := (con_format c)\<lparr>foreground := col\<rparr>\<rparr>
    | None \<Rightarrow> (case map_of ansi_background (int (digits_value 10 ds)) of
        Some col \<Rightarrow> c\<lparr>con_format := (con_format c)\<lparr>background := col\<rparr>\<rparr>
      | None \<Rightarrow> if digits_value 10 ds = 0 then c\<lparr>con_format := default_format c\<rparr> else c))"
proof -
  let ?n = "int (digits_value 10 ds)"
  have "\<not> isdigit (ch (CHR ''m''))" by (simp add: isdigit_def)
  then have "parse_int m (s + 1) = Some (s + 1 + of_nat (length ds), foldl (\<lambda>v c. v * 10 + (uint c - 48)) 0 ds)"
    unfolding parse_int_def using assms(2,4,5) by (intro parse_int_loop_digits) auto
  moreover have "foldl (\<lambda>v c. v * 10 + (uint c - 48)) (int 0) ds = ?n"
    unfolding digits_value_def using assms(4) by (rule foldl_digits)
  moreover have "isdigit (m (s + 1))" using assms(2) [of 0] assms(3,4) by simp
  ultimately have p: "process_escape_sequence m s c = Some (s + of_nat (length ds + 2), process_graphic_escape_sequence ?n c)"
    using assms(1,5) by (simp add: process_escape_sequence_def add.assoc)
  show ?thesis unfolding p by (simp only: graphic_by_table of_nat_eq_0_iff)
qed


lemma escape_sequence_colours_witness:
  "\<exists>m. \<forall>c. process_escape_sequence m 0x100 c = Some (0x104, c\<lparr>con_format := (con_format c)\<lparr>foreground := RED\<rparr>\<rparr>)"
proof -
  define m :: memory where "m = (\<lambda>_. 0)(0x100 := ch (CHR ''[''), 0x101 := ch (CHR ''3''), 0x102 := ch (CHR ''1''), 0x103 := ch (CHR ''m''))"
  have ds: "m (0x100 + 1 + of_nat i) = [ch (CHR ''3''), ch (CHR ''1'')] ! i" if "i < length [ch (CHR ''3''), ch (CHR ''1'')]" for i
    using that by (cases i) (auto simp: m_def)
  have "int (digits_value 10 [ch (CHR ''3''), ch (CHR ''1'')]) = 31" by (simp add: digits_value_def digit_value_def)
  then have "process_escape_sequence m 0x100 c = Some (0x104, c\<lparr>con_format := (con_format c)\<lparr>foreground := RED\<rparr>\<rparr>)" for c
    using escape_sequence_colours [of m "0x100" "[ch (CHR ''3''), ch (CHR ''1'')]" c, OF _ ds]
    by (simp add: m_def isdigit_def ansi_foreground_def ansi_code_defs)
  then show ?thesis by blast
qed

text \<open>A backspace after a character that did not end its line takes it back: the cursor returns
  to where it was and the cell is blank, in the current colours; all other cells are untouched.\<close>

theorem backspace_undoes:
  assumes "console_ok ((m, v), c)" "pt_y (con_cursor c) < page_rows v"
    and "Suc (unat (pt_x (con_cursor c))) < unat (page_columns v)" "k \<notin> {ch (CHR ''\<newline>''), 0x0d, 0x08}"
  shows "display_of (cflush_char (page_rows v) 0x08 (cflush_char (page_rows v) k ((m, v), c)))
    = (let T = display_of ((m, v), c) in
       T\<lparr>t_lines := (t_lines T)[t_line T := (t_lines T ! t_line T)[t_column T := vga_character (ch (CHR '' '')) (con_format c)]]\<rparr>)"
proof -
  obtain m1 v1 c1 where f: "cwrite k ((m, v), c) = ((m1, v1), c1)" by (metis surj_pair)
  note W = cwrite_step [OF assms(1,2) f]
  have x: "unat (pt_x (con_cursor c1)) = Suc (unat (pt_x (con_cursor c)))" "unat (pt_y (con_cursor c1)) = unat (pt_y (con_cursor c))"
    using W(5) assms(3) by simp_all
  let ?c = "c1\<lparr>con_cursor := (con_cursor c1)\<lparr>pt_x := pt_x (con_cursor c1) - 1\<rparr>\<rparr>"
  have nz: "pt_x (con_cursor c1) \<noteq> 0" using x(1) by auto
  then have p: "unat (pt_x (con_cursor ?c)) = unat (pt_x (con_cursor c))" "unat (pt_y (con_cursor ?c)) = unat (pt_y (con_cursor c))"
    using x by (simp_all add: unat_minus_one)
  obtain m2 v2 c2 where g: "inplace_cwrite (ch (CHR '' '')) ((m1, v1), ?c) = ((m2, v2), c2)" by (metis surj_pair)
  have ok: "console_ok ((m1, v1), ?c)" using evolves_ok [OF W(1)] p(1) assms(3) W(2) by (simp add: console_ok_def)
  have "pt_y (con_cursor ?c) < page_rows v1" using p(2) assms(2) W(2) by (simp add: word_less_nat_alt)
  note I = inplace_cwrite_step [OF ok this g]
  have "cflush_char (page_rows v) 0x08 (cflush_char (page_rows v) k ((m, v), c)) = ((m2, v2), c2)"
    using assms(4) f g nz by (simp add: cflush_char_def cbackspace_def)
  then show ?thesis
    using I(2,4) p W(3,4) assms(2) by (simp add: display_of_def Let_def word_less_nat_alt)
qed

lemma backspace_undoes_witness:
  "\<exists>t. console_ok t \<and> display_of (cflush_char 24 0x08 (cflush_char 24 (ch (CHR ''A'')) t)) = display_of t"
proof -
  obtain m v c where t: "console_ok ((m, v), c)" "page_columns v = 80" "page_rows v = 24" "con_format c = default_format fullscreen"
    "display_of ((m, v), c) = \<lparr>t_lines = replicate 24 (replicate 80 (vga_character (ch (CHR '' '')) (default_format fullscreen))),
        t_column = 0, t_line = 0\<rparr>"
    using boot_text [of "ch (CHR ''A'')" "\<lambda>_. 0"] by blast
  have blank: "(replicate 80 w)[0 := w] = replicate 80 w" for w :: u16 by (rule nth_equalityI) (auto simp: nth_list_update)
  have "unat (pt_x (con_cursor c)) = 0" "unat (pt_y (con_cursor c)) = 0" using t(5) by (simp_all add: display_of_def)
  then have "display_of (cflush_char 24 0x08 (cflush_char 24 (ch (CHR ''A'')) ((m, v), c))) = display_of ((m, v), c)"
    using backspace_undoes [OF t(1), of "ch (CHR ''A'')"] t(2-5) by (simp add: word_less_nat_alt Let_def list_update_same_conv blank)
  then show ?thesis using t(1) by blast
qed

text \<open>A full buffer: \<open>vcprintf\<close> has no room, so the message is dropped; what is done is the flush.\<close>

lemma printf_full_buffer:
  assumes "con_buffer_pos c = con_buffer_size c" "vcprintf fmt args ((m, v), c) = Some (ret, t')" "0 \<le> ret"
    and "renders (\<lambda>_. False) m args fmt 0 xs" "unat (con_buffer c + con_buffer_pos c) + length xs < 2 ^ 32" "length xs < 2 ^ 31"
  shows "ret = int (length xs)" "cflush ((m, v), c) = Some t'"
proof -
  let ?p = "con_buffer c + con_buffer_size c"
  have "renders (\<lambda>a. in_region a ?p (unat (0 :: u32))) m args fmt 0 xs" using assms(4) by simp
  then have "vsnprintf m ?p 0 fmt args = Some (int (length xs), m)"
    using vsnprintf_output [of ?p 0 m args fmt xs] assms(1,5,6) unat_lt_2p32 [of ?p] by simp
  then show "ret = int (length xs)" "cflush ((m, v), c) = Some t'"
    using assms(2) by (auto simp: vcprintf_def Let_def assms(1) [symmetric] split: option.splits)
qed

end
