(* ===== verification/Logger.thy ===== *)
theory Logger
  imports Console
begin

text \<open>
  \<^verbatim>\<open>src/logger.h\<close>: the log macros, and what a message of theirs does to a console. The address of a
  string literal is the parameter \<open>lit\<close>. The build without \<open>_DEBUG\<close> is modelled: \<open>DEBUG\<close> is empty.
  The formats of the kernel are lists of \<open>directive\<close>s; \<open>directives_text\<close> says what they read as, and
  \<open>log_step\<close> shows that printing them returns and keeps a console in order.
\<close>

section \<open>Logging\<close>

definition log_message :: "string \<Rightarrow> (string \<Rightarrow> u32) \<Rightarrow> string \<Rightarrow> u32 list \<Rightarrow> tty \<Rightarrow> tty option" where
  "log_message tag lit fmt args t = map_option snd (printf (lit (''%s '' @ fmt)) (\<lambda>n. (lit tag # args) ! n) t)"

definition INFO_TAG :: string where "INFO_TAG = ''['' @ [CHR 0x1B] @ ''[32mINFO'' @ [CHR 0x1B] @ ''[0m] ''"
definition WARNING_TAG :: string where "WARNING_TAG = ''['' @ [CHR 0x1B] @ ''[93mWARNING'' @ [CHR 0x1B] @ ''[0m] ''"
definition ERROR_TAG :: string where "ERROR_TAG = ''['' @ [CHR 0x1B] @ ''[91mERROR'' @ [CHR 0x1B] @ ''[0m] ''"

definition INFO :: "(string \<Rightarrow> u32) \<Rightarrow> string \<Rightarrow> u32 list \<Rightarrow> tty \<Rightarrow> tty option" where "INFO = log_message INFO_TAG"
definition WARNING :: "(string \<Rightarrow> u32) \<Rightarrow> string \<Rightarrow> u32 list \<Rightarrow> tty \<Rightarrow> tty option" where "WARNING = log_message WARNING_TAG"
definition ERROR :: "(string \<Rightarrow> u32) \<Rightarrow> string \<Rightarrow> u32 list \<Rightarrow> tty \<Rightarrow> tty option" where "ERROR = log_message ERROR_TAG"

section \<open>Literals\<close>

text \<open>A string literal in memory, outside the region \<open>R\<close>.\<close>

definition literal :: "(u32 \<Rightarrow> bool) \<Rightarrow> memory \<Rightarrow> u32 \<Rightarrow> string \<Rightarrow> bool" where
  "literal R m p s \<longleftrightarrow> (\<forall>i \<le> length s. \<not> R (p + of_nat i) \<and> m (p + of_nat i) = (if i < length s then ch (s ! i) else 0))"

lemma literal_drop: "literal R m p s \<Longrightarrow> n \<le> length s \<Longrightarrow> literal R m (p + of_nat n) (drop n s)"
  unfolding literal_def
proof (intro allI impI)
  fix i
  assume *: "\<forall>i \<le> length s. \<not> R (p + of_nat i) \<and> m (p + of_nat i) = (if i < length s then ch (s ! i) else 0)"
    and "n \<le> length s" "i \<le> length (drop n s)"
  then have "n + i \<le> length s" by simp
  with * have "\<not> R (p + of_nat (n + i)) \<and> m (p + of_nat (n + i)) = (if n + i < length s then ch (s ! (n + i)) else 0)" by blast
  then show "\<not> R (p + of_nat n + of_nat i) \<and> m (p + of_nat n + of_nat i) = (if i < length (drop n s) then ch (drop n s ! i) else 0)"
    using \<open>n \<le> length s\<close> by (auto simp: add.assoc)
qed

lemma literal_length [simp]: "literal R m p (s @ t) \<Longrightarrow> literal R m (p + of_nat (length s)) t"
  using literal_drop [of R m p "s @ t" "length s"] by simp

lemma literal_byte:
  assumes "literal R m p s" "i < length s"
  shows "m (p + of_nat i) = ch (s ! i)" "\<not> R (p + of_nat i)"
  using assms by (auto simp: literal_def)

lemma literal_same: "literal R m p s \<Longrightarrow> same_outside R m m' \<Longrightarrow> literal R m' p s"
  by (auto simp: literal_def same_outside_def)

lemma literal_mono: "literal R m p s \<Longrightarrow> (\<And>a. R' a \<Longrightarrow> R a) \<Longrightarrow> literal R' m p s"
  by (auto simp: literal_def)

section \<open>Formats\<close>

datatype directive = Text string | Str | Dec | Hex2 | Ptr

fun directive_format :: "directive \<Rightarrow> string" where
  "directive_format (Text s) = s"
| "directive_format Str = ''%s''"
| "directive_format Dec = ''%d''"
| "directive_format Hex2 = ''%#02X''"
| "directive_format Ptr = ''%p''"

definition format_string :: "directive list \<Rightarrow> string" where
  "format_string ds = concat (map directive_format ds)"

text \<open>What a format reads as; \<open>strs k\<close> is the string the \<open>k\<close>th argument points to.\<close>

definition hex2_flags :: u8 where "hex2_flags = ALT_FLAG OR ZERO_FLAG"

fun directives_text :: "(nat \<Rightarrow> string) \<Rightarrow> (nat \<Rightarrow> u32) \<Rightarrow> nat \<Rightarrow> directive list \<Rightarrow> u8 list" where
  "directives_text strs args k [] = []"
| "directives_text strs args k (Text s # ds) = map ch s @ directives_text strs args k ds"
| "directives_text strs args k (Str # ds) = map ch (strs k) @ directives_text strs args (Suc k) ds"
| "directives_text strs args k (Dec # ds) = integer_field (args k) 10 (-1) (-1) (ucast (SIGNED_FLAG :: u8)) @ directives_text strs args (Suc k) ds"
| "directives_text strs args k (Hex2 # ds) = integer_field (args k) 16 2 (-1) (ucast (hex2_flags OR UPPER_FLAG)) @ directives_text strs args (Suc k) ds"
| "directives_text strs args k (Ptr # ds) = integer_field (args k) 16 8 (-1) (ucast (ZERO_FLAG :: u8)) @ directives_text strs args (Suc k) ds"

text \<open>Text without directives or terminators, and string arguments that are in memory.\<close>

definition plain_text :: "string \<Rightarrow> bool" where
  "plain_text s \<longleftrightarrow> (\<forall>c \<in> set s. ch c \<noteq> 0 \<and> ch c \<noteq> ch (CHR ''%''))"

definition terminated :: "string \<Rightarrow> bool" where
  "terminated s \<longleftrightarrow> (\<forall>c \<in> set s. ch c \<noteq> 0) \<and> length s < 1024"

fun directives_ok :: "(u32 \<Rightarrow> bool) \<Rightarrow> memory \<Rightarrow> (nat \<Rightarrow> string) \<Rightarrow> (nat \<Rightarrow> u32) \<Rightarrow> nat \<Rightarrow> directive list \<Rightarrow> bool" where
  "directives_ok R m strs args k [] \<longleftrightarrow> True"
| "directives_ok R m strs args k (Text s # ds) \<longleftrightarrow> plain_text s \<and> directives_ok R m strs args k ds"
| "directives_ok R m strs args k (Str # ds) \<longleftrightarrow>
     literal R m (args k) (strs k) \<and> terminated (strs k) \<and> directives_ok R m strs args (Suc k) ds"
| "directives_ok R m strs args k (_ # ds) \<longleftrightarrow> directives_ok R m strs args (Suc k) ds"

section \<open>Lemmas: what a format renders to\<close>

lemma renders_text:
  assumes "literal R m p (s @ rest)" "plain_text s" "renders R m args (p + of_nat (length s)) k xs"
  shows "renders R m args p k (map ch s @ xs)"
  using assms
proof (induction s arbitrary: p)
  case (Cons c s)
  have c: "m p = ch c" "\<not> R p" using literal_byte [OF Cons.prems(1), of 0] by simp_all
  have "literal R m (p + 1) (s @ rest)" using literal_drop [OF Cons.prems(1), of 1] by simp
  then have "renders R m args (p + 1) k (map ch s @ xs)"
    using Cons.prems(2,3) by (intro Cons.IH) (simp_all add: plain_text_def ac_simps)
  moreover have "m p \<noteq> 0" "m p \<noteq> ch (CHR ''%'')" using Cons.prems(2) unfolding c by (simp_all add: plain_text_def)
  ultimately have "renders R m args p k (m p # (map ch s @ xs))" using c(2) by (intro renders.plain)
  then show ?case unfolding c by simp
qed simp

lemma renders_directive:
  assumes "literal R m p (f @ c # rest)" "f \<noteq> []" "hd f = CHR ''%''"
    and "\<And>m'. literal R m' p (f @ c # rest) \<Longrightarrow> parse_conversion m' args p k = Some (p + of_nat (length f), cv, k)"
    and "\<And>i. ch c = ch (CHR ''s'') \<Longrightarrow> i \<le> length (string_bytes m (args k) (word_of_int (conv_prescision cv))) \<Longrightarrow> \<not> R (args k + of_nat i)"
    and "renders R m args (p + of_nat (length f) + 1) (conversion_next (ch c) k) xs"
  shows "renders R m args p k (conversion_field m args (ch c) cv k @ xs)"
proof -
  have f: "m p = ch (CHR ''%'')" "\<not> R p"
    using literal_byte [OF assms(1), of 0] assms(2,3) by (simp_all add: nth_append hd_conv_nth)
  have c: "m (p + of_nat (length f)) = ch c" "\<not> R (p + of_nat (length f))"
    using literal_byte [OF assms(1), of "length f"] by simp_all
  have "renders R m args p k (conversion_field m args (m (p + of_nat (length f))) cv k @ xs)"
  proof (rule renders.conv)
    show "parse_conversion m' args p k = Some (p + of_nat (length f), cv, k)" if "same_outside R m m'" for m'
      using assms(4) literal_same [OF assms(1) that] .
    show "\<not> R (args k + of_nat i)" if "m (p + of_nat (length f)) = ch (CHR ''s'')"
      "i \<le> length (string_bytes m (args k) (word_of_int (conv_prescision cv)))" for i
      using assms(5) [OF _ that(2)] that(1) unfolding c(1) .
  qed (use f c assms(6) in simp_all)
  then show ?thesis unfolding c .
qed

text \<open>The specifications of the four formats.\<close>

lemma parse_plain:
  assumes "literal R m p (''%'' @ c # rest)" "\<not> special (ch c)"
  shows "parse_conversion m args p k = Some (p + 1, simple_conversion, k)"
  using literal_byte(1) [OF assms(1), of 1] assms(2) by (simp add: parse_simple)

lemma parse_hex2:
  assumes "literal R m p (''%#02'' @ CHR ''X'' # rest)"
  shows "parse_conversion m args p k
    = Some (p + of_nat (length ''%#02''), \<lparr>conv_flags = hex2_flags, conv_width = 2, conv_prescision = -1, conv_qualifier = -1\<rparr>, k)"
proof -
  have b: "m (p + 1) = ch (CHR ''#'')" "m (p + 2) = ch (CHR ''0'')" "m (p + 3) = ch (CHR ''2'')" "m (p + 4) = ch (CHR ''X'')"
    using literal_byte(1) [OF assms, of 1] literal_byte(1) [OF assms, of 2] literal_byte(1) [OF assms, of 3]
      literal_byte(1) [OF assms, of 4] by simp_all
  have flags: "parse_flags m p 0 = Some (p + 3, hex2_flags)"
    using b by (simp add: parse_flags.simps [of m p] parse_flags.simps [of m "p + 1"] parse_flags.simps [of m "p + 2"]
      hex2_flags_def Let_def add.assoc)
  have "parse_int m (p + 3) = Some (p + 4, 2)"
    using b by (simp add: parse_int_def parse_int_loop.simps [of m "p + 3"] parse_int_loop.simps [of m "p + 4"] isdigit_def add.assoc)
  with b flags show ?thesis
    by (simp add: parse_conversion_def adjust_flags_def parse_width_def parse_prescision_def parse_qualifier_def isdigit_def
        hex2_flags_def ALT_FLAG_def ZERO_FLAG_def Let_def)
qed

lemma string_bytes_literal:
  assumes "literal R m p s" "terminated s"
  shows "string_bytes m p (-1) = map ch s"
proof -
  let ?n = "unat (bound_string_length m p (-1))"
  have at: "m (p + of_nat i) \<noteq> 0 \<longleftrightarrow> i < length s" if "i \<le> length s" for i
    using assms that by (auto simp: literal_def terminated_def)
  have big: "unat (-1 :: u32) = 4294967295" by (simp add: unsigned_minus_1_eq_mask mask_eq_exp_minus_1)
  have "\<not> ?n < length s"
    using at [of ?n] bound_string_length_spec(3) [of m p "-1"] assms(2) big by (auto simp: terminated_def)
  moreover have "\<not> length s < ?n" using at [of "length s"] bound_string_length_spec(2) [of "length s" m p "-1"] by auto
  ultimately have n: "?n = length s" by simp
  show ?thesis unfolding string_bytes_def n
    by (rule nth_equalityI) (use literal_byte(1) [OF assms(1)] in simp_all)
qed

text \<open>A format of directives renders to its text.\<close>

lemma renders_directives:
  assumes "directives_ok R m strs args k ds" "literal R m p (format_string ds)"
  shows "renders R m args p k (directives_text strs args k ds)"
  using assms
proof (induction strs args k ds arbitrary: p rule: directives_text.induct)
  case (1 strs args k)
  then show ?case by (auto simp: format_string_def literal_def intro: renders.stop)
next
  case (2 strs args k s ds)
  have l: "literal R m p (s @ format_string ds)" using "2.prems"(2) by (simp add: format_string_def)
  have "renders R m args (p + of_nat (length s)) k (directives_text strs args k ds)"
    using "2.prems"(1) literal_length [OF l] by (intro "2.IH") simp_all
  then show ?case using renders_text [OF l] "2.prems"(1) by simp
next
  case (3 strs args k ds)
  have l: "literal R m p (''%'' @ CHR ''s'' # format_string ds)" using "3.prems"(2) by (simp add: format_string_def)
  have lit: "literal R m (args k) (strs k)" "terminated (strs k)" using "3.prems"(1) by simp_all
  note str = string_bytes_literal [OF lit]
  have pre: "conv_prescision simple_conversion = -1" by (simp add: simple_conversion_def)
  have out: "\<not> R (args k + of_nat i)" if "i \<le> length (strs k)" for i using lit(1) that by (simp add: literal_def)
  have "literal R m (p + of_nat 2) (format_string ds)" using literal_drop [OF l, of 2] by simp
  then have "renders R m args (p + of_nat (length ''%'') + 1) (conversion_next (ch (CHR ''s'')) k) (directives_text strs args (Suc k) ds)"
    using "3.prems"(1) "3.IH" by (simp add: conversion_next_def add.assoc)
  then have "renders R m args p k (conversion_field m args (ch (CHR ''s'')) simple_conversion k @ directives_text strs args (Suc k) ds)"
    by (intro renders_directive [OF l]) (use out in \<open>auto intro: parse_plain simp: special_def isdigit_def pre str\<close>)
  moreover have "conversion_field m args (ch (CHR ''s'')) simple_conversion k = map ch (strs k)"
    by (simp add: conversion_field_def simple_conversion_def string_field_def str)
  ultimately show ?case by simp
next
  case (4 strs args k ds)
  have l: "literal R m p (''%'' @ CHR ''d'' # format_string ds)" using "4.prems"(2) by (simp add: format_string_def)
  have "literal R m (p + of_nat 2) (format_string ds)" using literal_drop [OF l, of 2] by simp
  then have "renders R m args (p + of_nat (length ''%'') + 1) (conversion_next (ch (CHR ''d'')) k) (directives_text strs args (Suc k) ds)"
    using "4.prems"(1) "4.IH" by (simp add: conversion_next_def integer_conversion_def add.assoc)
  then have "renders R m args p k (conversion_field m args (ch (CHR ''d'')) simple_conversion k @ directives_text strs args (Suc k) ds)"
    by (intro renders_directive [OF l]) (auto intro: parse_plain simp: special_def isdigit_def)
  moreover have "conversion_field m args (ch (CHR ''d'')) simple_conversion k = integer_field (args k) 10 (-1) (-1) (ucast (SIGNED_FLAG :: u8))"
    by (simp add: conversion_field_def integer_conversion_def integer_argument_def simple_conversion_def)
  ultimately show ?case by simp
next
  case (5 strs args k ds)
  have l: "literal R m p (''%#02'' @ CHR ''X'' # format_string ds)" using "5.prems"(2) by (simp add: format_string_def)
  let ?cv = "\<lparr>conv_flags = hex2_flags, conv_width = 2, conv_prescision = -1, conv_qualifier = -1\<rparr>"
  have "literal R m (p + of_nat 5) (format_string ds)" using literal_drop [OF l, of 5] by simp
  then have "renders R m args (p + of_nat (length ''%#02'') + 1) (conversion_next (ch (CHR ''X'')) k) (directives_text strs args (Suc k) ds)"
    using "5.prems"(1) "5.IH" by (simp add: conversion_next_def integer_conversion_def add.assoc)
  then have "renders R m args p k (conversion_field m args (ch (CHR ''X'')) ?cv k @ directives_text strs args (Suc k) ds)"
    by (intro renders_directive [OF l]) (auto intro: parse_hex2 [simplified])
  moreover have "conversion_field m args (ch (CHR ''X'')) ?cv k = integer_field (args k) 16 2 (-1) (ucast (hex2_flags OR UPPER_FLAG))"
    by (simp add: conversion_field_def integer_conversion_def integer_argument_def)
  ultimately show ?case by simp
next
  case (6 strs args k ds)
  have l: "literal R m p (''%'' @ CHR ''p'' # format_string ds)" using "6.prems"(2) by (simp add: format_string_def)
  have "literal R m (p + of_nat 2) (format_string ds)" using literal_drop [OF l, of 2] by simp
  then have "renders R m args (p + of_nat (length ''%'') + 1) (conversion_next (ch (CHR ''p'')) k) (directives_text strs args (Suc k) ds)"
    using "6.prems"(1) "6.IH" by (simp add: conversion_next_def add.assoc)
  then have "renders R m args p k (conversion_field m args (ch (CHR ''p'')) simple_conversion k @ directives_text strs args (Suc k) ds)"
    by (intro renders_directive [OF l]) (auto intro: parse_plain simp: special_def isdigit_def)
  moreover have "conversion_field m args (ch (CHR ''p'')) simple_conversion k = integer_field (args k) 16 8 (-1) (ucast (ZERO_FLAG :: u8))"
    by (simp add: conversion_field_def simple_conversion_def)
  ultimately show ?case by simp
qed

section \<open>Lemmas: lengths\<close>

lemma integer_field_length:
  assumes "base \<in> {8, 10, 16}" "width \<le> 14"
  shows "length (integer_field v base width (-1) flags) \<le> 14"
proof -
  have d: "length (integer_digits flags base v) \<le> 11" using assms(1) by (intro integer_digits_value(3)) auto
  have "length (integer_sign flags v) \<le> 1" "length (integer_prefix flags base) \<le> 2"
    by (simp_all add: integer_sign_def integer_prefix_def)
  then have "length (integer_sign flags v @ integer_prefix flags base @ integer_digits flags base v) \<le> 14" using d by simp
  moreover have "a + (b + (d + nat (width - (int a + int b + int d)))) \<le> 14" if "a + (b + d) \<le> 14" for a b d :: nat
    using that assms(2) by arith
  ultimately show ?thesis by (simp add: integer_field_def Let_def ac_simps)
qed

fun directives_room :: "(nat \<Rightarrow> string) \<Rightarrow> nat \<Rightarrow> directive list \<Rightarrow> nat" where
  "directives_room strs k [] = 0"
| "directives_room strs k (Text s # ds) = length s + directives_room strs k ds"
| "directives_room strs k (Str # ds) = length (strs k) + directives_room strs (Suc k) ds"
| "directives_room strs k (_ # ds) = 14 + directives_room strs (Suc k) ds"

lemma directives_text_length: "length (directives_text strs args k ds) \<le> directives_room strs k ds"
  by (induction strs args k ds rule: directives_text.induct) (auto intro!: add_mono integer_field_length)

section \<open>A console between messages\<close>

text \<open>Every function that prints leaves the buffer empty; \<open>tty_step\<close> is what it may change.\<close>

definition tty_ready :: "tty \<Rightarrow> bool" where
  "tty_ready t \<longleftrightarrow> console_ok t \<and> buffer_apart t \<and> con_buffer_pos (snd t) = 0 \<and> con_buffer_size (snd t) = STDOUT_BUFFER_SIZE"

definition in_console :: "tty \<Rightarrow> u32 \<Rightarrow> bool" where
  "in_console t a \<longleftrightarrow> in_display (snd (fst t)) a \<or> in_region a (con_buffer (snd t)) (unat STDOUT_BUFFER_SIZE)"

definition tty_step :: "tty \<Rightarrow> tty \<Rightarrow> bool" where
  "tty_step t t' \<longleftrightarrow> tty_ready t' \<and> in_console t' = in_console t \<and> same_outside (in_console t) (fst (fst t)) (fst (fst t'))"

lemma tty_step_refl: "tty_ready t \<Longrightarrow> tty_step t t"
  by (simp add: tty_step_def)

lemma tty_step_trans: "tty_step t t' \<Longrightarrow> tty_step t' t'' \<Longrightarrow> tty_step t t''"
  using same_outside_trans by (fastforce simp: tty_step_def)

text \<open>Putting bytes into the buffer and flushing them.\<close>

lemma tty_step_flush:
  assumes "tty_ready ((m, v), c)" "same_outside (\<lambda>a. in_region a (con_buffer c) 512) m m1"
    and "console_ok ((m1, v), c\<lparr>con_buffer_pos := n\<rparr>) \<Longrightarrow> evolves ((m1, v), c\<lparr>con_buffer_pos := n\<rparr>) ((m', v'), c')"
  shows "tty_step ((m, v), c) ((m', v'), c'\<lparr>con_buffer_pos := 0\<rparr>)"
proof -
  have r: "console_ok ((m, v), c)" "buffer_apart ((m, v), c)" "con_buffer_size c = 512"
    using assms(1) by (simp_all add: tty_ready_def STDOUT_BUFFER_SIZE_def)
  have apart: "m1 a = m a" if "in_display v a" for a
    using that r assms(2) by (auto simp: buffer_apart_def same_outside_def)
  have e: "evolves ((m1, v), c\<lparr>con_buffer_pos := n\<rparr>) ((m', v'), c')"
    using assms(3) display_outside(1) [OF r(1) apart] by simp
  note G = evolves_geometry [OF e]
  have "same_outside (in_console ((m, v), c)) m m'"
    using assms(2) G(5) by (simp add: same_outside_def in_console_def STDOUT_BUFFER_SIZE_def)
  moreover have "in_console ((m', v'), c'\<lparr>con_buffer_pos := 0\<rparr>) = in_console ((m, v), c)"
    using G(3,6) by (simp add: in_console_def fun_eq_iff)
  moreover have "tty_ready ((m', v'), c'\<lparr>con_buffer_pos := 0\<rparr>)"
    using evolves_ok [OF e] G(3,6,8) r(2,3) by (simp add: tty_ready_def buffer_apart_def STDOUT_BUFFER_SIZE_def)
  ultimately show ?thesis by (simp add: tty_step_def)
qed

lemma tty_step_byte:
  assumes "tty_ready ((m, v), c)" "k \<noteq> ESC"
  shows "\<exists>t'. cflush ((m(con_buffer c := k), v), c\<lparr>con_buffer_pos := 1\<rparr>) = Some t' \<and> tty_step ((m, v), c) t'"
proof -
  let ?m = "m(con_buffer c := k)" and ?c = "c\<lparr>con_buffer_pos := 1\<rparr>"
  have r: "console_ok ((m, v), c)" "buffer_apart ((m, v), c)" "con_buffer_size c = 512"
    using assms(1) by (simp_all add: tty_ready_def STDOUT_BUFFER_SIZE_def)
  have out: "same_outside (\<lambda>a. in_region a (con_buffer c) 512) m ?m" by (rule same_outside_upd) (simp add: in_region_def)
  have "?m a = m a" if "in_display v a" for a using that r by (auto simp: buffer_apart_def in_region_def)
  note O = display_outside(1) [of m v c ?m, OF r(1) this]
  have "\<exists>m' v' c'. cflush ((?m, v), ?c) = Some ((m', v'), c'\<lparr>con_buffer_pos := 0\<rparr>) \<and> evolves ((?m, v), ?c) ((m', v'), c')"
    by (rule cflush_byte) (use O r(2,3) assms(2) in \<open>simp_all add: buffer_apart_def word_le_nat_alt\<close>)
  then show ?thesis using tty_step_flush [OF assms(1) out] by metis
qed

text \<open>
  Printing a message that fits the buffer, escape sequences included: the terminator that
  \<open>vsnprintf\<close> leaves behind it stops the last one.
\<close>

lemma printf_step:
  assumes "tty_ready ((m, v), c)" "renders (\<lambda>a. in_region a (con_buffer c) 512) m args fmt 0 xs" "length xs < 512"
  shows "\<exists>t'. printf fmt args ((m, v), c) = Some (int (length xs), t') \<and> tty_step ((m, v), c) t'"
proof -
  let ?B = "con_buffer c" and ?len = "of_nat (length xs) :: u32"
  have r: "console_ok ((m, v), c)" "buffer_apart ((m, v), c)" "con_buffer_size c = 512" "con_buffer_pos c = 0"
    using assms(1) by (simp_all add: tty_ready_def STDOUT_BUFFER_SIZE_def)
  have fits: "unat ?B + unat (512 :: u32) < 2 ^ 32 - 1" using r(2,3) by (simp add: buffer_apart_def)
  define m1 where "m1 = placed ?B 512 (take 511 xs @ [0]) m"
  have out: "vsnprintf m ?B 512 fmt args = Some (int (length xs), m1)"
    using vsnprintf_output [of ?B 512 m args fmt xs] assms(2,3) fits by (simp add: m1_def)
  have len: "unat ?len = length xs" using assms(3) by (simp add: unat_of_nat take_bit_nat_eq_self)
  let ?c = "c\<lparr>con_buffer_pos := ?len\<rparr>" and ?b = "?B + ?len"
  have placed: "same_outside (\<lambda>a. in_region a ?B 512) m m1" unfolding m1_def by (rule same_outside_placed)
  have b: "in_region ?b ?B 512" "unat ?b = unat ?B + length xs"
    using assms(3) fits len by (auto simp: in_region_def unat_word_ariths)
  have "m1 ?b = 0" using assms(3) len by (simp add: m1_def placed_def nth_append)
  moreover have "?len < 512" using assms(3) len by (simp add: word_less_nat_alt)
  moreover have "console_ok ((m1, v), ?c)"
    using display_outside(1) [of m v c m1, OF r(1)] placed r(2,3) by (auto simp: buffer_apart_def same_outside_def)
  moreover have "buffer_apart ((m1, v), ?c)" using r(2,3) \<open>?len < 512\<close> by (simp add: buffer_apart_def)
  moreover have "\<not> in_display v ?b" using b(1) r(2,3) by (simp add: buffer_apart_def)
  ultimately obtain m' v' c' where f: "cflush ((m1, v), ?c) = Some ((m', v'), c'\<lparr>con_buffer_pos := 0\<rparr>)"
    "evolves ((m1, v), ?c) ((m', v'), c')"
    using cflush_evolves [of m1 v ?c ?b] b(2) fits len assms(3) by (auto simp: isdigit_def)
  then have "printf fmt args ((m, v), c) = Some (int (length xs), (m', v'), c'\<lparr>con_buffer_pos := 0\<rparr>)"
    using out r(3,4) \<open>?len < 512\<close> by (simp add: printf_def vcprintf_def Let_def)
  moreover have "tty_step ((m, v), c) ((m', v'), c'\<lparr>con_buffer_pos := 0\<rparr>)"
    by (rule tty_step_flush [OF assms(1) placed]) (rule f(2))
  ultimately show ?thesis by blast
qed

section \<open>Lemmas: log messages\<close>

text \<open>The literals \<open>S\<close> are in memory, where no output can reach them.\<close>

definition literals_at :: "tty \<Rightarrow> (string \<Rightarrow> u32) \<Rightarrow> string set \<Rightarrow> bool" where
  "literals_at t lit S \<longleftrightarrow> (\<forall>s \<in> S. literal (in_console t) (fst (fst t)) (lit s) s)"

lemma literals_at_step: "literals_at t lit S \<Longrightarrow> tty_step t t' \<Longrightarrow> literals_at t' lit S"
  by (auto simp: literals_at_def tty_step_def intro: literal_same)

lemma printf_directives:
  assumes "tty_ready t" "literal (in_console t) (fst (fst t)) fmt (format_string ds)"
    and "directives_ok (in_console t) (fst (fst t)) strs args 0 ds" "directives_room strs 0 ds < 512"
  shows "\<exists>n t'. printf fmt args t = Some (n, t') \<and> tty_step t t'"
proof -
  obtain m v c where t: "t = ((m, v), c)" by (metis surj_pair)
  have "renders (in_console t) m args fmt 0 (directives_text strs args 0 ds)"
    using renders_directives [OF assms(3,2)] by (simp add: t)
  then have "renders (\<lambda>a. in_region a (con_buffer c) 512) m args fmt 0 (directives_text strs args 0 ds)"
    by (rule renders_mono) (simp add: in_console_def t STDOUT_BUFFER_SIZE_def)
  moreover have "length (directives_text strs args 0 ds) < 512"
    using directives_text_length [of strs args 0 ds] assms(4) by simp
  ultimately show ?thesis using printf_step [OF assms(1) [unfolded t]] t by blast
qed

definition log_tags :: "string set" where
  "log_tags = {INFO_TAG, WARNING_TAG, ERROR_TAG}"

lemma log_tag_facts: "tag \<in> log_tags \<Longrightarrow> terminated tag \<and> length tag \<le> 32"
  by (auto simp: log_tags_def INFO_TAG_def WARNING_TAG_def ERROR_TAG_def terminated_def)

text \<open>A log message of directives \<open>ds\<close>, with \<open>strs\<close> for its string arguments.\<close>

lemma log_step:
  assumes "tty_ready t" "tag \<in> log_tags" "literals_at t lit S" "{tag, ''%s '' @ format_string ds} \<subseteq> S"
    and "directives_ok (in_console t) (fst (fst t)) (\<lambda>n. (tag # strs) ! n) (\<lambda>n. (lit tag # args) ! n) 1 ds"
    and "directives_room (\<lambda>n. (tag # strs) ! n) 1 ds < 400"
  shows "\<exists>t'. log_message tag lit (format_string ds) args t = Some t' \<and> tty_step t t'"
proof -
  let ?ds = "Str # Text '' '' # ds" and ?strs = "\<lambda>n. (tag # strs) ! n"
  have f: "format_string ?ds = ''%s '' @ format_string ds" by (simp add: format_string_def)
  have lit: "literal (in_console t) (fst (fst t)) (lit tag) tag"
    "literal (in_console t) (fst (fst t)) (lit (''%s '' @ format_string ds)) (format_string ?ds)"
    using assms(3,4) unfolding f by (simp_all add: literals_at_def)
  have "directives_ok (in_console t) (fst (fst t)) ?strs (\<lambda>n. (lit tag # args) ! n) 0 ?ds"
    using assms(5) lit(1) log_tag_facts [OF assms(2)] by (simp add: plain_text_def)
  moreover have "directives_room ?strs 0 ?ds < 512" using assms(6) log_tag_facts [OF assms(2)] by simp
  ultimately obtain n t' where "printf (lit (''%s '' @ format_string ds)) (\<lambda>n. (lit tag # args) ! n) t = Some (n, t')" "tty_step t t'"
    using printf_directives [OF assms(1) lit(2)] by blast
  then show ?thesis by (simp add: log_message_def)
qed

end
