(* ===== verification/Pit.thy ===== *)
theory Pit
  imports Ports Interrupts
begin

text \<open>
  \<^verbatim>\<open>src/pit.c\<close>, \<^verbatim>\<open>pit.h\<close> and \<^verbatim>\<open>pit_handler.asm\<close>: programming the interval timer and the clock its
  interrupts drive, a 32.32 fixed-point count of milliseconds. The address of the assembly
  routine \<open>timer_handler\<close> is a parameter where it is only stored. \<open>pushfd\<close>, \<open>cli\<close> and \<open>popfd\<close>
  around the two writes to the device keep interrupts out; no interrupt is modelled between them.
\<close>

section \<open>Definitions\<close>

definition PIT_ACTUAL_FREQUENCY :: u32 where "PIT_ACTUAL_FREQUENCY = 3579545"
definition PIT_INTERNAL_DIVIDER :: u32 where "PIT_INTERNAL_DIVIDER = 3"
definition PIT_CHANNEL0 :: u16 where "PIT_CHANNEL0 = 0x40"
definition PIT_COMMAND_PORT :: u16 where "PIT_COMMAND_PORT = 0x43"

datatype PITMode = INTERRUPT_ON_TERMINAL_COUNT | HARDWARE_RETRIGGERABLE_ONE_SHOT | RATE_GENERATOR | SQUARE_WAVE_MODE
  | SOFTWARE_TRIGGERED_STROBE | HARDWARE_TRIGGERED_STROBE

fun pit_mode_code :: "PITMode \<Rightarrow> 3 word" where
  "pit_mode_code INTERRUPT_ON_TERMINAL_COUNT = 0" | "pit_mode_code HARDWARE_RETRIGGERABLE_ONE_SHOT = 1"
| "pit_mode_code RATE_GENERATOR = 2" | "pit_mode_code SQUARE_WAVE_MODE = 3"
| "pit_mode_code SOFTWARE_TRIGGERED_STROBE = 4" | "pit_mode_code HARDWARE_TRIGGERED_STROBE = 5"

datatype PITAccess = COUNTER_LATCH_COMMAND | LSB_ONLY | MSB_ONLY | LSB_MSB

fun pit_access_code :: "PITAccess \<Rightarrow> 2 word" where
  "pit_access_code COUNTER_LATCH_COMMAND = 0" | "pit_access_code LSB_ONLY = 1"
| "pit_access_code MSB_ONLY = 2" | "pit_access_code LSB_MSB = 3"

datatype PITCounter = COUNTER_0 | COUNTER_1 | COUNTER_2 | READ_BACK

fun pit_counter_code :: "PITCounter \<Rightarrow> 2 word" where
  "pit_counter_code COUNTER_0 = 0" | "pit_counter_code COUNTER_1 = 1"
| "pit_counter_code COUNTER_2 = 2" | "pit_counter_code READ_BACK = 3"

definition PITControlWord_byte :: "bool \<Rightarrow> PITMode \<Rightarrow> PITAccess \<Rightarrow> PITCounter \<Rightarrow> u8" where
  "PITControlWord_byte bcd mode read_write select_counter =
     of_bool bcd OR push_bit 1 (ucast (pit_mode_code mode)) OR push_bit 4 (ucast (pit_access_code read_write))
     OR push_bit 6 (ucast (pit_counter_code select_counter))"

definition pit_command :: "'d bus \<Rightarrow> u8 \<Rightarrow> 'd \<Rightarrow> 'd" where
  "pit_command B cmd d = outb B PIT_COMMAND_PORT cmd d"

definition pit_send :: "'d bus \<Rightarrow> u16 \<Rightarrow> u8 \<Rightarrow> 'd \<Rightarrow> 'd" where
  "pit_send B c b d = outb B c b d"

text \<open>\<open>add\<close> and \<open>adc\<close>: the sum of two 32.32 numbers, as its high and low words.\<close>

definition add_32fp32 :: "u32 \<Rightarrow> u32 \<Rightarrow> u32 \<Rightarrow> u32 \<Rightarrow> u32 \<times> u32" where
  "add_32fp32 h1 l1 h2 l2 = (h1 + h2 + (if l1 + l2 < l1 then 1 else 0), l1 + l2)"

record timer =
  millis_fractions :: u32
  millis :: u32
  interrupt_millis :: u32
  interrupt_millis_fractions :: u32
  interrupt_frequency :: u32
  PIT_reload_value_channel0 :: u32

definition timer_initial :: timer where
  "timer_initial = \<lparr>millis_fractions = 0, millis = 0, interrupt_millis = 0, interrupt_millis_fractions = 0,
     interrupt_frequency = 0, PIT_reload_value_channel0 = 0\<rparr>"

text \<open>The interrupt routine: add the length of a tick to the clock.\<close>

definition timer_handler :: "timer \<Rightarrow> timer" where
  "timer_handler t =
     (let (h, l) = add_32fp32 (millis t) (millis_fractions t) (interrupt_millis t) (interrupt_millis_fractions t)
      in t\<lparr>millis := h, millis_fractions := l\<rparr>)"

definition init_timer_with_reload_value :: "'d bus \<Rightarrow> u32 \<Rightarrow> u32 \<Rightarrow> 'd \<times> interrupts \<times> timer \<Rightarrow> 'd \<times> interrupts \<times> timer" where
  "init_timer_with_reload_value B handler reload_value s =
     (let (d, st, t) = s;
          reload_value = (if reload_value = 1 then reload_value + 1
                          else if reload_value = 0 then reload_value OR 0x10000 else reload_value);
          actual_frequency = PIT_ACTUAL_FREQUENCY div reload_value
            + (if drop_bit 1 reload_value < PIT_ACTUAL_FREQUENCY mod reload_value then 1 else 0);
          actual_frequency = actual_frequency div PIT_INTERNAL_DIVIDER
            + (if drop_bit 3 PIT_INTERNAL_DIVIDER < actual_frequency mod PIT_INTERNAL_DIVIDER then 1 else 0);
          mils = drop_bit 10 ((ucast PIT_INTERNAL_DIVIDER * 1000 * push_bit 42 1 div ucast PIT_ACTUAL_FREQUENCY + 1) * ucast reload_value :: u64);
          t = t\<lparr>PIT_reload_value_channel0 := reload_value, interrupt_frequency := actual_frequency,
                interrupt_millis := ucast (drop_bit 32 mils), interrupt_millis_fractions := ucast mils\<rparr>;
          d = pit_command B (PITControlWord_byte False RATE_GENERATOR LSB_MSB COUNTER_0) d;
          d = pit_send B PIT_CHANNEL0 (ucast reload_value) d;
          d = pit_send B PIT_CHANNEL0 (ucast (drop_bit 8 reload_value)) d
      in (d, direct_set_interrupt_handler SYSTEM_TIMER_VECTOR INTERRUPT_GATE KERNEL_PL handler st, t))"

definition reload_value_for :: "u32 \<Rightarrow> u16" where
  "reload_value_for frequency =
     (if push_bit 16 1 \<le> frequency then 0
      else if frequency < PIT_ACTUAL_FREQUENCY div push_bit 16 1 div PIT_INTERNAL_DIVIDER then ucast (NOT 0 :: u32)
      else let reload_value = ucast (PIT_ACTUAL_FREQUENCY div frequency
                 + (if drop_bit 1 frequency < PIT_ACTUAL_FREQUENCY mod frequency then 1 else 0)) :: u16
           in ucast ((ucast reload_value :: u32) div PIT_INTERNAL_DIVIDER
                + (if drop_bit 1 PIT_INTERNAL_DIVIDER < ucast reload_value mod PIT_INTERNAL_DIVIDER then 1 else 0)))"

definition init_timer :: "'d bus \<Rightarrow> u32 \<Rightarrow> u32 \<Rightarrow> 'd \<times> interrupts \<times> timer \<Rightarrow> 'd \<times> interrupts \<times> timer" where
  "init_timer B handler frequency s = init_timer_with_reload_value B handler (ucast (reload_value_for frequency)) s"

section \<open>Lemmas: the clock\<close>

text \<open>A 32.32 number in units of \<open>2\<^sup>-\<^sup>3\<^sup>2\<close>.\<close>

definition fixed :: "u32 \<Rightarrow> u32 \<Rightarrow> nat" where
  "fixed h l = unat h * 2 ^ 32 + unat l"

lemma fixed_bound: "fixed h l < 2 ^ 64"
  using unat_lt_2p32 [of h] unat_lt_2p32 [of l] by (simp add: fixed_def)

lemma carry_out:
  fixes a l N :: nat
  assumes "l < N"
  shows "(a * N + l) mod (N * N) = (a mod N) * N + l"
  using assms by (simp add: mod_mult2_eq)

lemma add_32fp32_fixed:
  assumes "add_32fp32 h1 l1 h2 l2 = (h, l)"
  shows "fixed h l = (fixed h1 l1 + fixed h2 l2) mod 2 ^ 64"
proof -
  let ?c = "if l1 + l2 < l1 then 1 else 0 :: nat"
  have l: "unat l + ?c * 2 ^ 32 = unat l1 + unat l2"
  proof -
    have "unat (l1 + l2) = (unat l1 + unat l2) mod 2 ^ 32" by (simp add: unat_word_ariths)
    moreover have "unat l1 + unat l2 < 2 ^ 32 + 2 ^ 32" using unat_lt_2p32 [of l1] unat_lt_2p32 [of l2] by simp
    ultimately have "unat (l1 + l2) = (if unat l1 + unat l2 < 2 ^ 32 then unat l1 + unat l2 else unat l1 + unat l2 - 2 ^ 32)"
      by (simp add: mod_if)
    then show ?thesis using assms unat_lt_2p32 [of l2] by (auto simp: add_32fp32_def word_less_nat_alt)
  qed
  have h: "unat h = (unat h1 + unat h2 + ?c) mod 2 ^ 32"
    using assms by (auto simp: add_32fp32_def unat_word_ariths mod_simps)
  have "fixed h1 l1 + fixed h2 l2 = (unat h1 + unat h2 + ?c) * 2 ^ 32 + unat l"
    using l by (simp add: fixed_def algebra_simps)
  also have "\<dots> mod (2 ^ 32 * 2 ^ 32) = unat h * 2 ^ 32 + unat l"
    unfolding h using unat_lt_2p32 [of l] by (intro carry_out) simp
  finally show ?thesis by (simp add: fixed_def)
qed

lemma fixed_halves: "fixed (ucast (drop_bit 32 w)) (ucast w) = unat (w :: u64)"
proof -
  have "unat (drop_bit 32 w) = unat w div 2 ^ 32" by (subst unat_drop_bit_eq) (simp add: drop_bit_eq_div)
  moreover from this have "unat (drop_bit 32 w) < 2 ^ 32"
    using unsigned_less [of w, where 'a = nat] by (simp add: less_mult_imp_div_less)
  ultimately have "unat (ucast (drop_bit 32 w) :: u32) = unat w div 2 ^ 32"
    by (simp add: unsigned_ucast_eq take_bit_nat_eq_self)
  moreover have "unat (ucast w :: u32) = unat w mod 2 ^ 32" by (simp add: unsigned_ucast_eq take_bit_eq_mod)
  ultimately show ?thesis by (simp add: fixed_def)
qed

lemma timer_handler_clock:
  "fixed (millis (timer_handler t)) (millis_fractions (timer_handler t))
    = (fixed (millis t) (millis_fractions t) + fixed (interrupt_millis t) (interrupt_millis_fractions t)) mod 2 ^ 64"
  "interrupt_millis (timer_handler t) = interrupt_millis t" "interrupt_millis_fractions (timer_handler t) = interrupt_millis_fractions t"
  by (simp_all add: timer_handler_def add_32fp32_fixed split: prod.split)

lemma ticks:
  "fixed (millis ((timer_handler ^^ n) t)) (millis_fractions ((timer_handler ^^ n) t))
    = (fixed (millis t) (millis_fractions t) + n * fixed (interrupt_millis t) (interrupt_millis_fractions t)) mod 2 ^ 64
   \<and> interrupt_millis ((timer_handler ^^ n) t) = interrupt_millis t
   \<and> interrupt_millis_fractions ((timer_handler ^^ n) t) = interrupt_millis_fractions t"
proof (induction n)
  case 0
  show ?case using fixed_bound [of "millis t" "millis_fractions t"] by simp
next
  case (Suc n)
  then show ?case by (simp only: funpow.simps comp_apply timer_handler_clock) (simp add: mod_simps algebra_simps)
qed

text \<open>The length of a tick, as the 64-bit arithmetic computes it for a normalised reload value.\<close>

definition normal_reload :: "u32 \<Rightarrow> u32" where
  "normal_reload r = (if r = 1 then 2 else if r = 0 then 0x10000 else r)"

lemma init_timer_fields:
  assumes "init_timer_with_reload_value B h r (d, st, t) = (d', st', t')" "unat r \<le> 0x10000"
  shows "PIT_reload_value_channel0 t' = normal_reload r" "2 \<le> unat (normal_reload r)" "unat (normal_reload r) \<le> 0x10000"
    "fixed (interrupt_millis t') (interrupt_millis_fractions t') = 3685982306 * unat (normal_reload r) div 1024"
    "millis t' = millis t" "millis_fractions t' = millis_fractions t"
proof -
  have R: "(if r = 1 then r + 1 else if r = 0 then r OR 0x10000 else r) = normal_reload r" by (simp add: normal_reload_def)
  show b: "2 \<le> unat (normal_reload r)" "unat (normal_reload r) \<le> 0x10000"
  proof -
    have "2 \<le> unat r" if "r \<noteq> 0" "r \<noteq> 1" using that by unat_arith
    then show "2 \<le> unat (normal_reload r)" by (auto simp: normal_reload_def)
    show "unat (normal_reload r) \<le> 0x10000" using assms(2) by (simp add: normal_reload_def)
  qed
  define mils where "mils = (drop_bit 10 ((ucast PIT_INTERNAL_DIVIDER * 1000 * push_bit 42 1 div ucast PIT_ACTUAL_FREQUENCY + 1) * ucast (normal_reload r)) :: u64)"
  have f: "PIT_reload_value_channel0 t' = normal_reload r" "interrupt_millis t' = ucast (drop_bit 32 mils)"
    "interrupt_millis_fractions t' = ucast mils" "millis t' = millis t" "millis_fractions t' = millis_fractions t"
    using assms(1) unfolding init_timer_with_reload_value_def Let_def prod.case R mils_def by auto
  then show "PIT_reload_value_channel0 t' = normal_reload r" "millis t' = millis t" "millis_fractions t' = millis_fractions t" by simp_all
  have k: "ucast PIT_INTERNAL_DIVIDER * 1000 * push_bit 42 1 div ucast PIT_ACTUAL_FREQUENCY + 1 = (3685982306 :: u64)"
    by (simp add: PIT_INTERNAL_DIVIDER_def PIT_ACTUAL_FREQUENCY_def)
  have "unat ((3685982306 :: u64) * ucast (normal_reload r)) = 3685982306 * unat (normal_reload r)"
    using b(2) by (simp add: unat_word_ariths unsigned_ucast_eq take_bit_nat_eq_self)
  then have m: "unat mils = 3685982306 * unat (normal_reload r) div 1024"
    unfolding mils_def k by (subst unat_drop_bit_eq) (simp only: drop_bit_eq_div, simp)
  have "fixed (ucast (drop_bit 32 mils)) (ucast mils) = unat mils" by (rule fixed_halves)
  then show "fixed (interrupt_millis t') (interrupt_millis_fractions t') = 3685982306 * unat (normal_reload r) div 1024"
    unfolding f m .
qed


section \<open>Lemmas: the reload value for a frequency\<close>

text \<open>Division rounded to the nearest, ties down, as the code spells it.\<close>

lemma rounded_div:
  fixes a f :: nat
  assumes "0 < f"
  defines "q \<equiv> a div f + (if f div 2 < a mod f then 1 else 0)"
  shows "2 * a \<le> 2 * (q * f) + f" "2 * (q * f) \<le> 2 * a + f"
proof -
  define p k where "p = a div f * f" and "k = a mod f"
  have "a = p + k" "k < f" using assms(1) by (simp_all add: p_def k_def)
  moreover have "f div 2 < k \<Longrightarrow> f \<le> 2 * k" "\<not> f div 2 < k \<Longrightarrow> 2 * k \<le> f" by linarith+
  moreover have "q * f = p + (if f div 2 < k then f else 0)" unfolding q_def p_def k_def by (simp add: algebra_simps)
  ultimately show "2 * a \<le> 2 * (q * f) + f" "2 * (q * f) \<le> 2 * a + f" by (auto split: if_splits)
qed

lemma reload_value_for_unat:
  assumes "55 \<le> unat f" "unat f < 2 ^ 16"
  defines "q \<equiv> 3579545 div unat f + (if unat f div 2 < 3579545 mod unat f then 1 else 0)"
  shows "unat (reload_value_for f) = q div 3 + (if 1 < q mod 3 then 1 else 0)"
proof -
  have range: "\<not> push_bit 16 1 \<le> f" "\<not> f < PIT_ACTUAL_FREQUENCY div push_bit 16 1 div PIT_INTERNAL_DIVIDER"
    using assms(1,2) by (simp_all add: word_le_nat_alt word_less_nat_alt PIT_ACTUAL_FREQUENCY_def PIT_INTERNAL_DIVIDER_def)
  define r where "r = PIT_ACTUAL_FREQUENCY div f + (if drop_bit 1 f < PIT_ACTUAL_FREQUENCY mod f then 1 else 0)"
  have half: "drop_bit 1 f < PIT_ACTUAL_FREQUENCY mod f \<longleftrightarrow> unat f div 2 < 3579545 mod unat f"
  proof -
    have "unat (drop_bit 1 f) = unat f div 2" by (subst unat_drop_bit_eq) (simp add: drop_bit_Suc)
    then show ?thesis by (simp add: word_less_nat_alt unat_mod PIT_ACTUAL_FREQUENCY_def)
  qed
  have d: "3579545 div unat f \<le> 65082"
    using div_le_mono2 [of 55 "unat f" 3579545] assms(1) by simp
  have r: "unat r = q"
    unfolding r_def q_def half using d by (simp add: unat_word_ariths unat_div PIT_ACTUAL_FREQUENCY_def)
  have q: "q \<le> 65083" using d by (simp add: q_def)
  then have u: "unat (ucast (ucast r :: u16) :: u32) = q"
    using r by (simp add: unsigned_ucast_eq unsigned_take_bit_eq take_bit_nat_eq_self)
  have "reload_value_for f = ucast ((ucast (ucast r :: u16) :: u32) div 3 + (if 1 < (ucast (ucast r :: u16) :: u32) mod 3 then 1 else 0))"
    using range by (simp add: reload_value_for_def r_def PIT_INTERNAL_DIVIDER_def Let_def drop_bit_Suc)
  moreover have "1 < (ucast (ucast r :: u16) :: u32) mod 3 \<longleftrightarrow> 1 < q mod 3"
    using u by (simp add: word_less_nat_alt unat_mod)
  moreover have "unat ((ucast (ucast r :: u16) :: u32) div 3 + (if 1 < q mod 3 then 1 else 0)) = q div 3 + (if 1 < q mod 3 then 1 else 0)"
    using q u by (simp add: unat_word_ariths unat_div)
  ultimately show ?thesis using q by (simp add: unsigned_ucast_eq take_bit_nat_eq_self)
qed

section \<open>Properties\<close>

text \<open>C32: after \<open>n\<close> timer interrupts the clock has advanced by exactly \<open>n\<close> ticks (modulo its 64
  bits), and a tick is never short of the time that passes between two interrupts,
  \<open>3 * reload / 3579545\<close> seconds, by a unit of \<open>2\<^sup>-\<^sup>3\<^sup>2\<close> ms or more, nor long by more than 64.\<close>

theorem clock_accuracy:
  assumes "init_timer_with_reload_value B h r (d, st, t) = (d', st', t')" "unat r \<le> 0x10000"
  defines "R \<equiv> unat (PIT_reload_value_channel0 t')" and "M \<equiv> fixed (interrupt_millis t') (interrupt_millis_fractions t')"
  shows "fixed (millis ((timer_handler ^^ n) t')) (millis_fractions ((timer_handler ^^ n) t'))
      = (fixed (millis t) (millis_fractions t) + n * M) mod 2 ^ 64
    \<and> 2 \<le> R \<and> R \<le> 0x10000
    \<and> 3 * R * 1000 * 2 ^ 32 < (M + 1) * 3579545 \<and> M * 3579545 \<le> 3 * R * 1000 * 2 ^ 32 + 64 * 3579545"
proof -
  note I = init_timer_fields [OF assms(1,2)]
  have R: "R = unat (normal_reload r)" "2 \<le> R" "R \<le> 0x10000" using I(1-3) by (simp_all add: R_def)
  have M: "M = 3685982306 * R div 1024" using I(4) by (simp add: M_def R)
  have "1024 * M \<le> 3685982306 * R" "3685982306 * R < 1024 * M + 1024" unfolding M by simp_all
  then have "3 * R * 1000 * 2 ^ 32 < (M + 1) * 3579545" "M * 3579545 \<le> 3 * R * 1000 * 2 ^ 32 + 64 * 3579545"
    using R(2,3) by simp_all
  with ticks [of n t'] I(5,6) R(2,3) show ?thesis by (simp add: M_def)
qed

lemma clock_accuracy_witness:
  "\<exists>t'. unat (PIT_reload_value_channel0 t') = 6629 \<and> fixed (millis ((timer_handler ^^ 180) t')) (millis_fractions ((timer_handler ^^ 180) t'))
    = 180 * (3685982306 * 6629 div 1024)"
proof -
  obtain d st t' where i: "init_timer_with_reload_value log_bus 0 6629 (([], []), undefined, timer_initial) = (d, st, t')"
    by (metis surj_pair)
  note I = init_timer_fields [OF i]
  from clock_accuracy [OF i, of 180] I show ?thesis
    by (intro exI [of _ t']) (simp add: normal_reload_def fixed_def timer_initial_def)
qed

text \<open>For a frequency from 55 Hz to 65535 Hz the reload value is within half a unit of the one
  that would give it exactly: the rate is the nearest the device can do.\<close>

theorem reload_value_nearest:
  assumes "55 \<le> unat f" "unat f < 2 ^ 16"
  shows "2 * 3579545 \<le> 6 * unat (reload_value_for f) * unat f + 3 * unat f
    \<and> 6 * unat (reload_value_for f) * unat f \<le> 2 * 3579545 + 3 * unat f"
proof -
  define q where "q = 3579545 div unat f + (if unat f div 2 < 3579545 mod unat f then 1 else 0)"
  have q: "2 * 3579545 \<le> 2 * (q * unat f) + unat f" "2 * (q * unat f) \<le> 2 * 3579545 + unat f"
    unfolding q_def by (rule rounded_div; use assms(1) in simp)+
  define R where "R = unat (reload_value_for f)"
  have R: "R = q div 3 + (if 1 < q mod 3 then 1 else 0)"
    using reload_value_for_unat [OF assms] by (simp add: R_def q_def)
  have "q \<le> 3 * R + 1" "3 * R \<le> q + 1" unfolding R by presburger+
  then have "q * unat f \<le> (3 * R + 1) * unat f" "3 * R * unat f \<le> (q + 1) * unat f" by (simp_all only: mult_le_mono1)
  with q show ?thesis unfolding R_def [symmetric] by (simp add: algebra_simps)
qed

lemma reload_value_nearest_witness: "unat (reload_value_for 180) = 6629 \<and> 2 * 3579545 \<le> 6 * unat (reload_value_for 180) * 180 + 3 * 180"
  using reload_value_nearest [of 180] by (simp add: reload_value_for_def PIT_ACTUAL_FREQUENCY_def PIT_INTERNAL_DIVIDER_def Let_def drop_bit_Suc)

text \<open>
  Out of that range: below 55 Hz the quotient does not fit the 16 bits it is cut to (50 Hz
  gives the reload value 2018, about 591 Hz), and from 65536 Hz on the value 0 asks for the
  slowest rate, a reload of 65536.
\<close>

lemma reload_value_truncated: "reload_value_for 50 = 2018"
  by (simp add: reload_value_for_def PIT_ACTUAL_FREQUENCY_def PIT_INTERNAL_DIVIDER_def Let_def drop_bit_Suc)

lemma reload_value_fast: "2 ^ 16 \<le> unat f \<Longrightarrow> normal_reload (ucast (reload_value_for f)) = 0x10000"
  by (simp add: reload_value_for_def normal_reload_def word_le_nat_alt)

end
