(* ===== verification/Acpi.thy ===== *)
theory Acpi
  imports Memmgnt
begin

text \<open>
  \<^verbatim>\<open>src/acpi.c\<close> and \<^verbatim>\<open>acpi.h\<close>: finding the ACPI tables in physical memory. The tables are what the
  firmware left in the flat memory; a pointer to a structure is its address and a field is
  read at its (packed) offset. The two string literals the code compares with live in the
  kernel image: their addresses \<open>rsd_ptr\<close> and \<open>facp\<close> are parameters. \<open>NULL\<close> is 0.
\<close>

section \<open>The structures\<close>

record DescriptionTableHeader =
  th_signature :: "u8 list"
  th_length :: u32
  th_revision :: u8
  th_checksum :: u8
  th_oemid :: "u8 list"
  th_oem_table_id :: "u8 list"
  th_oem_revision :: u32
  th_creator_id :: u32
  th_creator_revision :: u32

record RSDP_t =
  rsdp_signature :: "u8 list"
  rsdp_checksum :: u8
  rsdp_oemid :: "u8 list"
  rsdp_revision :: u8
  rsdp_RSDT :: u32

definition bytes_at :: "memory \<Rightarrow> u32 \<Rightarrow> nat \<Rightarrow> u8 list" where
  "bytes_at m p n = map (\<lambda>i. m (p + of_nat i)) [0..<n]"

definition DescriptionTableHeader_at :: "memory \<Rightarrow> u32 \<Rightarrow> DescriptionTableHeader" where
  "DescriptionTableHeader_at m p = \<lparr>th_signature = bytes_at m p 4, th_length = load32 m (p + 4), th_revision = m (p + 8),
     th_checksum = m (p + 9), th_oemid = bytes_at m (p + 10) 6, th_oem_table_id = bytes_at m (p + 16) 8,
     th_oem_revision = load32 m (p + 24), th_creator_id = load32 m (p + 28), th_creator_revision = load32 m (p + 32)\<rparr>"

definition RSDP_at :: "memory \<Rightarrow> u32 \<Rightarrow> RSDP_t" where
  "RSDP_at m p = \<lparr>rsdp_signature = bytes_at m p 8, rsdp_checksum = m (p + 8), rsdp_oemid = bytes_at m (p + 9) 6,
     rsdp_revision = m (p + 15), rsdp_RSDT = load32 m (p + 16)\<rparr>"

definition sizeof_RSDP :: u32 where "sizeof_RSDP = 20"
definition sizeof_header :: u32 where "sizeof_header = 36"

text \<open>The entries follow the header of the RSDT.\<close>

definition RSDT_entry :: "memory \<Rightarrow> u32 \<Rightarrow> u32 \<Rightarrow> u32" where
  "RSDT_entry m p i = load32 m (p + sizeof_header + 4 * i)"

text \<open>The FADT, packed; of its fields the program reads \<open>iapc_boot_arch\<close>.\<close>

record FADT_t =
  fadt_header :: DescriptionTableHeader
  firmware_ctrl :: u32
  dsdt :: u32
  int_model :: u8
  preferred_pm_profile :: u8
  sci_int :: u16
  smi_cmd :: u32
  acpi_enable :: u8
  acpi_disable :: u8
  s4bios_req :: u8
  pstate_cnt :: u8
  pm1a_evt_blk :: u32
  pm1b_evt_blk :: u32
  pm1a_cnt_blk :: u32
  pm1b_cnt_blk :: u32
  pm2_cnt_blk :: u32
  pm_tmr_blk :: u32
  gpe0_blk :: u32
  gpe1_blk :: u32
  pm1_evt_len :: u8
  pm1_cnt_len :: u8
  pm2_cnt_len :: u8
  pm_tm_len :: u8
  gpe0_blk_len :: u8
  gpe1_blk_len :: u8
  gpe1_base :: u8
  cst_cnt :: u8
  p_lvl2_lat :: u16
  p_lvl3_lat :: u16
  flush_size :: u16
  flush_stride :: u16
  duty_offset :: u8
  duty_width :: u8
  day_alrm :: u8
  mon_alrm :: u8
  century :: u8
  iapc_boot_arch :: u16
  fadt_reserved :: u8
  fadt_flags :: u32

definition FADT_at :: "memory \<Rightarrow> u32 \<Rightarrow> FADT_t" where
  "FADT_at m p = \<lparr>
     fadt_header = DescriptionTableHeader_at m p, firmware_ctrl = load32 m (p + 36), dsdt = load32 m (p + 40),
     int_model = m (p + 44), preferred_pm_profile = m (p + 45), sci_int = load16 m (p + 46), smi_cmd = load32 m (p + 48),
     acpi_enable = m (p + 52), acpi_disable = m (p + 53), s4bios_req = m (p + 54), pstate_cnt = m (p + 55),
     pm1a_evt_blk = load32 m (p + 56), pm1b_evt_blk = load32 m (p + 60), pm1a_cnt_blk = load32 m (p + 64),
     pm1b_cnt_blk = load32 m (p + 68), pm2_cnt_blk = load32 m (p + 72), pm_tmr_blk = load32 m (p + 76),
     gpe0_blk = load32 m (p + 80), gpe1_blk = load32 m (p + 84), pm1_evt_len = m (p + 88), pm1_cnt_len = m (p + 89),
     pm2_cnt_len = m (p + 90), pm_tm_len = m (p + 91), gpe0_blk_len = m (p + 92), gpe1_blk_len = m (p + 93),
     gpe1_base = m (p + 94), cst_cnt = m (p + 95), p_lvl2_lat = load16 m (p + 96), p_lvl3_lat = load16 m (p + 98),
     flush_size = load16 m (p + 100), flush_stride = load16 m (p + 102), duty_offset = m (p + 104),
     duty_width = m (p + 105), day_alrm = m (p + 106), mon_alrm = m (p + 107), century = m (p + 108),
     iapc_boot_arch = load16 m (p + 109), fadt_reserved = m (p + 111), fadt_flags = load32 m (p + 112)\<rparr>"

record acpi =
  RSDP :: u32
  RSDT :: u32
  FADT :: u32

definition acpi_initial :: acpi where
  "acpi_initial = \<lparr>RSDP = 0, RSDT = 0, FADT = 0\<rparr>"

section \<open>The search\<close>

definition byte_sum :: "memory \<Rightarrow> u32 \<Rightarrow> u32 \<Rightarrow> u8" where
  "byte_sum m p n = for_loop n (\<lambda>i checksum. checksum + m (p + i)) 0"

definition validate_RSDP :: "memory \<Rightarrow> u32 \<Rightarrow> u32 \<Rightarrow> bool" where
  "validate_RSDP m rsd_ptr ptr =
     (if memcmp m ptr rsd_ptr 8 \<noteq> 0 then False else byte_sum m ptr sizeof_RSDP = 0)"

text \<open>A \<open>while\<close> loop of \<open>find_RSDP\<close>: \<open>Some p\<close> returns from the function, \<open>None\<close> leaves the loop.\<close>

partial_function (option) find_RSDP_loop :: "memory \<Rightarrow> u32 \<Rightarrow> u32 \<Rightarrow> u32 \<Rightarrow> u32 option option" where
  "find_RSDP_loop m rsd_ptr stop ebda_p =
     (if ebda_p < stop
      then if validate_RSDP m rsd_ptr ebda_p then Some (Some ebda_p)
           else find_RSDP_loop m rsd_ptr stop (ebda_p + 0x10)
      else Some None)"

definition BIOS_ROM_START :: u32 where "BIOS_ROM_START = 0x0E0000"
definition BIOS_ROM_END :: u32 where "BIOS_ROM_END = 0x0FFFFF"

definition find_RSDP :: "memory \<Rightarrow> u32 \<Rightarrow> u32 \<Rightarrow> u32 option" where
  "find_RSDP m rsd_ptr EBDA_start =
     (case find_RSDP_loop m rsd_ptr 0xA0000 ((EBDA_start + 15) AND NOT 0xf) of
        None \<Rightarrow> None
      | Some (Some p) \<Rightarrow> Some p
      | Some None \<Rightarrow>
          (case find_RSDP_loop m rsd_ptr BIOS_ROM_END ((BIOS_ROM_START + 15) AND NOT 0xf) of
             None \<Rightarrow> None
           | Some (Some p) \<Rightarrow> Some p
           | Some None \<Rightarrow> Some 0))"

definition validate_checksum :: "memory \<Rightarrow> u32 \<Rightarrow> bool" where
  "validate_checksum m table = (byte_sum m table (th_length (DescriptionTableHeader_at m table)) = 0)"

definition init_acpi :: "memory \<Rightarrow> u32 \<Rightarrow> u32 \<Rightarrow> u32 \<Rightarrow> acpi \<Rightarrow> acpi option" where
  "init_acpi m rsd_ptr facp EBDA_start st =
     (case find_RSDP m rsd_ptr EBDA_start of
        None \<Rightarrow> None
      | Some p \<Rightarrow>
          (let st = st\<lparr>RSDP := p\<rparr>;
               st = (if validate_checksum m (rsdp_RSDT (RSDP_at m (RSDP st))) then st\<lparr>RSDT := rsdp_RSDT (RSDP_at m (RSDP st))\<rparr> else st)
           in if RSDT st = 0 then Some st
              else Some (for_loop ((th_length (DescriptionTableHeader_at m (RSDT st)) - sizeof_header) div 4)
                (\<lambda>i st. if FADT st = 0 \<and> memcmp m (RSDT_entry m (RSDT st) i) facp 4 = 0
                        then if validate_checksum m (RSDT_entry m (RSDT st) i) then st\<lparr>FADT := RSDT_entry m (RSDT st) i\<rparr> else st
                        else st) st)))"

section \<open>Lemmas\<close>

definition candidates :: "u32 \<Rightarrow> nat \<Rightarrow> u32 list" where
  "candidates base n = map (\<lambda>i. base + of_nat (16 * i)) [0..<n]"

lemma candidates_Suc: "candidates p (Suc n) = p # candidates (p + 0x10) n"
  by (simp add: candidates_def upt_conv_Cons map_Suc_upt [symmetric] algebra_simps comp_def del: upt_Suc)

lemma find_RSDP_loop_find:
  assumes "unat stop \<le> unat p + 16 * n" "unat p + 16 * n < unat stop + 16" "unat stop < 2 ^ 32 - 16"
  shows "find_RSDP_loop m sig stop p = Some (find (validate_RSDP m sig) (candidates p n))"
  using assms
proof (induction n arbitrary: p)
  case 0
  then have "\<not> p < stop" by (simp add: word_less_nat_alt)
  then show ?case by (simp add: find_RSDP_loop.simps candidates_def)
next
  case (Suc n)
  have lt: "p < stop" using Suc.prems by (simp add: word_less_nat_alt)
  have "unat (p + 0x10) = unat p + 16" using Suc.prems lt by (simp add: unat_word_ariths word_less_nat_alt)
  then have "find_RSDP_loop m sig stop (p + 0x10) = Some (find (validate_RSDP m sig) (candidates (p + 0x10) n))"
    using Suc.prems by (intro Suc.IH) auto
  then show ?case using lt unfolding candidates_Suc by (simp add: find_RSDP_loop.simps [of m sig stop p])
qed

lemma align_16:
  fixes e :: u32
  assumes "unat e \<le> 0xA0000"
  shows "unat ((e + 15) AND NOT 0xf) = (unat e + 15) div 16 * 16"
proof -
  let ?x = "e + 15"
  have m: "(0xf :: u32) = mask 4" by (simp add: mask_eq_exp_minus_1)
  have "?x AND NOT 0xf = push_bit 4 (drop_bit 4 ?x)"
    unfolding m by (rule bit_word_eqI) (auto simp: bit_simps not_less)
  moreover have "unat ?x = unat e + 15" using assms by (simp add: unat_word_ariths)
  moreover have "unat (drop_bit 4 ?x) = unat ?x div 16" by (subst unat_drop_bit_eq) (simp add: drop_bit_eq_div)
  moreover have "(unat e + 15) div 16 * 16 \<le> unat e + 15" by simp
  ultimately show ?thesis using assms
    by (simp add: push_bit_eq_mult unat_word_ariths)
qed

text \<open>
  The two ranges the code searches, in 16-byte steps: from the start of the EBDA, rounded up,
  to \<open>0xA0000\<close>, and the BIOS area from \<open>0xE0000\<close>.
\<close>

definition RSDP_candidates :: "u32 \<Rightarrow> u32 list" where
  "RSDP_candidates EBDA_start = candidates ((EBDA_start + 15) AND NOT 0xf) ((0xA0000 - (unat EBDA_start + 15) div 16 * 16) div 16)
     @ candidates 0xE0000 0x2000"

lemma find_append: "find P (xs @ ys) = (case find P xs of None \<Rightarrow> find P ys | Some x \<Rightarrow> Some x)"
  by (induction xs) auto

lemma find_RSDP_find:
  assumes "unat EBDA_start \<le> 0xA0000"
  shows "find_RSDP m sig EBDA_start
    = Some (case find (validate_RSDP m sig) (RSDP_candidates EBDA_start) of None \<Rightarrow> 0 | Some p \<Rightarrow> p)"
proof -
  let ?p = "(EBDA_start + 15) AND NOT 0xf" and ?q = "(unat EBDA_start + 15) div 16"
  have p: "unat ?p = ?q * 16" using assms by (rule align_16)
  have q: "?q \<le> 0xA000" using div_le_mono [of "unat EBDA_start + 15" "0xA0000 + 15" 16] assms by simp
  define n where "n = (0xA0000 - ?q * 16) div 16"
  have n: "?q * 16 + 16 * n = 0xA0000" using q unfolding n_def by (simp add: diff_mult_distrib [symmetric])
  have 1: "find_RSDP_loop m sig 0xA0000 ?p = Some (find (validate_RSDP m sig) (candidates ?p n))"
    using p n by (intro find_RSDP_loop_find) simp_all
  have b: "(BIOS_ROM_START + 15) AND NOT 0xf = 0xE0000" by (simp add: BIOS_ROM_START_def)
  have 2: "find_RSDP_loop m sig BIOS_ROM_END 0xE0000 = Some (find (validate_RSDP m sig) (candidates 0xE0000 0x2000))"
    by (rule find_RSDP_loop_find) (simp_all add: BIOS_ROM_END_def)
  show ?thesis
    unfolding find_RSDP_def 1 b 2 RSDP_candidates_def find_append n_def [symmetric]
    by (simp split: option.split)
qed


section \<open>Lemmas: the FADT\<close>

text \<open>The entries of the RSDT that are a FADT with a valid checksum.\<close>

definition is_FADT :: "memory \<Rightarrow> u32 \<Rightarrow> u32 \<Rightarrow> bool" where
  "is_FADT m facp p \<longleftrightarrow> memcmp m p facp 4 = 0 \<and> validate_checksum m p"

definition RSDT_entries :: "memory \<Rightarrow> u32 \<Rightarrow> u32 list" where
  "RSDT_entries m p = map (\<lambda>i. RSDT_entry m p (of_nat i)) [0..<unat ((th_length (DescriptionTableHeader_at m p) - sizeof_header) div 4)]"

lemma fadt_loop:
  fixes st :: acpi
  assumes "FADT st = 0"
  shows "fold (\<lambda>i st. if FADT st = 0 \<and> memcmp m (RSDT_entry m (RSDT st) (of_nat i)) facp 4 = 0
      then if validate_checksum m (RSDT_entry m (RSDT st) (of_nat i)) then st\<lparr>FADT := RSDT_entry m (RSDT st) (of_nat i)\<rparr> else st
      else st) is st
    = st\<lparr>FADT := case find (\<lambda>p. is_FADT m facp p \<and> p \<noteq> 0) (map (\<lambda>i. RSDT_entry m (RSDT st) (of_nat i)) is) of None \<Rightarrow> 0 | Some p \<Rightarrow> p\<rparr>"
  using assms
proof (induction "is" arbitrary: st)
  case (Cons i "is")
  let ?p = "RSDT_entry m (RSDT st) (of_nat i)"
  let ?step = "\<lambda>i st. if FADT st = 0 \<and> memcmp m (RSDT_entry m (RSDT st) (of_nat i)) facp 4 = 0
      then if validate_checksum m (RSDT_entry m (RSDT st) (of_nat i)) then st\<lparr>FADT := RSDT_entry m (RSDT st) (of_nat i)\<rparr> else st
      else st"
  have rest: "fold ?step js st = st" if "FADT st \<noteq> 0" for js and st :: acpi
    using that by (induction js) auto
  show ?case
  proof (cases "is_FADT m facp ?p \<and> ?p \<noteq> 0")
    case True
    then show ?thesis using Cons.prems rest [of "st\<lparr>FADT := ?p\<rparr>" "is"] by (simp add: is_FADT_def)
  next
    case False
    then have "?step i st = st" using Cons.prems by (auto simp: is_FADT_def)
    then show ?thesis using Cons.IH [OF Cons.prems] False by auto
  qed
qed simp

section \<open>Properties\<close>

text \<open>C33: on an EBDA below \<open>0xA0000\<close> the search for the tables ends; it settles on the first valid
  RSDP of the two ranges in their order, or on \<open>NULL\<close> if there is none; the RSDT is the one it
  names, if its checksum is right, and the FADT the first entry of the RSDT with the signature
  and a right checksum. The tables found by an earlier call are not forgotten, so this is the
  first call.\<close>

theorem init_acpi_finds:
  assumes "unat EBDA_start \<le> 0xA0000"
  shows "let p = (case find (validate_RSDP m rsd_ptr) (RSDP_candidates EBDA_start) of None \<Rightarrow> 0 | Some p \<Rightarrow> p);
             r = (if validate_checksum m (rsdp_RSDT (RSDP_at m p)) then rsdp_RSDT (RSDP_at m p) else 0)
         in init_acpi m rsd_ptr facp EBDA_start acpi_initial = Some \<lparr>RSDP = p, RSDT = r,
           FADT = if r = 0 then 0 else case find (\<lambda>t. is_FADT m facp t \<and> t \<noteq> 0) (RSDT_entries m r) of None \<Rightarrow> 0 | Some t \<Rightarrow> t\<rparr>"
proof -
  define p where "p = (case find (validate_RSDP m rsd_ptr) (RSDP_candidates EBDA_start) of None \<Rightarrow> 0 | Some p \<Rightarrow> p)"
  define r where "r = (if validate_checksum m (rsdp_RSDT (RSDP_at m p)) then rsdp_RSDT (RSDP_at m p) else 0)"
  have f: "find_RSDP m rsd_ptr EBDA_start = Some p" unfolding p_def using assms by (rule find_RSDP_find)
  let ?st = "\<lparr>RSDP = p, RSDT = r, FADT = 0\<rparr>"
  have "FADT ?st = 0" by simp
  from fadt_loop [OF this, of m facp] show ?thesis
    unfolding Let_def p_def [symmetric] r_def [symmetric]
    unfolding init_acpi_def f RSDT_entries_def for_loop_def
    by (auto simp: acpi_initial_def r_def Let_def)
qed

text \<open>A memory with an RSDP at the start of the EBDA, an RSDT of one entry and a FADT.\<close>

definition sample_tables :: memory where
  "sample_tables a =
     (if in_region a 0x9FC00 20 then (map of_char ''RSD PTR '' @ [220, 0, 0, 0, 0, 0, 0, 0, 0, 5, 0, 0]) ! unat (a - 0x9FC00)
      else if in_region a 0x500 40 then ([0, 0, 0, 0, 40, 0, 0, 0, 210] @ replicate 28 0 @ [6, 0, 0]) ! unat (a - 0x500)
      else if in_region a 0x600 9 then (map of_char ''FACP'' @ [9, 0, 0, 0, 221]) ! unat (a - 0x600)
      else if in_region a 0x700 8 then map of_char ''RSD PTR '' ! unat (a - 0x700)
      else if in_region a 0x710 4 then map of_char ''FACP'' ! unat (a - 0x710)
      else 0)"

lemma init_acpi_finds_witness:
  "init_acpi sample_tables 0x700 0x710 0x9FC00 acpi_initial = Some \<lparr>RSDP = 0x9FC00, RSDT = 0x500, FADT = 0x600\<rparr>"
proof -
  have m1: "memcmp sample_tables 0x9FC00 0x700 8 = 0" "memcmp sample_tables 0x600 0x710 4 = 0"
    by (simp_all add: memcmp_def memcmp_loop.simps sample_tables_def in_region_def)
  have c1: "byte_sum sample_tables 0x9FC00 20 = 0" "byte_sum sample_tables 0x500 40 = 0" "byte_sum sample_tables 0x600 9 = 0"
    by (simp_all add: byte_sum_def for_loop_def sample_tables_def in_region_def
      upt_rec [of 0 "numeral _"] upt_rec [of 1 "numeral _"] upt_rec [of "Suc 0" "numeral _"]
      numeral_2_eq_2 [symmetric] nth_append)
  have l: "load32 sample_tables 0x504 = 40" "load32 sample_tables 0x604 = 9" "load32 sample_tables 0x524 = 0x600"
    "load32 sample_tables 0x9FC10 = 0x500"
    by (simp_all add: load32_def sample_tables_def in_region_def nth_append)
  have "validate_RSDP sample_tables 0x700 0x9FC00" using m1(1) c1(1) by (simp add: validate_RSDP_def sizeof_RSDP_def)
  moreover have "RSDP_candidates 0x9FC00 = 0x9FC00 # tl (RSDP_candidates 0x9FC00)"
    using candidates_Suc [of "0x9FC00" 63] by (simp add: RSDP_candidates_def)
  ultimately have "find (validate_RSDP sample_tables 0x700) (RSDP_candidates 0x9FC00) = Some 0x9FC00"
    by (metis find.simps(2))
  moreover have "validate_checksum sample_tables 0x500" "validate_checksum sample_tables 0x600"
    using c1(2,3) l by (simp_all add: validate_checksum_def DescriptionTableHeader_at_def)
  moreover have "RSDT_entries sample_tables 0x500 = [0x600]"
    using l by (simp add: RSDT_entries_def RSDT_entry_def DescriptionTableHeader_at_def sizeof_header_def)
  ultimately show ?thesis
    using init_acpi_finds [of "0x9FC00" sample_tables "0x700" "0x710"] m1(2) l
    by (simp add: is_FADT_def RSDP_at_def Let_def)
qed

end
