(* ===== verification/Ps2Controller.thy ===== *)
theory Ps2Controller
  imports Acpi Interrupts "HOL-Library.Monad_Syntax"
begin

text \<open>
  \<^verbatim>\<open>src/drivers/ps2/ps2_controller.c\<close> and \<^verbatim>\<open>ps2_controller.h\<close>: the 8042 keyboard controller, two
  status and data ports polled by the processor. The controller itself is hardware, the state
  \<open>'d\<close> behind the \<open>bus\<close>; a polling loop ends only if the hardware lets it, so every function
  that polls returns an option and \<open>None\<close> is a loop that never ends. A channel status is a
  four-bit field of whatever the test answered, so it is a word with named values.
\<close>

section \<open>Registers and commands\<close>

definition PS2_DATA_PORT :: u16 where "PS2_DATA_PORT = 0x60"
definition PS2_STATUS_PORT :: u16 where "PS2_STATUS_PORT = 0x64"
definition PS2_COMMAND_PORT :: u16 where "PS2_COMMAND_PORT = 0x64"

record PS2Status =
  OUTPUT_BUFFER_FULL :: bool
  INPUT_BUFFER_FULL :: bool
  SYSTEM_FLAG :: bool
  COMMAND_DATA :: bool
  INHIBIT_SWITCH :: bool
  TRANSMIT_TIMEOUT :: bool
  RECIEVE_TIMEOUT :: bool
  PARITY_ERROR :: bool

definition PS2Status_of :: "u8 \<Rightarrow> PS2Status" where
  "PS2Status_of b = \<lparr>OUTPUT_BUFFER_FULL = bit b 0, INPUT_BUFFER_FULL = bit b 1, SYSTEM_FLAG = bit b 2,
     COMMAND_DATA = bit b 3, INHIBIT_SWITCH = bit b 4, TRANSMIT_TIMEOUT = bit b 5, RECIEVE_TIMEOUT = bit b 6,
     PARITY_ERROR = bit b 7\<rparr>"

type_synonym PS2ChannelStatus = "4 word"

definition CHANNEL_OK :: PS2ChannelStatus where "CHANNEL_OK = 0x0"
definition TEST_FAILED_CLOCK_LOW :: PS2ChannelStatus where "TEST_FAILED_CLOCK_LOW = 0x1"
definition TEST_FAILED_CLOCK_HIGH :: PS2ChannelStatus where "TEST_FAILED_CLOCK_HIGH = 0x2"
definition TEST_FAILED_DATA_LOW :: PS2ChannelStatus where "TEST_FAILED_DATA_LOW = 0x3"
definition TEST_FAILED_DATA_HIGH :: PS2ChannelStatus where "TEST_FAILED_DATA_HIGH = 0x4"
definition ABSENT :: PS2ChannelStatus where "ABSENT = 0x8"
definition UNINITIALIZED :: PS2ChannelStatus where "UNINITIALIZED = 0xf"

datatype PS2Command =
    READ_COMMAND_BYTE | WRITE_COMMAND_BYTE | WRITE_TO_OUTPUT_PORT | GET_VERSION_NUMBER | GET_PASSWORD
  | SET_PASSWORD | CHECK_PASSWORD | DISABLE_CHANNEL1 | ENABLE_CHANNEL1 | CHANNEL1_TEST | SELF_TEST
  | CHANNEL0_TEST | DISABLE_CHANNEL0 | ENABLE_CHANNEL0 | GET_VERSION | READ_INPUT_PORT | COPY_INPUT_PORT_LSN
  | COPY_INPUT_PORT_MSN | READ_OUTPUT_PORT | WRITE_OUTPUT_PORT | WRITE_CHANNEL0_BUFFER | WRITE_CHANNEL1_BUFFER
  | WRITE_CHANNEL1_DEVICE | READ_TEST_INPUTS | PULSE_OUTPUT_PORT

fun PS2Command_code :: "PS2Command \<Rightarrow> u8" where
  "PS2Command_code READ_COMMAND_BYTE = 0x20"
| "PS2Command_code WRITE_COMMAND_BYTE = 0x60"
| "PS2Command_code WRITE_TO_OUTPUT_PORT = 0x90"
| "PS2Command_code GET_VERSION_NUMBER = 0xA1"
| "PS2Command_code GET_PASSWORD = 0xA4"
| "PS2Command_code SET_PASSWORD = 0xA5"
| "PS2Command_code CHECK_PASSWORD = 0xA6"
| "PS2Command_code DISABLE_CHANNEL1 = 0xA7"
| "PS2Command_code ENABLE_CHANNEL1 = 0xA8"
| "PS2Command_code CHANNEL1_TEST = 0xA9"
| "PS2Command_code SELF_TEST = 0xAA"
| "PS2Command_code CHANNEL0_TEST = 0xAB"
| "PS2Command_code DISABLE_CHANNEL0 = 0xAD"
| "PS2Command_code ENABLE_CHANNEL0 = 0xAE"
| "PS2Command_code GET_VERSION = 0xAF"
| "PS2Command_code READ_INPUT_PORT = 0xC0"
| "PS2Command_code COPY_INPUT_PORT_LSN = 0xC1"
| "PS2Command_code COPY_INPUT_PORT_MSN = 0xC2"
| "PS2Command_code READ_OUTPUT_PORT = 0xD0"
| "PS2Command_code WRITE_OUTPUT_PORT = 0xD1"
| "PS2Command_code WRITE_CHANNEL0_BUFFER = 0xD2"
| "PS2Command_code WRITE_CHANNEL1_BUFFER = 0xD3"
| "PS2Command_code WRITE_CHANNEL1_DEVICE = 0xD4"
| "PS2Command_code READ_TEST_INPUTS = 0xE0"
| "PS2Command_code PULSE_OUTPUT_PORT = 0xF0"

record PS2CommandByte =
  channel0_input_buffer_full_interrupt :: bool
  channel1_input_buffer_full_interrupt :: bool
  system_flag :: bool
  inhibit_overrisde :: bool
  disable_channel0_clock :: bool
  disable_channel1_clock :: bool
  enable_channel0_translation :: bool
  cb_reserved :: bool

text \<open>The two views of the union: the bits of a byte and the byte of the bits.\<close>

definition PS2CommandByte_repr :: "u8 \<Rightarrow> PS2CommandByte" where
  "PS2CommandByte_repr b = \<lparr>channel0_input_buffer_full_interrupt = bit b 0, channel1_input_buffer_full_interrupt = bit b 1,
     system_flag = bit b 2, inhibit_overrisde = bit b 3, disable_channel0_clock = bit b 4, disable_channel1_clock = bit b 5,
     enable_channel0_translation = bit b 6, cb_reserved = bit b 7\<rparr>"

definition PS2CommandByte_byte :: "PS2CommandByte \<Rightarrow> u8" where
  "PS2CommandByte_byte c =
     of_bool (channel0_input_buffer_full_interrupt c) OR push_bit 1 (of_bool (channel1_input_buffer_full_interrupt c))
     OR push_bit 2 (of_bool (system_flag c)) OR push_bit 3 (of_bool (inhibit_overrisde c))
     OR push_bit 4 (of_bool (disable_channel0_clock c)) OR push_bit 5 (of_bool (disable_channel1_clock c))
     OR push_bit 6 (of_bool (enable_channel0_translation c)) OR push_bit 7 (of_bool (cb_reserved c))"

record PS2ControllerChannelStatus =
  channel0 :: PS2ChannelStatus
  channel1 :: PS2ChannelStatus

definition ps2_status_initial :: PS2ControllerChannelStatus where
  "ps2_status_initial = \<lparr>channel0 = UNINITIALIZED, channel1 = UNINITIALIZED\<rparr>"

section \<open>Operations\<close>

definition MOTHERBOARD_8042_PRESENT_BOOT_FLAG :: u16 where "MOTHERBOARD_8042_PRESENT_BOOT_FLAG = push_bit 1 1"
definition PS2_SELF_TEST_SUCCESS :: u8 where "PS2_SELF_TEST_SUCCESS = 0x55"

definition ps2_controller_present :: "memory \<Rightarrow> acpi \<Rightarrow> bool" where
  "ps2_controller_present m A =
     (if rsdp_revision (RSDP_at m (RSDP A)) = 0 \<or> FADT A = 0 then True
      else iapc_boot_arch (FADT_at m (FADT A)) AND MOTHERBOARD_8042_PRESENT_BOOT_FLAG \<noteq> 0)"

text \<open>The loops \<open>do inb(PS2_STATUS_PORT, status); while (busy status);\<close>.\<close>

partial_function (option) ps2_poll :: "'d bus \<Rightarrow> (PS2Status \<Rightarrow> bool) \<Rightarrow> 'd \<Rightarrow> 'd option" where
  "ps2_poll B busy d =
     (let (status, d) = inb B PS2_STATUS_PORT d in if busy (PS2Status_of status) then ps2_poll B busy d else Some d)"

definition ps2_send_command :: "'d bus \<Rightarrow> PS2Command \<Rightarrow> 'd \<Rightarrow> 'd option" where
  "ps2_send_command B cmd d = do {
     d \<leftarrow> ps2_poll B INPUT_BUFFER_FULL d;
     Some (outb B PS2_COMMAND_PORT (PS2Command_code cmd) d)
   }"

definition ps2_send_data :: "'d bus \<Rightarrow> u8 \<Rightarrow> 'd \<Rightarrow> 'd option" where
  "ps2_send_data B data d = do {
     d \<leftarrow> ps2_poll B INPUT_BUFFER_FULL d;
     Some (outb B PS2_DATA_PORT data d)
   }"

definition ps2_read_data :: "'d bus \<Rightarrow> 'd \<Rightarrow> (u8 \<times> 'd) option" where
  "ps2_read_data B d = do {
     d \<leftarrow> ps2_poll B (\<lambda>status. \<not> OUTPUT_BUFFER_FULL status) d;
     Some (inb B PS2_DATA_PORT d)
   }"

definition init_ps2_controller ::
  "'d bus \<Rightarrow> memory \<Rightarrow> acpi \<Rightarrow> 'd \<times> PS2ControllerChannelStatus \<Rightarrow> ('d \<times> PS2ControllerChannelStatus) option" where
  "init_ps2_controller B m A s =
     (let (d, st) = s in
      if \<not> ps2_controller_present m A then Some (d, st\<lparr>channel0 := ABSENT, channel1 := ABSENT\<rparr>)
      else do {
        d \<leftarrow> ps2_send_command B DISABLE_CHANNEL0 d;
        d \<leftarrow> ps2_send_command B DISABLE_CHANNEL1 d;
        let (_, d) = inb B PS2_DATA_PORT d;
        d \<leftarrow> ps2_send_command B READ_COMMAND_BYTE d;
        (b, d) \<leftarrow> ps2_read_data B d;
        let cmd = (PS2CommandByte_repr b)\<lparr>channel0_input_buffer_full_interrupt := False,
              channel1_input_buffer_full_interrupt := False, disable_channel0_clock := False,
              enable_channel0_translation := False\<rparr>;
        d \<leftarrow> ps2_send_command B WRITE_COMMAND_BYTE d;
        d \<leftarrow> ps2_send_data B (PS2CommandByte_byte cmd) d;
        d \<leftarrow> ps2_send_command B SELF_TEST d;
        (b, d) \<leftarrow> ps2_read_data B d;
        if b \<noteq> PS2_SELF_TEST_SUCCESS then Some (d, st)
        else do {
          d \<leftarrow> ps2_send_command B ENABLE_CHANNEL1 d;
          d \<leftarrow> ps2_send_command B READ_COMMAND_BYTE d;
          (b, d) \<leftarrow> ps2_read_data B d;
          let second_channel_present = (\<not> disable_channel1_clock (PS2CommandByte_repr b));
          (d, st) \<leftarrow> (if second_channel_present
            then do {
              d \<leftarrow> ps2_send_command B DISABLE_CHANNEL1 d;
              d \<leftarrow> ps2_send_command B READ_COMMAND_BYTE d;
              (b, d) \<leftarrow> ps2_read_data B d;
              let cmd = (PS2CommandByte_repr b)\<lparr>channel1_input_buffer_full_interrupt := False, disable_channel1_clock := False\<rparr>;
              d \<leftarrow> ps2_send_command B WRITE_COMMAND_BYTE d;
              d \<leftarrow> ps2_send_data B (PS2CommandByte_byte cmd) d;
              Some (d, st)
            }
            else Some (d, st\<lparr>channel1 := ABSENT\<rparr>));
          d \<leftarrow> ps2_send_command B CHANNEL0_TEST d;
          (b, d) \<leftarrow> ps2_read_data B d;
          let st = st\<lparr>channel0 := ucast b\<rparr>;
          (d, st) \<leftarrow> (if second_channel_present
            then do {
              d \<leftarrow> ps2_send_command B CHANNEL1_TEST d;
              (b, d) \<leftarrow> ps2_read_data B d;
              Some (d, st\<lparr>channel1 := ucast b\<rparr>)
            }
            else Some (d, st));
          let d = disable_io_devices B KEYBOARD d;
          let d = disable_io_devices B MOUSE d;
          d \<leftarrow> ps2_send_command B READ_COMMAND_BYTE d;
          (b, d) \<leftarrow> ps2_read_data B d;
          let cmd = (PS2CommandByte_repr b)\<lparr>channel0_input_buffer_full_interrupt := True,
                channel1_input_buffer_full_interrupt := True\<rparr>;
          d \<leftarrow> ps2_send_command B WRITE_COMMAND_BYTE d;
          d \<leftarrow> ps2_send_data B (PS2CommandByte_byte cmd) d;
          Some (d, st)
        }
      })"


section \<open>Lemmas: polling\<close>

text \<open>The controller after \<open>n\<close> reads of the status port, and what the next read sees.\<close>

definition polled :: "'d bus \<Rightarrow> nat \<Rightarrow> 'd \<Rightarrow> 'd" where
  "polled B n d = ((\<lambda>d. snd (inb B PS2_STATUS_PORT d)) ^^ n) d"

definition status_seen :: "'d bus \<Rightarrow> nat \<Rightarrow> 'd \<Rightarrow> PS2Status" where
  "status_seen B n d = PS2Status_of (fst (inb B PS2_STATUS_PORT (polled B n d)))"

lemma polled_0 [simp]: "polled B 0 d = d"
  by (simp add: polled_def)

lemma polled_Suc: "polled B (Suc n) d = polled B n (snd (inb B PS2_STATUS_PORT d))"
  unfolding polled_def funpow_Suc_right by simp

lemma status_seen_Suc: "status_seen B (Suc n) d = status_seen B n (snd (inb B PS2_STATUS_PORT d))"
  by (simp add: status_seen_def polled_Suc)

lemma ps2_poll_step:
  "ps2_poll B busy d = (if busy (status_seen B 0 d) then ps2_poll B busy (snd (inb B PS2_STATUS_PORT d))
     else Some (snd (inb B PS2_STATUS_PORT d)))"
  by (simp add: ps2_poll.simps [of B busy d] status_seen_def split: prod.split)

lemma ps2_poll_ready:
  assumes "\<not> busy (status_seen B n d)" "\<And>k. k < n \<Longrightarrow> busy (status_seen B k d)"
  shows "ps2_poll B busy d = Some (polled B (Suc n) d)"
  using assms
proof (induction n arbitrary: d)
  case 0
  then show ?case by (simp add: ps2_poll_step [of B busy d] polled_Suc)
next
  case (Suc n)
  have "busy (status_seen B 0 d)" using Suc.prems(2) by simp
  moreover have "ps2_poll B busy (snd (inb B PS2_STATUS_PORT d)) = Some (polled B (Suc n) (snd (inb B PS2_STATUS_PORT d)))"
    using Suc.prems(1) Suc.prems(2) [of "Suc _"] by (intro Suc.IH) (simp_all add: status_seen_Suc)
  ultimately show ?case by (simp add: ps2_poll_step [of B busy d] polled_Suc [of B "Suc n"])
qed

lemma ps2_poll_result:
  assumes "ps2_poll B busy d = Some d'"
  shows "\<exists>n. \<not> busy (status_seen B n d) \<and> (\<forall>k<n. busy (status_seen B k d)) \<and> d' = polled B (Suc n) d"
proof -
  have "\<exists>n. \<not> busy (status_seen B n d)"
  proof (rule ps2_poll.raw_induct [where P = "\<lambda>B busy d _. \<exists>n. \<not> busy (status_seen B n d)", OF _ assms])
    fix poll and B :: "'a bus" and busy :: "PS2Status \<Rightarrow> bool" and d d'
    assume step: "\<And>B busy d d'. poll B busy d = Some d' \<Longrightarrow> \<exists>n. \<not> busy (status_seen B n d)"
      "(let (status, d) = inb B PS2_STATUS_PORT d in if busy (PS2Status_of status) then poll B busy d else Some d) = Some d'"
    show "\<exists>n. \<not> busy (status_seen B n d)"
    proof (cases "busy (status_seen B 0 d)")
      case True
      then have "poll B busy (snd (inb B PS2_STATUS_PORT d)) = Some d'" using step(2) by (simp add: status_seen_def split: prod.splits)
      from step(1) [OF this] obtain n where "\<not> busy (status_seen B (Suc n) d)" by (auto simp: status_seen_Suc)
      then show ?thesis by blast
    qed blast
  qed
  then obtain n where n: "\<not> busy (status_seen B n d)" "\<forall>k<n. busy (status_seen B k d)"
    using exists_least_iff [of "\<lambda>n. \<not> busy (status_seen B n d)"] by blast
  then show ?thesis using ps2_poll_ready [of busy B n d] assms by auto
qed

section \<open>Lemmas: a scripted controller\<close>

text \<open>
  What a well-behaved controller serves on the log bus: at each \<open>Sent\<close> any number of statuses
  with a full input buffer and one with an empty one, at each \<open>Received v\<close> any number of
  statuses with an empty output buffer, one with a full one and the byte \<open>v\<close>, at each \<open>Taken v\<close> the byte
  alone. The waits are arbitrary: \<open>w k\<close> holds the statuses of the \<open>k\<close>th poll, up to the polled bit.
\<close>

datatype expectation = Sent | Received u8 | Taken u8

fun script :: "(nat \<Rightarrow> u8 list \<times> u8) \<Rightarrow> expectation list \<Rightarrow> u8 list" where
  "script w [] = []"
| "script w (Sent # xs) = map (\<lambda>b. b OR 2) (fst (w 0)) @ (snd (w 0) AND NOT 2) # script (\<lambda>k. w (Suc k)) xs"
| "script w (Received v # xs) = map (\<lambda>b. b AND NOT 1) (fst (w 0)) @ (snd (w 0) OR 1) # v # script (\<lambda>k. w (Suc k)) xs"
| "script w (Taken v # xs) = v # script (\<lambda>k. w (Suc k)) xs"

declare script.simps [simp del]

lemma ps2_poll_log:
  assumes "\<forall>b \<in> set bs. busy (PS2Status_of b)" "\<not> busy (PS2Status_of b)"
  shows "ps2_poll log_bus busy (ws, bs @ b # rs) = Some (ws, rs)"
  using assms(1) by (induction bs) (simp_all add: ps2_poll.simps assms(2))

lemma send_command_script [simp]:
  "ps2_send_command log_bus c (ws, script w (Sent # xs)) = Some ((0x64, PS2Command_code c) # ws, script (\<lambda>k. w (Suc k)) xs)"
  unfolding ps2_send_command_def script.simps
  by (subst ps2_poll_log) (auto simp: PS2Status_of_def bit_simps PS2_COMMAND_PORT_def)

lemma send_data_script [simp]:
  "ps2_send_data log_bus v (ws, script w (Sent # xs)) = Some ((0x60, v) # ws, script (\<lambda>k. w (Suc k)) xs)"
  unfolding ps2_send_data_def script.simps
  by (subst ps2_poll_log) (auto simp: PS2Status_of_def bit_simps PS2_DATA_PORT_def)

lemma read_data_script [simp]:
  "ps2_read_data log_bus (ws, script w (Received v # xs)) = Some (v, ws, script (\<lambda>k. w (Suc k)) xs)"
  unfolding ps2_read_data_def script.simps
  by (subst ps2_poll_log) (auto simp: PS2Status_of_def bit_simps)

lemma inb_script [simp]: "inb log_bus p (ws, script w (Taken v # xs)) = (v, ws, script (\<lambda>k. w (Suc k)) xs)"
  by (simp add: script.simps)

lemma script_Nil [simp]: "script w [] = []"
  by (simp add: script.simps)

text \<open>The command bytes written, as masks.\<close>

lemma command_byte_roundtrip [simp]: "PS2CommandByte_byte (PS2CommandByte_repr b) = b" "PS2CommandByte_repr (PS2CommandByte_byte c) = c"
proof -
  show "PS2CommandByte_byte (PS2CommandByte_repr b) = b"
  proof (rule bit_word_eqI)
    fix n assume "n < LENGTH(8)"
    then have "n < 8" by simp
    then consider "n = 0" | "n = 1" | "n = 2" | "n = 3" | "n = 4" | "n = 5" | "n = 6" | "n = 7" by linarith
    then show "bit (PS2CommandByte_byte (PS2CommandByte_repr b)) n = bit b n"
      by cases (auto simp: PS2CommandByte_byte_def PS2CommandByte_repr_def bit_simps)
  qed
  show "PS2CommandByte_repr (PS2CommandByte_byte c) = c"
    by (cases c) (simp add: PS2CommandByte_byte_def PS2CommandByte_repr_def bit_simps)
qed

lemma command_byte_masks:
  "PS2CommandByte_byte ((PS2CommandByte_repr b)\<lparr>channel0_input_buffer_full_interrupt := False,
     channel1_input_buffer_full_interrupt := False, disable_channel0_clock := False, enable_channel0_translation := False\<rparr>) = b AND 0xAC"
  "PS2CommandByte_byte ((PS2CommandByte_repr b)\<lparr>channel1_input_buffer_full_interrupt := False, disable_channel1_clock := False\<rparr>) = b AND 0xDD"
  "PS2CommandByte_byte ((PS2CommandByte_repr b)\<lparr>channel0_input_buffer_full_interrupt := True, channel1_input_buffer_full_interrupt := True\<rparr>) = b OR 3"
proof -
  have bits: "of_bool (bit b 0) OR push_bit 1 (of_bool (bit b 1)) OR push_bit 2 (of_bool (bit b 2)) OR push_bit 3 (of_bool (bit b 3))
      OR push_bit 4 (of_bool (bit b 4)) OR push_bit 5 (of_bool (bit b 5)) OR push_bit 6 (of_bool (bit b 6)) OR push_bit 7 (of_bool (bit b 7)) = b"
    using command_byte_roundtrip(1) [of b] by (simp add: PS2CommandByte_byte_def PS2CommandByte_repr_def)
  show "PS2CommandByte_byte ((PS2CommandByte_repr b)\<lparr>channel0_input_buffer_full_interrupt := False,
     channel1_input_buffer_full_interrupt := False, disable_channel0_clock := False, enable_channel0_translation := False\<rparr>) = b AND 0xAC"
    by (rule arg_cong [of _ "PS2CommandByte_repr (b AND 0xAC)" PS2CommandByte_byte, simplified])
      (simp add: PS2CommandByte_repr_def bit_simps)
  show "PS2CommandByte_byte ((PS2CommandByte_repr b)\<lparr>channel1_input_buffer_full_interrupt := False, disable_channel1_clock := False\<rparr>) = b AND 0xDD"
    by (rule arg_cong [of _ "PS2CommandByte_repr (b AND 0xDD)" PS2CommandByte_byte, simplified])
      (simp add: PS2CommandByte_repr_def bit_simps)
  show "PS2CommandByte_byte ((PS2CommandByte_repr b)\<lparr>channel0_input_buffer_full_interrupt := True, channel1_input_buffer_full_interrupt := True\<rparr>) = b OR 3"
    by (rule arg_cong [of _ "PS2CommandByte_repr (b OR 3)" PS2CommandByte_byte, simplified])
      (simp add: PS2CommandByte_repr_def bit_simps)
qed

lemma mouse_line: "(0x110 :: u8) = 0x10"
  by simp

lemma disable_io_script [simp]:
  "disable_io_devices log_bus KEYBOARD (ws, script w (Taken v # xs)) = ((0x21, v OR 2) # ws, script (\<lambda>k. w (Suc k)) xs)"
  "disable_io_devices log_bus MOUSE (ws, script w (Taken v # xs)) = ((0xA1, v OR 0x10) # ws, script (\<lambda>k. w (Suc k)) xs)"
  by (simp_all add: disable_io_devices_def KEYBOARD_def MOUSE_def ALL_DEVICES_def PIC_MASTER_DATA_PORT_def PIC_SLAVE_DATA_PORT_def mouse_line)

section \<open>Properties\<close>

text \<open>Sending a command ends exactly if the controller empties its input buffer at some poll; the
  command is then written once, right after the first status that shows it empty, and never
  into a full buffer. Otherwise the loop does not end.\<close>

theorem send_command_when_ready:
  "ps2_send_command B cmd d =
     (if \<exists>n. \<not> INPUT_BUFFER_FULL (status_seen B n d)
      then Some (outb B PS2_COMMAND_PORT (PS2Command_code cmd)
        (polled B (Suc (LEAST n. \<not> INPUT_BUFFER_FULL (status_seen B n d))) d))
      else None)"
proof (cases "\<exists>n. \<not> INPUT_BUFFER_FULL (status_seen B n d)")
  case True
  define n where "n = (LEAST n. \<not> INPUT_BUFFER_FULL (status_seen B n d))"
  have "\<not> INPUT_BUFFER_FULL (status_seen B n d)" unfolding n_def using True by (rule LeastI_ex)
  moreover have "INPUT_BUFFER_FULL (status_seen B k d)" if "k < n" for k
    using not_less_Least [OF that [unfolded n_def]] by simp
  ultimately have "ps2_poll B INPUT_BUFFER_FULL d = Some (polled B (Suc n) d)" by (rule ps2_poll_ready)
  then show ?thesis unfolding if_P [OF True] ps2_send_command_def n_def by simp
next
  case False
  then have "ps2_poll B INPUT_BUFFER_FULL d = None" using ps2_poll_result [of B INPUT_BUFFER_FULL d] by (meson not_Some_eq)
  then show ?thesis using False by (simp add: ps2_send_command_def)
qed

text \<open>C31: with a controller that answers, however long each poll takes, \<open>init_ps2_controller\<close>
  does the whole exchange: both channels disabled, interrupts and translation off in the
  command byte, self test, the second channel detected by whether its clock can be enabled, the
  interface tests, the interrupt lines masked, the interrupts of the controller on. The channel
  status is what the tests answered, and \<open>ABSENT\<close> for a missing second channel.\<close>

theorem init_controller_protocol:
  assumes "ps2_controller_present m A"
  shows "let second = \<not> bit c1 5 in
    init_ps2_controller log_bus m A ((ws, script w
      ([Sent, Sent, Taken flush, Sent, Received c0, Sent, Sent, Sent, Received 0x55, Sent, Sent, Received c1]
       @ (if second then [Sent, Sent, Received c2, Sent, Sent] else [])
       @ [Sent, Received t0] @ (if second then [Sent, Received t1] else [])
       @ [Taken master, Taken slave, Sent, Received c3, Sent, Sent])), st)
    = Some ((rev ([(0x64, 0xAD), (0x64, 0xA7), (0x64, 0x20), (0x64, 0x60), (0x60, c0 AND 0xAC), (0x64, 0xAA), (0x64, 0xA8), (0x64, 0x20)]
         @ (if second then [(0x64, 0xA7), (0x64, 0x20), (0x64, 0x60), (0x60, c2 AND 0xDD)] else [])
         @ [(0x64, 0xAB)] @ (if second then [(0x64, 0xA9)] else [])
         @ [(0x21, master OR 2), (0xA1, slave OR 0x10), (0x64, 0x20), (0x64, 0x60), (0x60, c3 OR 3)]) @ ws, []),
       \<lparr>channel0 = ucast t0, channel1 = if second then ucast t1 else ABSENT\<rparr>)"
proof (cases "bit c1 5")
  case True
  then show ?thesis
    using assms by (simp add: init_ps2_controller_def command_byte_masks PS2_SELF_TEST_SUCCESS_def
      PS2CommandByte_repr_def [of c1])
next
  case False
  then show ?thesis
    using assms by (simp add: init_ps2_controller_def command_byte_masks PS2_SELF_TEST_SUCCESS_def
      PS2CommandByte_repr_def [of c1])
qed

lemma init_controller_protocol_witness:
  "\<exists>rs ws. init_ps2_controller log_bus (\<lambda>_. 0) acpi_initial (([], rs), ps2_status_initial)
     = Some ((ws, []), \<lparr>channel0 = CHANNEL_OK, channel1 = ABSENT\<rparr>) \<and> last ws = (0x64, 0xAD) \<and> hd ws = (0x60, 3)"
proof -
  have "ps2_controller_present (\<lambda>_. 0) acpi_initial"
    by (simp add: ps2_controller_present_def RSDP_at_def acpi_initial_def)
  note init_controller_protocol [OF this, of "0x20" "[]" "\<lambda>_. ([0], 0)" 0 0 0 0 0 0 0 0 ps2_status_initial]
  then show ?thesis unfolding CHANNEL_OK_def by (intro exI conjI) (simp, simp_all)
qed

text \<open>A failed self test ends the initialisation; the channels stay uninitialised.\<close>

lemma self_test_failed:
  assumes "ps2_controller_present m A" "t \<noteq> 0x55"
  shows "init_ps2_controller log_bus m A ((ws, script w
      [Sent, Sent, Taken flush, Sent, Received c0, Sent, Sent, Sent, Received t]), st)
    = Some ((rev [(0x64, 0xAD), (0x64, 0xA7), (0x64, 0x20), (0x64, 0x60), (0x60, c0 AND 0xAC), (0x64, 0xAA)] @ ws, []), st)"
  using assms by (simp add: init_ps2_controller_def command_byte_masks PS2_SELF_TEST_SUCCESS_def)

end
