(* ===== verification/Ps2Device.thy ===== *)
theory Ps2Device
  imports Ps2Controller Pit Logger
begin

text \<open>
  \<^verbatim>\<open>src/drivers/ps2/ps2_device_general.c\<close> and its header: talking to
  the devices behind the controller with a timeout, resetting and identifying them, and the
  ring buffers of commands still to be sent. The clock the timeouts read (\<open>millis\<close> and
  \<open>millis_fractions\<close>, volatile variables the timer interrupt advances) moves while the code runs,
  so it is read through the parameter \<open>clock\<close>; each read may change the state \<open>'d\<close>. The address
  of a string literal is the parameter \<open>lit\<close>.
\<close>

section \<open>The devices\<close>

definition COMMAND_RESEND_THRESHOLD :: u8 where "COMMAND_RESEND_THRESHOLD = 3"

type_synonym PS2DeviceID = u32

definition NOTHING :: PS2DeviceID where "NOTHING = 0x20000"
definition AT_KEYBOARD :: PS2DeviceID where "AT_KEYBOARD = 0x10000"
definition PS2_MOUSE :: PS2DeviceID where "PS2_MOUSE = 0x0"
definition PS2_MOUSE_SCROLL :: PS2DeviceID where "PS2_MOUSE_SCROLL = 0x3"
definition PS2_MOUSE_5_BUTTON :: PS2DeviceID where "PS2_MOUSE_5_BUTTON = 0x4"
definition MF_KEYBOARD :: PS2DeviceID where "MF_KEYBOARD = 0x83AB"
definition MF_KEYBOARD1 :: PS2DeviceID where "MF_KEYBOARD1 = 0xC1AB"
definition SHORT_KEYBOARD :: PS2DeviceID where "SHORT_KEYBOARD = 0x84AB"
definition NCD_N_97 :: PS2DeviceID where "NCD_N_97 = 0x85AB"
definition NCD_SUN :: PS2DeviceID where "NCD_SUN = 0xA1AC"
definition M122 :: PS2DeviceID where "M122 = 0x86AB"
definition JAP_G :: PS2DeviceID where "JAP_G = 0x90AB"
definition JAP_P :: PS2DeviceID where "JAP_P = 0x91AB"
definition JAP_A :: PS2DeviceID where "JAP_A = 0x92AB"

definition ACK :: "'a::len word" where "ACK = 0xFA"
definition RSD :: "'a::len word" where "RSD = 0xFE"
definition ERR :: "'a::len word" where "ERR = 0xFC"
definition BAT :: "'a::len word" where "BAT = 0xAA"

definition TIMEOUT_MS :: u32 where "TIMEOUT_MS = 0"
definition TIMEOUT_MSF :: u32 where "TIMEOUT_MSF = 0x80000000"
definition RESET_RETRY_COUNT :: nat where "RESET_RETRY_COUNT = 3"
definition DETECT_RETRY_COUNT :: nat where "DETECT_RETRY_COUNT = 3"
definition COMMAND_QUEUE_SIZE :: u32 where "COMMAND_QUEUE_SIZE = 32"

datatype PS2ToDeviceCommand = RESET | DISABLE_SCAN | ENABLE_SCAN | IDENTIFY

fun PS2ToDeviceCommand_code :: "PS2ToDeviceCommand \<Rightarrow> u8" where
  "PS2ToDeviceCommand_code RESET = 0xFF"
| "PS2ToDeviceCommand_code DISABLE_SCAN = 0xF5"
| "PS2ToDeviceCommand_code ENABLE_SCAN = 0xF4"
| "PS2ToDeviceCommand_code IDENTIFY = 0xF2"

datatype PS2DeviceState = DEVICE_OK | TIMED_OUT | BAD_ACKNOWLEDGEMENT | BAT_FAILED | COMMUNICATION_FAILED

record CommandQueue =
  cq_buffer :: "u8 list"
  cq_head :: u32
  cq_tail :: u32
  cq_size :: u32

record ps2 =
  devices :: "PS2DeviceID list"
  command_queues :: "CommandQueue list"

definition ps2_initial :: ps2 where
  "ps2_initial = \<lparr>devices = [NOTHING, NOTHING],
     command_queues = [\<lparr>cq_buffer = replicate 32 0, cq_head = 0, cq_tail = 0, cq_size = COMMAND_QUEUE_SIZE\<rparr>,
                       \<lparr>cq_buffer = replicate 32 0, cq_head = 0, cq_tail = 0, cq_size = COMMAND_QUEUE_SIZE\<rparr>]\<rparr>"

section \<open>Sending and receiving with a timeout\<close>

record 'd clock =
  clk_millis :: "'d \<Rightarrow> u32 \<times> 'd"
  clk_fractions :: "'d \<Rightarrow> u32 \<times> 'd"

definition deadline :: "'d clock \<Rightarrow> 'd \<Rightarrow> (u32 \<times> u32) \<times> 'd" where
  "deadline C d =
     (let (ms, d) = clk_millis C d;
          (msf, d) = clk_fractions C d
      in (add_32fp32 ms msf TIMEOUT_MS TIMEOUT_MSF, d))"

text \<open>The loop test \<open>ms > millis || (ms == millis && msf > millis_fractions)\<close>, read by read.\<close>

definition in_time :: "'d clock \<Rightarrow> u32 \<times> u32 \<Rightarrow> 'd \<Rightarrow> bool \<times> 'd" where
  "in_time C T d =
     (let (now, d) = clk_millis C d in
      if now < fst T then (True, d)
      else let (now, d) = clk_millis C d in
           if fst T = now then (let (f, d) = clk_fractions C d in (f < snd T, d)) else (False, d))"

text \<open>The loops: \<open>Some (True, d)\<close> when a status is not \<open>busy\<close>, \<open>Some (False, d)\<close> when the time is over.\<close>

partial_function (option) timed_poll :: "'d bus \<Rightarrow> 'd clock \<Rightarrow> (PS2Status \<Rightarrow> bool) \<Rightarrow> u32 \<times> u32 \<Rightarrow> 'd \<Rightarrow> (bool \<times> 'd) option" where
  "timed_poll B C busy T d =
     (let (more, d) = in_time C T d in
      if more
      then let (status, d) = inb B PS2_STATUS_PORT d in
           if busy (PS2Status_of status) then timed_poll B C busy T d else Some (True, d)
      else Some (False, d))"

definition ps2_device_send :: "'d bus \<Rightarrow> 'd clock \<Rightarrow> u8 \<Rightarrow> 'd \<Rightarrow> (u8 \<times> 'd) option" where
  "ps2_device_send B C data d =
     (let (T, d) = deadline C d in do {
        (ready, d) \<leftarrow> timed_poll B C INPUT_BUFFER_FULL T d;
        if ready then Some (0, outb B PS2_DATA_PORT data d) else Some (1, d)
      })"

definition ps2_device_read :: "'d bus \<Rightarrow> 'd clock \<Rightarrow> 'd \<Rightarrow> (u16 \<times> 'd) option" where
  "ps2_device_read B C d =
     (let (T, d) = deadline C d in do {
        (ready, d) \<leftarrow> timed_poll B C (\<lambda>status. \<not> OUTPUT_BUFFER_FULL status) T d;
        if ready then let (data, d) = inb B PS2_DATA_PORT d in Some (ucast data, d) else Some (0xffff, d)
      })"

section \<open>Reset\<close>

fun get_error_reason :: "PS2DeviceState \<Rightarrow> string" where
  "get_error_reason TIMED_OUT = ''Timed out''"
| "get_error_reason BAD_ACKNOWLEDGEMENT = ''Bad acknowledgement''"
| "get_error_reason BAT_FAILED = ''BAT failed''"
| "get_error_reason COMMUNICATION_FAILED = ''Controller stuck busy''"
| "get_error_reason DEVICE_OK = []"

text \<open>One turn of the retry loop, with the \<open>status\<close> it leaves.\<close>

definition reset_try :: "'d bus \<Rightarrow> 'd clock \<Rightarrow> u8 \<Rightarrow> 'd \<Rightarrow> (PS2DeviceState \<times> 'd) option" where
  "reset_try B C channel d = do {
     d \<leftarrow> (if channel \<noteq> 0 then ps2_send_command B WRITE_CHANNEL1_DEVICE d else Some d);
     (failed, d) \<leftarrow> ps2_device_send B C (PS2ToDeviceCommand_code RESET) d;
     if failed \<noteq> 0 then Some (COMMUNICATION_FAILED, d)
     else do {
       (answer, d) \<leftarrow> ps2_device_read B C d;
       if answer AND 0xff00 \<noteq> 0 then Some (TIMED_OUT, d)
       else if answer \<noteq> ACK then Some (BAD_ACKNOWLEDGEMENT, d)
       else do {
         (answer, d) \<leftarrow> ps2_device_read B C d;
         if answer AND 0xff00 \<noteq> 0 then Some (TIMED_OUT, d)
         else if answer \<noteq> BAT then Some (BAT_FAILED, d)
         else Some (DEVICE_OK, d)
       }
     }
   }"

text \<open>The loop with \<open>n\<close> turns left; \<open>status\<close> is what the turns so far have left.\<close>

fun reset_loop :: "'d bus \<Rightarrow> 'd clock \<Rightarrow> u8 \<Rightarrow> nat \<Rightarrow> PS2DeviceState \<times> 'd \<Rightarrow> (PS2DeviceState \<times> 'd) option" where
  "reset_loop B C channel 0 (status, d) = Some (status, d)"
| "reset_loop B C channel (Suc n) (status, d) = do {
     (status, d) \<leftarrow> reset_try B C channel d;
     if status = DEVICE_OK then Some (status, d) else reset_loop B C channel n (status, d)
   }"

definition ps2_reset_device :: "'d bus \<Rightarrow> 'd clock \<Rightarrow> (string \<Rightarrow> u32) \<Rightarrow> PS2ControllerChannelStatus \<Rightarrow> u8 \<Rightarrow> 'd \<times> tty \<Rightarrow> ('d \<times> tty) option" where
  "ps2_reset_device B C lit st channel s =
     (let (d, t) = s in
      if channel0 st = CHANNEL_OK \<and> channel = 0 \<or> channel1 st = CHANNEL_OK \<and> channel = 1
      then do {
        d \<leftarrow> (if channel \<noteq> 0 then ps2_send_command B ENABLE_CHANNEL1 d else ps2_send_command B ENABLE_CHANNEL0 d);
        (status, d) \<leftarrow> reset_loop B C channel RESET_RETRY_COUNT (DEVICE_OK, d);
        t \<leftarrow> (if status \<noteq> DEVICE_OK
               then ERROR lit (''PS/2 channel %d: Retry count exceeded: %s. Aborting communication.'' @ [CHR ''\<newline>''])
                      [ucast channel, lit (get_error_reason status)] t
               else INFO lit (''PS/2 channel %d: device reset'' @ [CHR ''\<newline>'']) [ucast channel] t);
        Some (d, t)
      }
      else Some (d, t))"

definition ps2_reset_devices :: "'d bus \<Rightarrow> 'd clock \<Rightarrow> (string \<Rightarrow> u32) \<Rightarrow> PS2ControllerChannelStatus \<Rightarrow> 'd \<times> tty \<Rightarrow> ('d \<times> tty) option" where
  "ps2_reset_devices B C lit st s = do {
     s \<leftarrow> ps2_reset_device B C lit st 0 s;
     ps2_reset_device B C lit st 1 s
   }"

section \<open>Identification\<close>

definition get_device_name :: "PS2DeviceID \<Rightarrow> string" where
  "get_device_name i =
     (if i = AT_KEYBOARD then ''AT Keyboard''
      else if i = PS2_MOUSE then ''Mouse''
      else if i = PS2_MOUSE_SCROLL then ''Mouse with scroll wheel''
      else if i = PS2_MOUSE_5_BUTTON then ''5-button mouse''
      else if i = MF_KEYBOARD \<or> i = MF_KEYBOARD1 then ''Multifuctional keyboard''
      else if i = SHORT_KEYBOARD then ''Short keyboard''
      else if i = NCD_N_97 then ''NCD N-97 keyboard''
      else if i = NCD_SUN then ''NCD Sun keyboard''
      else if i = M122 then ''122-key keyboard''
      else if i = JAP_G then ''Japanese \"G\" keyboard''
      else if i = JAP_P then ''Japanese \"P\" keyboard''
      else if i = JAP_A then ''Japanese \"A\" keyboard''
      else ''Nothing'')"

definition ps2_read_device_id :: "'d bus \<Rightarrow> 'd clock \<Rightarrow> 'd \<Rightarrow> (PS2DeviceID \<times> 'd) option" where
  "ps2_read_device_id B C d = do {
     (answer, d) \<leftarrow> ps2_device_read B C d;
     if answer AND 0xff00 \<noteq> 0 then Some (AT_KEYBOARD, d)
     else do {
       let device = ucast answer;
       (answer, d) \<leftarrow> ps2_device_read B C d;
       if \<not> answer AND 0xff00 \<noteq> 0 then Some (device OR push_bit 8 (ucast answer), d) else Some (device, d)
     }
   }"

text \<open>One turn of a detection loop: \<open>None\<close> for \<open>continue\<close>, else the identity read.\<close>

definition detect_try :: "'d bus \<Rightarrow> 'd clock \<Rightarrow> ('d \<Rightarrow> 'd option) \<Rightarrow> 'd \<Rightarrow> (PS2DeviceID option \<times> 'd) option" where
  "detect_try B C select d = do {
     d \<leftarrow> select d;
     (_, d) \<leftarrow> ps2_device_send B C (PS2ToDeviceCommand_code DISABLE_SCAN) d;
     (answer, d) \<leftarrow> ps2_device_read B C d;
     if answer \<noteq> ACK then Some (None, d)
     else do {
       d \<leftarrow> select d;
       (_, d) \<leftarrow> ps2_device_send B C (PS2ToDeviceCommand_code IDENTIFY) d;
       (answer, d) \<leftarrow> ps2_device_read B C d;
       if answer \<noteq> ACK then Some (None, d)
       else do {
         (i, d) \<leftarrow> ps2_read_device_id B C d;
         Some (Some i, d)
       }
     }
   }"

fun detect_loop :: "'d bus \<Rightarrow> 'd clock \<Rightarrow> ('d \<Rightarrow> 'd option) \<Rightarrow> nat \<Rightarrow> 'd \<Rightarrow> (PS2DeviceID option \<times> 'd) option" where
  "detect_loop B C select 0 d = Some (None, d)"
| "detect_loop B C select (Suc n) d = do {
     (found, d) \<leftarrow> detect_try B C select d;
     if found \<noteq> None then Some (found, d) else detect_loop B C select n d
   }"

text \<open>A channel: channel 1 addresses its device with \<open>WRITE_CHANNEL1_DEVICE\<close> before each byte.\<close>

definition detect_channel :: "'d bus \<Rightarrow> 'd clock \<Rightarrow> (string \<Rightarrow> u32) \<Rightarrow> nat \<Rightarrow> 'd \<times> ps2 \<times> tty \<Rightarrow> ('d \<times> ps2 \<times> tty) option" where
  "detect_channel B C lit channel s =
     (let (d, p, t) = s in do {
        (found, d) \<leftarrow> detect_loop B C (if channel = 0 then Some else ps2_send_command B WRITE_CHANNEL1_DEVICE) DETECT_RETRY_COUNT d;
        (case found of
           None \<Rightarrow> Some (d, p, t)
         | Some i \<Rightarrow> do {
             t \<leftarrow> INFO lit ((if channel = 0 then ''PS/2 channel 0: Device detected - %s'' else ''PS/2 channel 1: Device detected - %s'')
                   @ [CHR ''\<newline>'']) [lit (get_device_name i)] t;
             Some (d, p\<lparr>devices := (devices p)[channel := i]\<rparr>, t)
           })
      })"

definition ps2_detect_devices :: "'d bus \<Rightarrow> 'd clock \<Rightarrow> (string \<Rightarrow> u32) \<Rightarrow> PS2ControllerChannelStatus \<Rightarrow> 'd \<times> ps2 \<times> tty \<Rightarrow> ('d \<times> ps2 \<times> tty) option" where
  "ps2_detect_devices B C lit st s = do {
     s \<leftarrow> (if channel0 st = CHANNEL_OK then detect_channel B C lit 0 s else Some s);
     if channel1 st = CHANNEL_OK then detect_channel B C lit 1 s else Some s
   }"

section \<open>The command queues\<close>

definition ps2_device_enqueue_command :: "u8 \<Rightarrow> u8 \<Rightarrow> ps2 \<Rightarrow> ps2" where
  "ps2_device_enqueue_command channel cmd p =
     (let q = command_queues p ! unat channel;
          q = q\<lparr>cq_buffer := (cq_buffer q)[unat (cq_tail q) := cmd], cq_tail := cq_tail q + 1\<rparr>;
          q = q\<lparr>cq_tail := cq_tail q mod cq_size q\<rparr>
      in p\<lparr>command_queues := (command_queues p)[unat channel := q]\<rparr>)"

definition queue_empty :: "u8 \<Rightarrow> ps2 \<Rightarrow> bool" where
  "queue_empty channel p \<longleftrightarrow> cq_head (command_queues p ! unat channel) = cq_tail (command_queues p ! unat channel)"

definition ps2_device_queue_top :: "u8 \<Rightarrow> ps2 \<Rightarrow> u8" where
  "ps2_device_queue_top channel p =
     cq_buffer (command_queues p ! unat channel) ! unat (cq_head (command_queues p ! unat channel))"

definition ps2_device_send_topqueue :: "'d bus \<Rightarrow> 'd clock \<Rightarrow> u8 \<Rightarrow> ps2 \<Rightarrow> 'd \<Rightarrow> 'd option" where
  "ps2_device_send_topqueue B C channel p d =
     (if queue_empty channel p then Some d
      else do {
        d \<leftarrow> (if channel \<noteq> 0 then ps2_send_command B WRITE_CHANNEL1_DEVICE d else Some d);
        (_, d) \<leftarrow> ps2_device_send B C
          (cq_buffer (command_queues p ! unat channel) ! unat (cq_head (command_queues p ! unat channel))) d;
        Some d
      })"

definition ps2_device_queue_pop :: "u8 \<Rightarrow> ps2 \<Rightarrow> ps2" where
  "ps2_device_queue_pop channel p =
     (let q = command_queues p ! unat channel in
      p\<lparr>command_queues := (command_queues p)[unat channel := q\<lparr>cq_head := (cq_head q + 1) mod cq_size q\<rparr>]\<rparr>)"

section \<open>Lemmas: bounded queues\<close>

text \<open>
  What the users of a command queue rely on: below its capacity \<open>enqueue\<close> appends, \<open>pop\<close> removes the
  first element of a non-empty queue and \<open>top\<close> is that element.
\<close>

locale bounded_queue =
  fixes enqueue :: "'a \<Rightarrow> 'q \<Rightarrow> 'q" and pop :: "'q \<Rightarrow> 'q" and top :: "'q \<Rightarrow> 'a" and empty :: "'q \<Rightarrow> bool"
    and pending :: "'q \<Rightarrow> 'a list" and ok :: "'q \<Rightarrow> bool" and capacity :: nat
  assumes enqueue_ok: "ok q \<Longrightarrow> ok (enqueue x q)"
    and enqueue_pending: "ok q \<Longrightarrow> length (pending q) < capacity \<Longrightarrow> pending (enqueue x q) = pending q @ [x]"
    and pop_ok: "ok q \<Longrightarrow> ok (pop q)"
    and pop_pending: "ok q \<Longrightarrow> pending q \<noteq> [] \<Longrightarrow> pending (pop q) = tl (pending q)"
    and top_pending: "ok q \<Longrightarrow> pending q \<noteq> [] \<Longrightarrow> top q = hd (pending q)"
    and empty_pending: "ok q \<Longrightarrow> empty q \<longleftrightarrow> pending q = []"
begin

lemma enqueue_all:
  assumes "ok q" "length (pending q) + length xs \<le> capacity"
  shows "ok (fold enqueue xs q) \<and> pending (fold enqueue xs q) = pending q @ xs"
  using assms by (induction xs arbitrary: q) (simp_all add: enqueue_ok enqueue_pending)

lemma pop_all:
  assumes "ok q" "n \<le> length (pending q)"
  shows "ok ((pop ^^ n) q) \<and> pending ((pop ^^ n) q) = drop n (pending q)"
  using assms(2)
proof (induction n)
  case (Suc n)
  then have "pending ((pop ^^ n) q) \<noteq> []" by simp
  then show ?case using Suc by (simp add: pop_ok pop_pending drop_Suc tl_drop)
qed (simp add: assms(1))

text \<open>A sequence of operations, an element to enqueue or a pop each, on the queue and on a list.\<close>

definition run :: "'a option list \<Rightarrow> 'q \<Rightarrow> 'q" where
  "run = fold (\<lambda>c. case c of Some x \<Rightarrow> enqueue x | None \<Rightarrow> pop)"

end

fun list_op :: "'a option \<Rightarrow> 'a list \<Rightarrow> 'a list" where
  "list_op (Some x) xs = xs @ [x]"
| "list_op None xs = tl xs"

text \<open>The operations keep within the capacity and never pop an empty queue.\<close>

fun fits :: "nat \<Rightarrow> 'a option list \<Rightarrow> 'a list \<Rightarrow> bool" where
  "fits n [] xs \<longleftrightarrow> True"
| "fits n (c # ops) xs \<longleftrightarrow> (case c of Some x \<Rightarrow> length xs < n | None \<Rightarrow> xs \<noteq> []) \<and> fits n ops (list_op c xs)"

context bounded_queue
begin

lemma run_refines:
  assumes "ok q" "fits capacity ops (pending q)"
  shows "ok (run ops q) \<and> pending (run ops q) = fold list_op ops (pending q)"
  using assms
proof (induction ops arbitrary: q)
  case (Cons c ops)
  then show ?case
    by (cases c) (simp_all add: run_def enqueue_ok enqueue_pending pop_ok pop_pending)
qed (simp add: run_def)

end

subsection \<open>The ring buffers are queues\<close>

definition queue_ok :: "u8 \<Rightarrow> ps2 \<Rightarrow> bool" where
  "queue_ok chan p \<longleftrightarrow> unat chan < length (command_queues p) \<and> (let q = command_queues p ! unat chan in
     length (cq_buffer q) = 32 \<and> cq_size q = 32 \<and> unat (cq_head q) < 32 \<and> unat (cq_tail q) < 32)"

definition ring :: "u8 list \<Rightarrow> nat \<Rightarrow> nat \<Rightarrow> u8 list" where
  "ring xs h n = map (\<lambda>i. xs ! ((h + i) mod 32)) [0..<n]"

definition pending_commands :: "u8 \<Rightarrow> ps2 \<Rightarrow> u8 list" where
  "pending_commands chan p = (let q = command_queues p ! unat chan in
     ring (cq_buffer q) (unat (cq_head q)) ((unat (cq_tail q) + 32 - unat (cq_head q)) mod 32))"

lemma ring_length [simp]: "length (ring xs h n) = n"
  by (simp add: ring_def)

lemma ring_Suc: "ring xs h (Suc n) = ring xs h n @ [xs ! ((h + n) mod 32)]"
  by (simp add: ring_def)

lemma ring_tl: "0 < n \<Longrightarrow> tl (ring xs h n) = ring xs ((h + 1) mod 32) (n - 1)"
  by (intro nth_equalityI) (auto simp: ring_def nth_tl mod_simps)

lemma ring_distance:
  fixes a b :: nat
  assumes "a < 32" "b < 32"
  shows "(b + 32 - a) mod 32 = (if a \<le> b then b - a else b + 32 - a)"
proof (cases "a \<le> b")
  case True
  then have "b + 32 - a = (b - a) + 32" by simp
  then show ?thesis using assms True by (simp only: mod_add_self2) simp
qed (use assms in simp)

lemma ring_next: "x < 32 \<Longrightarrow> Suc x mod 32 = (if x = 31 then 0 else Suc x)"
  by auto

lemma ring_plus: "h < 32 \<Longrightarrow> n < 32 \<Longrightarrow> (h + n) mod 32 = (if h + n < 32 then h + n else h + n - 32 :: nat)"
  by (auto simp: mod_if)

lemma ring_update: "n < 32 \<Longrightarrow> h < 32 \<Longrightarrow> ring (xs[(h + n) mod 32 := x]) h n = ring xs h n"
proof -
  assume n: "n < 32" "h < 32"
  have "(h + n) mod 32 \<noteq> (h + i) mod 32" if "i < n" for i
    using that n by (simp add: ring_plus) linarith
  then show ?thesis by (auto simp: ring_def)
qed

lemma inc_mod_32: "unat x < 32 \<Longrightarrow> unat ((x + 1) mod 32 :: u32) = (unat x + 1) mod 32"
  by (simp add: unat_mod unat_word_ariths)

lemma queue_count:
  "unat h < 32 \<Longrightarrow> unat t < 32 \<Longrightarrow> (unat (t :: u32) + 32 - unat (h :: u32)) mod 32 = 0 \<longleftrightarrow> h = t"
  by (auto simp: ring_distance word_unat_eq_iff)

lemma enqueue_queue_ok: "queue_ok chan p \<Longrightarrow> queue_ok chan (ps2_device_enqueue_command chan cmd p)"
  by (simp add: queue_ok_def ps2_device_enqueue_command_def Let_def inc_mod_32)

lemma pop_queue_ok: "queue_ok chan p \<Longrightarrow> queue_ok chan (ps2_device_queue_pop chan p)"
  by (simp add: queue_ok_def ps2_device_queue_pop_def Let_def inc_mod_32)

lemma enqueue_pending_commands:
  assumes "queue_ok chan p" "length (pending_commands chan p) < 31"
  shows "pending_commands chan (ps2_device_enqueue_command chan cmd p) = pending_commands chan p @ [cmd]"
proof -
  define q where "q = command_queues p ! unat chan"
  define n where "n = (unat (cq_tail q) + 32 - unat (cq_head q)) mod 32"
  have q: "unat chan < length (command_queues p)" "length (cq_buffer q) = 32" "cq_size q = 32"
    "unat (cq_head q) < 32" "unat (cq_tail q) < 32"
    using assms(1) by (simp_all add: queue_ok_def q_def Let_def)
  have n: "n < 31" using assms(2) by (simp add: pending_commands_def Let_def n_def q_def)
  have t: "unat (cq_tail q) = (unat (cq_head q) + n) mod 32" using q(4,5) unfolding n_def by (auto simp: ring_distance mod_if)
  have "((unat (cq_tail q) + 1) mod 32 + 32 - unat (cq_head q)) mod 32 = Suc n"
    using n q(4,5) unfolding n_def by (auto simp: ring_distance ring_next split: if_splits)
  then have "pending_commands chan (ps2_device_enqueue_command chan cmd p)
      = ring ((cq_buffer q)[(unat (cq_head q) + n) mod 32 := cmd]) (unat (cq_head q)) (Suc n)"
    using q(1,3,5) by (simp add: pending_commands_def ps2_device_enqueue_command_def Let_def q_def [symmetric] inc_mod_32 t)
  also have "\<dots> = ring (cq_buffer q) (unat (cq_head q)) n @ [cmd]"
    using n q(2,4) unfolding ring_Suc by (simp add: ring_update)
  finally show ?thesis by (simp add: pending_commands_def Let_def q_def n_def)
qed

lemma pop_pending_commands:
  assumes "queue_ok chan p" "pending_commands chan p \<noteq> []"
  shows "pending_commands chan (ps2_device_queue_pop chan p) = tl (pending_commands chan p)"
proof -
  define q where "q = command_queues p ! unat chan"
  define n where "n = (unat (cq_tail q) + 32 - unat (cq_head q)) mod 32"
  have q: "unat chan < length (command_queues p)" "cq_size q = 32" "unat (cq_head q) < 32" "unat (cq_tail q) < 32"
    using assms(1) by (simp_all add: queue_ok_def q_def Let_def)
  have "length (pending_commands chan p) \<noteq> 0" using assms(2) by simp
  then have n: "0 < n" by (simp add: pending_commands_def Let_def n_def q_def)
  have "(unat (cq_tail q) + 32 - (unat (cq_head q) + 1) mod 32) mod 32 = n - 1"
    using n q(3,4) unfolding n_def by (auto simp: ring_distance ring_next split: if_splits)
  then show ?thesis
    using q ring_tl [OF n] by (simp add: pending_commands_def ps2_device_queue_pop_def Let_def q_def [symmetric] n_def [symmetric] inc_mod_32)
qed

lemma top_pending_commands:
  assumes "queue_ok chan p" "pending_commands chan p \<noteq> []"
  shows "ps2_device_queue_top chan p = hd (pending_commands chan p)"
proof -
  define q where "q = command_queues p ! unat chan"
  define n where "n = (unat (cq_tail q) + 32 - unat (cq_head q)) mod 32"
  have h: "unat (cq_head q) < 32" using assms(1) by (simp add: queue_ok_def q_def Let_def)
  have "length (pending_commands chan p) \<noteq> 0" using assms(2) by simp
  then have "0 < n" by (simp add: pending_commands_def Let_def n_def q_def)
  then have "hd (ring (cq_buffer q) (unat (cq_head q)) n) = cq_buffer q ! unat (cq_head q)"
    using h by (simp add: hd_conv_nth ring_def length_greater_0_conv [symmetric] del: length_greater_0_conv)
  then show ?thesis by (simp add: pending_commands_def ps2_device_queue_top_def Let_def q_def [symmetric] n_def [symmetric])
qed

lemma empty_pending_commands:
  assumes "queue_ok chan p"
  shows "queue_empty chan p \<longleftrightarrow> pending_commands chan p = []"
proof -
  define q where "q = command_queues p ! unat chan"
  have q: "unat (cq_head q) < 32" "unat (cq_tail q) < 32" using assms by (simp_all add: queue_ok_def q_def Let_def)
  have "pending_commands chan p = [] \<longleftrightarrow> length (pending_commands chan p) = 0" by simp
  also have "\<dots> \<longleftrightarrow> cq_head q = cq_tail q" using queue_count [OF q] by (simp add: pending_commands_def Let_def q_def)
  finally show ?thesis by (simp add: queue_empty_def q_def)
qed

interpretation channel_queue: bounded_queue "ps2_device_enqueue_command chan" "ps2_device_queue_pop chan"
    "ps2_device_queue_top chan" "queue_empty chan" "pending_commands chan" "queue_ok chan" 31
  for chan :: u8
  by unfold_locales (simp_all add: enqueue_queue_ok enqueue_pending_commands pop_queue_ok pop_pending_commands
    top_pending_commands empty_pending_commands)

lemma queue_ok_initial: "unat chan < 2 \<Longrightarrow> queue_ok chan ps2_initial \<and> pending_commands chan ps2_initial = []"
proof -
  assume "unat chan < 2"
  then consider "unat chan = 0" | "unat chan = 1" by linarith
  then show ?thesis by cases (simp_all add: queue_ok_def ps2_initial_def COMMAND_QUEUE_SIZE_def pending_commands_def ring_def Let_def)
qed

text \<open>The queues of the two channels do not interfere.\<close>

lemma other_channel:
  assumes "chan \<noteq> chan'"
  shows "pending_commands chan' (ps2_device_enqueue_command chan cmd p) = pending_commands chan' p"
    "pending_commands chan' (ps2_device_queue_pop chan p) = pending_commands chan' p"
  using assms by (simp_all add: pending_commands_def ps2_device_enqueue_command_def ps2_device_queue_pop_def Let_def word_unat_eq_iff)

text \<open>The 32nd command: the tail meets the head and the whole queue is lost.\<close>

lemma enqueue_overflow:
  assumes "queue_ok chan p" "length (pending_commands chan p) = 31"
  shows "pending_commands chan (ps2_device_enqueue_command chan cmd p) = []"
proof -
  define q where "q = command_queues p ! unat chan"
  have q: "unat chan < length (command_queues p)" "cq_size q = 32" "unat (cq_head q) < 32" "unat (cq_tail q) < 32"
    using assms(1) by (simp_all add: queue_ok_def q_def Let_def)
  have "(unat (cq_tail q) + 32 - unat (cq_head q)) mod 32 = 31" using assms(2) by (simp add: pending_commands_def Let_def q_def)
  then have "((unat (cq_tail q) + 1) mod 32 + 32 - unat (cq_head q)) mod 32 = 0"
    using q(3,4) by (auto simp: ring_distance ring_next split: if_splits)
  then show ?thesis
    using q by (simp add: pending_commands_def ps2_device_enqueue_command_def Let_def q_def [symmetric] inc_mod_32 ring_def)
qed

section \<open>Lemmas: timed polling\<close>

text \<open>The turns of a timed loop: the state after \<open>n\<close> of them, whether turn \<open>n\<close> is too late and the status it sees.\<close>

definition turn :: "'d bus \<Rightarrow> 'd clock \<Rightarrow> u32 \<times> u32 \<Rightarrow> 'd \<Rightarrow> 'd" where
  "turn B C T d = snd (inb B PS2_STATUS_PORT (snd (in_time C T d)))"

definition turns :: "'d bus \<Rightarrow> 'd clock \<Rightarrow> u32 \<times> u32 \<Rightarrow> nat \<Rightarrow> 'd \<Rightarrow> 'd" where
  "turns B C T n d = (turn B C T ^^ n) d"

definition too_late :: "'d bus \<Rightarrow> 'd clock \<Rightarrow> u32 \<times> u32 \<Rightarrow> nat \<Rightarrow> 'd \<Rightarrow> bool" where
  "too_late B C T n d \<longleftrightarrow> \<not> fst (in_time C T (turns B C T n d))"

definition turn_status :: "'d bus \<Rightarrow> 'd clock \<Rightarrow> u32 \<times> u32 \<Rightarrow> nat \<Rightarrow> 'd \<Rightarrow> PS2Status" where
  "turn_status B C T n d = PS2Status_of (fst (inb B PS2_STATUS_PORT (snd (in_time C T (turns B C T n d)))))"

lemma turns_0 [simp]: "turns B C T 0 d = d"
  by (simp add: turns_def)

lemma turns_Suc: "turns B C T (Suc n) d = turns B C T n (turn B C T d)"
  unfolding turns_def funpow_Suc_right by simp

lemma turn_Suc:
  "too_late B C T (Suc n) d = too_late B C T n (turn B C T d)"
  "turn_status B C T (Suc n) d = turn_status B C T n (turn B C T d)"
  by (simp_all add: too_late_def turn_status_def turns_Suc)

lemma timed_poll_step:
  "timed_poll B C busy T d =
     (if too_late B C T 0 d then Some (False, snd (in_time C T d))
      else if busy (turn_status B C T 0 d) then timed_poll B C busy T (turn B C T d)
      else Some (True, turn B C T d))"
  by (simp add: timed_poll.simps [of B C busy T d] too_late_def turn_status_def turn_def split: prod.split)

lemma timed_poll_stops:
  assumes "too_late B C T n d \<or> \<not> busy (turn_status B C T n d)"
    and "\<And>k. k < n \<Longrightarrow> \<not> too_late B C T k d \<and> busy (turn_status B C T k d)"
  shows "timed_poll B C busy T d = (if too_late B C T n d then Some (False, snd (in_time C T (turns B C T n d)))
    else Some (True, turns B C T (Suc n) d))"
  using assms
proof (induction n arbitrary: d)
  case 0
  then show ?case by (auto simp: timed_poll_step [of B C busy T d] turns_Suc)
next
  case (Suc n)
  have "timed_poll B C busy T (turn B C T d) = (if too_late B C T n (turn B C T d)
      then Some (False, snd (in_time C T (turns B C T n (turn B C T d)))) else Some (True, turns B C T (Suc n) (turn B C T d)))"
    using Suc.prems(1) Suc.prems(2) [of "Suc _"] by (intro Suc.IH) (simp_all add: turn_Suc)
  moreover have "\<not> too_late B C T 0 d" "busy (turn_status B C T 0 d)" using Suc.prems(2) [of 0] by simp_all
  ultimately show ?case by (simp add: timed_poll_step [of B C busy T d] turn_Suc turns_Suc)
qed

lemma timed_poll_result:
  assumes "timed_poll B C busy T d = Some r"
  shows "\<exists>n. too_late B C T n d \<or> \<not> busy (turn_status B C T n d)"
proof (rule timed_poll.raw_induct [where P = "\<lambda>B C busy T d _. \<exists>n. too_late B C T n d \<or> \<not> busy (turn_status B C T n d)", OF _ assms])
  fix poll and B :: "'a bus" and C and busy :: "PS2Status \<Rightarrow> bool" and T d r
  assume step: "\<And>B C busy T d r. poll B C busy T d = Some r \<Longrightarrow> \<exists>n. too_late B C T n d \<or> \<not> busy (turn_status B C T n d)"
    "(let (more, d) = in_time C T d in
      if more
      then let (status, d) = inb B PS2_STATUS_PORT d in if busy (PS2Status_of status) then poll B C busy T d else Some (True, d)
      else Some (False, d)) = Some r"
  show "\<exists>n. too_late B C T n d \<or> \<not> busy (turn_status B C T n d)"
  proof (cases "too_late B C T 0 d \<or> \<not> busy (turn_status B C T 0 d)")
    case False
    then have "poll B C busy T (turn B C T d) = Some r"
      using step(2) by (simp add: too_late_def turn_status_def turn_def split: prod.splits)
    from step(1) [OF this] obtain n where "too_late B C T (Suc n) d \<or> \<not> busy (turn_status B C T (Suc n) d)" by (auto simp: turn_Suc)
    then show ?thesis by blast
  qed blast
qed

text \<open>The outcome of a timed loop: at the first turn that is too late or sees the status wanted.\<close>

definition first_stop :: "'d bus \<Rightarrow> 'd clock \<Rightarrow> (PS2Status \<Rightarrow> bool) \<Rightarrow> u32 \<times> u32 \<Rightarrow> 'd \<Rightarrow> nat" where
  "first_stop B C busy T d = (LEAST n. too_late B C T n d \<or> \<not> busy (turn_status B C T n d))"

lemma timed_poll_outcome:
  "timed_poll B C busy T d =
     (if \<exists>n. too_late B C T n d \<or> \<not> busy (turn_status B C T n d)
      then let n = first_stop B C busy T d in
           if too_late B C T n d then Some (False, snd (in_time C T (turns B C T n d))) else Some (True, turns B C T (Suc n) d)
      else None)"
proof (cases "\<exists>n. too_late B C T n d \<or> \<not> busy (turn_status B C T n d)")
  case True
  let ?n = "first_stop B C busy T d"
  have "too_late B C T ?n d \<or> \<not> busy (turn_status B C T ?n d)" unfolding first_stop_def using True by (rule LeastI_ex)
  moreover have "\<not> too_late B C T k d \<and> busy (turn_status B C T k d)" if "k < ?n" for k
    using not_less_Least [OF that [unfolded first_stop_def]] by simp
  ultimately show ?thesis unfolding if_P [OF True] Let_def by (rule timed_poll_stops)
next
  case False
  then have "timed_poll B C busy T d = None" using timed_poll_result [of B C busy T d] by (meson not_Some_eq)
  then show ?thesis using False by simp
qed

section \<open>Lemmas: a scripted device\<close>

text \<open>A clock that stands still: every answer comes in time.\<close>

definition still_clock :: "u32 \<Rightarrow> 'd clock" where
  "still_clock now = \<lparr>clk_millis = (\<lambda>d. (now, d)), clk_fractions = (\<lambda>d. (0, d))\<rparr>"

lemma deadline_still [simp]: "deadline (still_clock now) d = ((now, 0x80000000), d)"
  by (simp add: deadline_def still_clock_def add_32fp32_def TIMEOUT_MS_def TIMEOUT_MSF_def)

lemma in_time_still [simp]: "in_time (still_clock now) (now, 0x80000000) d = (True, d)"
  by (simp add: in_time_def still_clock_def)

lemma timed_poll_log:
  assumes "\<forall>b \<in> set bs. busy (PS2Status_of b)" "\<not> busy (PS2Status_of b)"
  shows "timed_poll log_bus (still_clock now) busy (now, 0x80000000) (ws, bs @ b # rs) = Some (True, ws, rs)"
  using assms(1) by (induction bs) (simp_all add: timed_poll.simps assms(2))

lemma device_send_script [simp]:
  "ps2_device_send log_bus (still_clock now) v (ws, script w (Sent # xs)) = Some (0, (0x60, v) # ws, script (\<lambda>k. w (Suc k)) xs)"
  unfolding ps2_device_send_def script.simps deadline_still Let_def prod.case
  by (subst timed_poll_log) (auto simp: PS2Status_of_def bit_simps PS2_DATA_PORT_def)

lemma device_read_script [simp]:
  "ps2_device_read log_bus (still_clock now) (ws, script w (Received v # xs)) = Some (ucast v, ws, script (\<lambda>k. w (Suc k)) xs)"
  unfolding ps2_device_read_def script.simps deadline_still Let_def prod.case
  by (subst timed_poll_log) (auto simp: PS2Status_of_def bit_simps)

text \<open>A byte read is told from a timeout by the mask \<open>0xff00\<close>.\<close>

lemma answer_not_timeout [simp]: "(ucast (b :: u8) :: u16) AND 0xff00 = 0"
proof -
  have m: "(0xff00 :: u16) = NOT (mask 8)" by (simp add: mask_eq_exp_minus_1)
  show ?thesis unfolding m by (rule bit_word_eqI) (auto simp: bit_simps dest: bit_imp_le_length)
qed

lemma answer_eq_code [simp]: "(ucast (b :: u8) :: u16) = ACK \<longleftrightarrow> b = ACK" "(ucast (b :: u8) :: u16) = BAT \<longleftrightarrow> b = BAT"
proof -
  have lt: "unat c < 2 ^ 16" for c :: u8 by (rule less_trans [OF unsigned_less]) simp
  have 1: "(ucast (b :: u8) :: u16) = ucast c \<longleftrightarrow> b = c" for c :: u8
    using lt [of b] lt [of c] by (simp add: word_unat_eq_iff unsigned_ucast_eq take_bit_nat_eq_self)
  show "(ucast (b :: u8) :: u16) = ACK \<longleftrightarrow> b = ACK" "(ucast (b :: u8) :: u16) = BAT \<longleftrightarrow> b = BAT"
    using 1 [of ACK] 1 [of BAT] by (simp_all add: ACK_def BAT_def)
qed

lemma ucast_byte_word [simp]: "(ucast (ucast (b :: u8) :: u16) :: u32) = ucast b"
  by (rule bit_word_eqI) (auto simp: bit_simps dest: bit_imp_le_length)

lemma bind_Some_map: "x \<bind> (\<lambda>y. Some (f y)) = map_option f x"
  by (cases x) simp_all

section \<open>Lemmas: retries\<close>

text \<open>What a device answers to one reset: one byte that is not an \<open>ACK\<close>, or an \<open>ACK\<close> and the result of its self test.\<close>

definition reset_answers :: "u8 list \<Rightarrow> bool" where
  "reset_answers xs \<longleftrightarrow> (\<exists>a. xs = [a] \<and> a \<noteq> ACK) \<or> (\<exists>b. xs = [ACK, b])"

definition reset_outcome :: "u8 list \<Rightarrow> PS2DeviceState" where
  "reset_outcome xs = (if length xs < 2 then BAD_ACKNOWLEDGEMENT else if xs ! 1 = BAT then DEVICE_OK else BAT_FAILED)"

lemma reset_try_script:
  assumes "reset_answers xs"
  shows "reset_try log_bus (still_clock now) 0 (ws, script w (Sent # map Received xs @ rest))
    = Some (reset_outcome xs, (0x60, 0xFF) # ws, script (\<lambda>k. w (k + Suc (length xs))) rest)"
  using assms by (auto simp: reset_answers_def reset_try_def reset_outcome_def)

lemma reset_loop_script:
  assumes "\<forall>xs \<in> set tries. reset_answers xs" "tries \<noteq> []" "length tries \<le> n"
    and "\<forall>xs \<in> set (butlast tries). reset_outcome xs \<noteq> DEVICE_OK"
    and "reset_outcome (last tries) = DEVICE_OK \<or> length tries = n"
  shows "reset_loop log_bus (still_clock now) 0 n (s0, ws, script w (concat (map (\<lambda>xs. Sent # map Received xs) tries)))
    = Some (reset_outcome (last tries), replicate (length tries) (0x60, 0xFF) @ ws, [])"
  using assms
proof (induction tries arbitrary: n s0 ws w)
  case (Cons xs tries)
  obtain n' where n: "n = Suc n'" using Cons.prems(3) by (cases n) auto
  have once: "reset_try log_bus (still_clock now) 0 (ws, script w (Sent # map Received xs @ concat (map (\<lambda>xs. Sent # map Received xs) tries)))
      = Some (reset_outcome xs, (0x60, 0xFF) # ws, script (\<lambda>k. w (k + Suc (length xs))) (concat (map (\<lambda>xs. Sent # map Received xs) tries)))"
    using Cons.prems(1) by (intro reset_try_script) simp
  show ?case
  proof (cases "tries = []")
    case True
    then show ?thesis using once Cons.prems(5) n by (cases n') auto
  next
    case False
    then have "reset_outcome xs \<noteq> DEVICE_OK" using Cons.prems(4) by simp
    moreover have "reset_loop log_bus (still_clock now) 0 n' (reset_outcome xs, (0x60, 0xFF) # ws,
        script (\<lambda>k. w (k + Suc (length xs))) (concat (map (\<lambda>xs. Sent # map Received xs) tries)))
      = Some (reset_outcome (last tries), replicate (length tries) (0x60, 0xFF) @ (0x60, 0xFF) # ws, [])"
      using Cons.prems False n by (intro Cons.IH) auto
    ultimately show ?thesis using once n False by (simp add: replicate_app_Cons_same)
  qed
qed simp

text \<open>Identification: \<open>bad\<close> are the answers of the turns that \<open>continue\<close>.\<close>

lemma detect_loop_script:
  assumes "\<forall>b \<in> set bad. b \<noteq> ACK" "length bad < n"
  shows "detect_loop log_bus (still_clock now) Some n
      (ws, script w (concat (map (\<lambda>b. [Sent, Received b]) bad) @ [Sent, Received ACK, Sent, Received ACK, Received lo, Received hi]))
    = Some (Some (ucast lo OR push_bit 8 (ucast hi)), (0x60, 0xF2) # (0x60, 0xF5) # replicate (length bad) (0x60, 0xF5) @ ws, [])"
  using assms
proof (induction bad arbitrary: n ws w)
  case Nil
  then obtain n' where "n = Suc n'" by (cases n) auto
  then show ?case by (simp add: detect_try_def ps2_read_device_id_def)
next
  case (Cons b bad)
  then obtain n' where n: "n = Suc n'" "length bad < n'" by (cases n) auto
  then show ?case using Cons.prems(1) Cons.IH [of n'] by (simp add: detect_try_def replicate_app_Cons_same)
qed

lemma detect_loop_gives_up:
  assumes "\<forall>b \<in> set bad. b \<noteq> ACK"
  shows "detect_loop log_bus (still_clock now) Some (length bad) (ws, script w (concat (map (\<lambda>b. [Sent, Received b]) bad)))
    = Some (None, replicate (length bad) (0x60, 0xF5) @ ws, [])"
  using assms by (induction bad arbitrary: ws w) (simp_all add: detect_try_def replicate_app_Cons_same)

section \<open>Properties\<close>

text \<open>C28: the command queue of a channel implements a FIFO of at most 31 commands: any sequence of
  enqueue (\<open>Some x\<close>) and pop (\<open>None\<close>) operations that keeps within that capacity and pops no empty
  queue acts on the pending commands as on a list, and the head, the tail and the buffer stay in
  order.\<close>

theorem command_queue_fifo:
  assumes "queue_ok chan p" "fits 31 ops (pending_commands chan p)"
  shows "pending_commands chan (fold (\<lambda>c. case c of Some x \<Rightarrow> ps2_device_enqueue_command chan x | None \<Rightarrow> ps2_device_queue_pop chan) ops p)
      = fold list_op ops (pending_commands chan p)
    \<and> queue_ok chan (fold (\<lambda>c. case c of Some x \<Rightarrow> ps2_device_enqueue_command chan x | None \<Rightarrow> ps2_device_queue_pop chan) ops p)"
  using channel_queue.run_refines [OF assms] by (simp_all add: channel_queue.run_def)

lemma command_queue_fifo_witness:
  "pending_commands 1 (ps2_device_enqueue_command 1 0xF4 (ps2_device_queue_pop 1
     (ps2_device_enqueue_command 1 0xF0 (ps2_device_enqueue_command 1 0xED ps2_initial)))) = [0xF0, 0xF4]"
proof -
  have q: "queue_ok 1 ps2_initial" "pending_commands 1 ps2_initial = []" using queue_ok_initial [of 1] by simp_all
  then show ?thesis
    using command_queue_fifo [OF q(1), of "[Some 0xED, Some 0xF0, None, Some 0xF4]"] by simp
qed


text \<open>A tick that falls between the reading of the clock for the deadline and the first test of the loop can
  end the wait before the status port was read once, since the whole timeout is less than a tick: then the
  outcome does not depend on the device.\<close>

lemma timeout_without_poll:
  assumes "deadline C d = (T, d1)" "in_time C T d1 = (False, d2)"
  shows "ps2_device_read B C d = Some (0xffff, d2)" "ps2_device_send B C x d = Some (1, d2)"
  using assms by (simp_all add: ps2_device_read_def ps2_device_send_def timed_poll.simps)

text \<open>A clock whose third reading is a tick of 180 Hz later (5 milliseconds and more) is such a clock.\<close>

lemma tick_after_deadline:
  fixes ticks :: "nat \<Rightarrow> u32 \<times> u32"
  defines "C \<equiv> \<lparr>clk_millis = (\<lambda>n. (fst (ticks n), Suc n)), clk_fractions = (\<lambda>n. (snd (ticks n), Suc n))\<rparr>"
  assumes "ticks 0 = (7, 0)" "ticks 1 = (7, 0)" "ticks 2 = (12, 0x8E38E38E)" "ticks 3 = (12, 0x8E38E38E)"
  shows "ps2_device_read B C 0 = Some (0xffff, 4)"
proof (rule timeout_without_poll(1))
  show "deadline C 0 = ((7, 0x80000000), 2)"
    using assms by (simp add: deadline_def add_32fp32_def TIMEOUT_MS_def TIMEOUT_MSF_def numeral_2_eq_2)
  show "in_time C (7, 0x80000000) 2 = (False, 4)"
    using assms by (simp add: in_time_def)
qed

text \<open>A device on channel 0 is reset at most three times: with the answers of the tries made, all but
  the last of them failures, the reset byte is sent once per try and the message logged is that
  of the last try, a success or, after three failures, the reason of the last.\<close>

theorem reset_device_retries:
  assumes "channel0 st = CHANNEL_OK" "\<forall>xs \<in> set tries. reset_answers xs" "tries \<noteq> []" "length tries \<le> 3"
    and "\<forall>xs \<in> set (butlast tries). reset_outcome xs \<noteq> DEVICE_OK"
    and "reset_outcome (last tries) = DEVICE_OK \<or> length tries = 3"
  shows "ps2_reset_device log_bus (still_clock now) lit st 0
      ((ws, script w (Sent # concat (map (\<lambda>xs. Sent # map Received xs) tries))), t)
    = map_option (Pair (replicate (length tries) (0x60, 0xFF) @ (0x64, 0xAE) # ws, []))
        (if reset_outcome (last tries) = DEVICE_OK
         then INFO lit (''PS/2 channel %d: device reset'' @ [CHR ''\<newline>'']) [0] t
         else ERROR lit (''PS/2 channel %d: Retry count exceeded: %s. Aborting communication.'' @ [CHR ''\<newline>''])
                [0, lit (get_error_reason (reset_outcome (last tries)))] t)"
proof -
  have "reset_loop log_bus (still_clock now) 0 RESET_RETRY_COUNT
      (DEVICE_OK, (0x64, 0xAE) # ws, script (\<lambda>k. w (Suc k)) (concat (map (\<lambda>xs. Sent # map Received xs) tries)))
    = Some (reset_outcome (last tries), replicate (length tries) (0x60, 0xFF) @ (0x64, 0xAE) # ws, [])"
    using assms(2-6) by (intro reset_loop_script) (simp_all add: RESET_RETRY_COUNT_def)
  then show ?thesis using assms(1) by (simp add: ps2_reset_device_def bind_Some_map)
qed

lemma reset_device_retries_witness:
  "\<forall>lit w t. ps2_reset_device log_bus (still_clock 7) lit \<lparr>channel0 = CHANNEL_OK, channel1 = ABSENT\<rparr> 0
      (([], script w [Sent, Sent, Received RSD, Sent, Received ACK, Received BAT]), t)
    = map_option (Pair ([(0x60, 0xFF), (0x60, 0xFF), (0x64, 0xAE)], []))
        (INFO lit (''PS/2 channel %d: device reset'' @ [CHR ''\<newline>'']) [0] t)"
proof (intro allI)
  fix lit w t
  show "ps2_reset_device log_bus (still_clock 7) lit \<lparr>channel0 = CHANNEL_OK, channel1 = ABSENT\<rparr> 0
      (([], script w [Sent, Sent, Received RSD, Sent, Received ACK, Received BAT]), t)
    = map_option (Pair ([(0x60, 0xFF), (0x60, 0xFF), (0x64, 0xAE)], []))
        (INFO lit (''PS/2 channel %d: device reset'' @ [CHR ''\<newline>'']) [0] t)"
    using reset_device_retries [of "\<lparr>channel0 = CHANNEL_OK, channel1 = ABSENT\<rparr>" "[[RSD], [ACK, BAT]]" 7 lit "[]" w t]
    by (simp add: reset_answers_def reset_outcome_def RSD_def ACK_def)
qed



end
