(* ===== verification/Ps2Keys.thy ===== *)
theory Ps2Keys
  imports Prelude
begin

text \<open>
  \<^verbatim>\<open>src/drivers/ps2/ps2_keyboard_keys.h\<close> and \<^verbatim>\<open>.c\<close>: the key codes, integers packed from a row, a
  column and a shift bit, and the table from scan codes of one byte to them. \<open>scan_set_2\<close> is what
  the keys of a keyboard send in scan code set 2, the reference the table is compared with.
\<close>

section \<open>Key codes\<close>

definition ROW_SHIFT :: nat where "ROW_SHIFT = 6"
definition SHIFT_SHIFT :: nat where "SHIFT_SHIFT = ROW_SHIFT + 3"
definition BYTE_TO_CODE_SIZE :: nat where "BYTE_TO_CODE_SIZE = 128"

type_synonym KeyCode = int

definition KEY_NONE :: KeyCode where "KEY_NONE = - 1"
definition KEY_ESC :: KeyCode where "KEY_ESC = push_bit ROW_SHIFT 0 OR 0"
definition KEY_F1 :: KeyCode where "KEY_F1 = push_bit ROW_SHIFT 0 OR 2"
definition KEY_F2 :: KeyCode where "KEY_F2 = push_bit ROW_SHIFT 0 OR 3"
definition KEY_F3 :: KeyCode where "KEY_F3 = push_bit ROW_SHIFT 0 OR 4"
definition KEY_F4 :: KeyCode where "KEY_F4 = push_bit ROW_SHIFT 0 OR 5"
definition KEY_F5 :: KeyCode where "KEY_F5 = push_bit ROW_SHIFT 0 OR 6"
definition KEY_F6 :: KeyCode where "KEY_F6 = push_bit ROW_SHIFT 0 OR 7"
definition KEY_F7 :: KeyCode where "KEY_F7 = push_bit ROW_SHIFT 0 OR 8"
definition KEY_F8 :: KeyCode where "KEY_F8 = push_bit ROW_SHIFT 0 OR 9"
definition KEY_F9 :: KeyCode where "KEY_F9 = push_bit ROW_SHIFT 0 OR 10"
definition KEY_F10 :: KeyCode where "KEY_F10 = push_bit ROW_SHIFT 0 OR 11"
definition KEY_F11 :: KeyCode where "KEY_F11 = push_bit ROW_SHIFT 0 OR 12"
definition KEY_F12 :: KeyCode where "KEY_F12 = push_bit ROW_SHIFT 0 OR 13"
definition KEY_PRTSCR :: KeyCode where "KEY_PRTSCR = push_bit ROW_SHIFT 0 OR 14"
definition KEY_SCROLL_LOCK :: KeyCode where "KEY_SCROLL_LOCK = push_bit ROW_SHIFT 0 OR 15"
definition KEY_PAUSE :: KeyCode where "KEY_PAUSE = push_bit ROW_SHIFT 0 OR 16"
definition KEY_BACKTICK :: KeyCode where "KEY_BACKTICK = push_bit ROW_SHIFT 1 OR 0"
definition KEY_1 :: KeyCode where "KEY_1 = push_bit ROW_SHIFT 1 OR 1"
definition KEY_2 :: KeyCode where "KEY_2 = push_bit ROW_SHIFT 1 OR 2"
definition KEY_3 :: KeyCode where "KEY_3 = push_bit ROW_SHIFT 1 OR 3"
definition KEY_4 :: KeyCode where "KEY_4 = push_bit ROW_SHIFT 1 OR 4"
definition KEY_5 :: KeyCode where "KEY_5 = push_bit ROW_SHIFT 1 OR 5"
definition KEY_6 :: KeyCode where "KEY_6 = push_bit ROW_SHIFT 1 OR 6"
definition KEY_7 :: KeyCode where "KEY_7 = push_bit ROW_SHIFT 1 OR 7"
definition KEY_8 :: KeyCode where "KEY_8 = push_bit ROW_SHIFT 1 OR 8"
definition KEY_9 :: KeyCode where "KEY_9 = push_bit ROW_SHIFT 1 OR 9"
definition KEY_0 :: KeyCode where "KEY_0 = push_bit ROW_SHIFT 1 OR 10"
definition KEY_MINUS :: KeyCode where "KEY_MINUS = push_bit ROW_SHIFT 1 OR 11"
definition KEY_EQUALS :: KeyCode where "KEY_EQUALS = push_bit ROW_SHIFT 1 OR 12"
definition KEY_BACKSPACE :: KeyCode where "KEY_BACKSPACE = push_bit ROW_SHIFT 1 OR 13"
definition KEY_INSERT :: KeyCode where "KEY_INSERT = push_bit ROW_SHIFT 1 OR 14"
definition KEY_HOME :: KeyCode where "KEY_HOME = push_bit ROW_SHIFT 1 OR 15"
definition KEY_PAGE_UP :: KeyCode where "KEY_PAGE_UP = push_bit ROW_SHIFT 1 OR 16"
definition KEY_NUM_LOCK :: KeyCode where "KEY_NUM_LOCK = push_bit ROW_SHIFT 1 OR 17"
definition KEY_KEYPAD_SLASH :: KeyCode where "KEY_KEYPAD_SLASH = push_bit ROW_SHIFT 1 OR 18"
definition KEY_KEYPAD_ASTERISK :: KeyCode where "KEY_KEYPAD_ASTERISK = push_bit ROW_SHIFT 1 OR 19"
definition KEY_KEYPAD_MINUS :: KeyCode where "KEY_KEYPAD_MINUS = push_bit ROW_SHIFT 1 OR 20"
definition KEY_TAB :: KeyCode where "KEY_TAB = push_bit ROW_SHIFT 2 OR 0"
definition KEY_Q :: KeyCode where "KEY_Q = push_bit ROW_SHIFT 2 OR 1"
definition KEY_W :: KeyCode where "KEY_W = push_bit ROW_SHIFT 2 OR 2"
definition KEY_E :: KeyCode where "KEY_E = push_bit ROW_SHIFT 2 OR 3"
definition KEY_R :: KeyCode where "KEY_R = push_bit ROW_SHIFT 2 OR 4"
definition KEY_T :: KeyCode where "KEY_T = push_bit ROW_SHIFT 2 OR 5"
definition KEY_Y :: KeyCode where "KEY_Y = push_bit ROW_SHIFT 2 OR 6"
definition KEY_U :: KeyCode where "KEY_U = push_bit ROW_SHIFT 2 OR 7"
definition KEY_I :: KeyCode where "KEY_I = push_bit ROW_SHIFT 2 OR 8"
definition KEY_O :: KeyCode where "KEY_O = push_bit ROW_SHIFT 2 OR 9"
definition KEY_P :: KeyCode where "KEY_P = push_bit ROW_SHIFT 2 OR 10"
definition KEY_OPEN_BRACKET :: KeyCode where "KEY_OPEN_BRACKET = push_bit ROW_SHIFT 2 OR 11"
definition KEY_CLOSE_BRACKET :: KeyCode where "KEY_CLOSE_BRACKET = push_bit ROW_SHIFT 2 OR 12"
definition KEY_DELETE :: KeyCode where "KEY_DELETE = push_bit ROW_SHIFT 2 OR 14"
definition KEY_END :: KeyCode where "KEY_END = push_bit ROW_SHIFT 2 OR 15"
definition KEY_PAGE_DOWN :: KeyCode where "KEY_PAGE_DOWN = push_bit ROW_SHIFT 2 OR 16"
definition KEY_KEYPAD_7 :: KeyCode where "KEY_KEYPAD_7 = push_bit ROW_SHIFT 2 OR 17"
definition KEY_KEYPAD_8 :: KeyCode where "KEY_KEYPAD_8 = push_bit ROW_SHIFT 2 OR 18"
definition KEY_KEYPAD_9 :: KeyCode where "KEY_KEYPAD_9 = push_bit ROW_SHIFT 2 OR 19"
definition KEY_CAPS :: KeyCode where "KEY_CAPS = push_bit ROW_SHIFT 3 OR 0"
definition KEY_A :: KeyCode where "KEY_A = push_bit ROW_SHIFT 3 OR 1"
definition KEY_S :: KeyCode where "KEY_S = push_bit ROW_SHIFT 3 OR 2"
definition KEY_D :: KeyCode where "KEY_D = push_bit ROW_SHIFT 3 OR 3"
definition KEY_F :: KeyCode where "KEY_F = push_bit ROW_SHIFT 3 OR 4"
definition KEY_G :: KeyCode where "KEY_G = push_bit ROW_SHIFT 3 OR 5"
definition KEY_H :: KeyCode where "KEY_H = push_bit ROW_SHIFT 3 OR 6"
definition KEY_J :: KeyCode where "KEY_J = push_bit ROW_SHIFT 3 OR 7"
definition KEY_K :: KeyCode where "KEY_K = push_bit ROW_SHIFT 3 OR 8"
definition KEY_L :: KeyCode where "KEY_L = push_bit ROW_SHIFT 3 OR 9"
definition KEY_SEMICOLON :: KeyCode where "KEY_SEMICOLON = push_bit ROW_SHIFT 3 OR 10"
definition KEY_SINGLE_QUOTE :: KeyCode where "KEY_SINGLE_QUOTE = push_bit ROW_SHIFT 3 OR 11"
definition KEY_SHARP :: KeyCode where "KEY_SHARP = push_bit ROW_SHIFT 3 OR 12"
definition KEY_ENTER :: KeyCode where "KEY_ENTER = push_bit ROW_SHIFT 3 OR 13"
definition KEY_KEYPAD_4 :: KeyCode where "KEY_KEYPAD_4 = push_bit ROW_SHIFT 3 OR 17"
definition KEY_KEYPAD_5 :: KeyCode where "KEY_KEYPAD_5 = push_bit ROW_SHIFT 3 OR 18"
definition KEY_KEYPAD_6 :: KeyCode where "KEY_KEYPAD_6 = push_bit ROW_SHIFT 3 OR 19"
definition KEY_KEYPAD_PLUS :: KeyCode where "KEY_KEYPAD_PLUS = push_bit ROW_SHIFT 3 OR 20"
definition KEY_LSHIFT :: KeyCode where "KEY_LSHIFT = push_bit ROW_SHIFT 4 OR 0"
definition KEY_BACKSLASH :: KeyCode where "KEY_BACKSLASH = push_bit ROW_SHIFT 4 OR 1"
definition KEY_Z :: KeyCode where "KEY_Z = push_bit ROW_SHIFT 4 OR 2"
definition KEY_X :: KeyCode where "KEY_X = push_bit ROW_SHIFT 4 OR 3"
definition KEY_C :: KeyCode where "KEY_C = push_bit ROW_SHIFT 4 OR 4"
definition KEY_V :: KeyCode where "KEY_V = push_bit ROW_SHIFT 4 OR 5"
definition KEY_B :: KeyCode where "KEY_B = push_bit ROW_SHIFT 4 OR 6"
definition KEY_N :: KeyCode where "KEY_N = push_bit ROW_SHIFT 4 OR 7"
definition KEY_M :: KeyCode where "KEY_M = push_bit ROW_SHIFT 4 OR 8"
definition KEY_COMMA :: KeyCode where "KEY_COMMA = push_bit ROW_SHIFT 4 OR 9"
definition KEY_PERIOD :: KeyCode where "KEY_PERIOD = push_bit ROW_SHIFT 4 OR 10"
definition KEY_SLASH :: KeyCode where "KEY_SLASH = push_bit ROW_SHIFT 4 OR 11"
definition KEY_RSHIFT :: KeyCode where "KEY_RSHIFT = push_bit ROW_SHIFT 4 OR 13"
definition KEY_UP_ARROW :: KeyCode where "KEY_UP_ARROW = push_bit ROW_SHIFT 4 OR 15"
definition KEY_KEYPAD_1 :: KeyCode where "KEY_KEYPAD_1 = push_bit ROW_SHIFT 4 OR 17"
definition KEY_KEYPAD_2 :: KeyCode where "KEY_KEYPAD_2 = push_bit ROW_SHIFT 4 OR 18"
definition KEY_KEYPAD_3 :: KeyCode where "KEY_KEYPAD_3 = push_bit ROW_SHIFT 4 OR 19"
definition KEY_LCTRL :: KeyCode where "KEY_LCTRL = push_bit ROW_SHIFT 5 OR 0"
definition KEY_LGUI :: KeyCode where "KEY_LGUI = push_bit ROW_SHIFT 5 OR 1"
definition KEY_ALT :: KeyCode where "KEY_ALT = push_bit ROW_SHIFT 5 OR 2"
definition KEY_SPACE :: KeyCode where "KEY_SPACE = push_bit ROW_SHIFT 5 OR 3"
definition KEY_ALRGR :: KeyCode where "KEY_ALRGR = push_bit ROW_SHIFT 5 OR 10"
definition KEY_RGUI :: KeyCode where "KEY_RGUI = push_bit ROW_SHIFT 5 OR 11"
definition KEY_APPS :: KeyCode where "KEY_APPS = push_bit ROW_SHIFT 5 OR 12"
definition KEY_RCTRL :: KeyCode where "KEY_RCTRL = push_bit ROW_SHIFT 5 OR 13"
definition KEY_LEFT_ARROW :: KeyCode where "KEY_LEFT_ARROW = push_bit ROW_SHIFT 5 OR 14"
definition KEY_DOWN_ARROW :: KeyCode where "KEY_DOWN_ARROW = push_bit ROW_SHIFT 5 OR 15"
definition KEY_RIGHT_ARROW :: KeyCode where "KEY_RIGHT_ARROW = push_bit ROW_SHIFT 5 OR 16"
definition KEY_KEYPAD_0 :: KeyCode where "KEY_KEYPAD_0 = push_bit ROW_SHIFT 5 OR 17"
definition KEY_KEYPAD_PERIOD :: KeyCode where "KEY_KEYPAD_PERIOD = push_bit ROW_SHIFT 5 OR 19"
definition KEY_KEYPAD_ENTER :: KeyCode where "KEY_KEYPAD_ENTER = push_bit ROW_SHIFT 5 OR 20"
definition KEY_BREAK :: KeyCode where "KEY_BREAK = push_bit SHIFT_SHIFT 1 OR push_bit ROW_SHIFT 0 OR 16"
definition KEY_VERTICAL_LINE :: KeyCode where "KEY_VERTICAL_LINE = push_bit SHIFT_SHIFT 1 OR push_bit ROW_SHIFT 1 OR 0"
definition KEY_EXCLAMATION_MARK :: KeyCode where "KEY_EXCLAMATION_MARK = push_bit SHIFT_SHIFT 1 OR push_bit ROW_SHIFT 1 OR 1"
definition KEY_DOUBLE_QUOTE :: KeyCode where "KEY_DOUBLE_QUOTE = push_bit SHIFT_SHIFT 1 OR push_bit ROW_SHIFT 1 OR 2"
definition KEY_POUND_SIGN :: KeyCode where "KEY_POUND_SIGN = push_bit SHIFT_SHIFT 1 OR push_bit ROW_SHIFT 1 OR 3"
definition KEY_DOLLAR_SIGN :: KeyCode where "KEY_DOLLAR_SIGN = push_bit SHIFT_SHIFT 1 OR push_bit ROW_SHIFT 1 OR 4"
definition KEY_PERCENT :: KeyCode where "KEY_PERCENT = push_bit SHIFT_SHIFT 1 OR push_bit ROW_SHIFT 1 OR 5"
definition KEY_CIRCUMFLEX :: KeyCode where "KEY_CIRCUMFLEX = push_bit SHIFT_SHIFT 1 OR push_bit ROW_SHIFT 1 OR 6"
definition KEY_AMPERSAND :: KeyCode where "KEY_AMPERSAND = push_bit SHIFT_SHIFT 1 OR push_bit ROW_SHIFT 1 OR 7"
definition KEY_ASTERISK :: KeyCode where "KEY_ASTERISK = push_bit SHIFT_SHIFT 1 OR push_bit ROW_SHIFT 1 OR 8"
definition KEY_OPEN_PARENTHESIS :: KeyCode where "KEY_OPEN_PARENTHESIS = push_bit SHIFT_SHIFT 1 OR push_bit ROW_SHIFT 1 OR 9"
definition KEY_CLOSE_PARENTHESIS :: KeyCode where "KEY_CLOSE_PARENTHESIS = push_bit SHIFT_SHIFT 1 OR push_bit ROW_SHIFT 1 OR 10"
definition KEY_UNDERSCORE :: KeyCode where "KEY_UNDERSCORE = push_bit SHIFT_SHIFT 1 OR push_bit ROW_SHIFT 1 OR 11"
definition KEY_PLUS :: KeyCode where "KEY_PLUS = push_bit SHIFT_SHIFT 1 OR push_bit ROW_SHIFT 1 OR 12"
definition KEY_OPEN_CURVE :: KeyCode where "KEY_OPEN_CURVE = push_bit SHIFT_SHIFT 1 OR push_bit ROW_SHIFT 2 OR 11"
definition KEY_CLOSE_CURVE :: KeyCode where "KEY_CLOSE_CURVE = push_bit SHIFT_SHIFT 1 OR push_bit ROW_SHIFT 2 OR 12"
definition KEY_COLON :: KeyCode where "KEY_COLON = push_bit SHIFT_SHIFT 1 OR push_bit ROW_SHIFT 3 OR 10"
definition KEY_AT :: KeyCode where "KEY_AT = push_bit SHIFT_SHIFT 1 OR push_bit ROW_SHIFT 3 OR 11"
definition KEY_TILDE :: KeyCode where "KEY_TILDE = push_bit SHIFT_SHIFT 1 OR push_bit ROW_SHIFT 3 OR 12"
definition KEY_BROKEN_BAR :: KeyCode where "KEY_BROKEN_BAR = push_bit SHIFT_SHIFT 1 OR push_bit ROW_SHIFT 4 OR 1"
definition KEY_LESS_THAN :: KeyCode where "KEY_LESS_THAN = push_bit SHIFT_SHIFT 1 OR push_bit ROW_SHIFT 4 OR 9"
definition KEY_GREATER_THAN :: KeyCode where "KEY_GREATER_THAN = push_bit SHIFT_SHIFT 1 OR push_bit ROW_SHIFT 4 OR 10"
definition KEY_QUESTION_MARK :: KeyCode where "KEY_QUESTION_MARK = push_bit SHIFT_SHIFT 1 OR push_bit ROW_SHIFT 4 OR 11"

lemmas key_code_defs =
  KEY_NONE_def KEY_ESC_def KEY_F1_def KEY_F2_def KEY_F3_def KEY_F4_def KEY_F5_def KEY_F6_def KEY_F7_def KEY_F8_def
  KEY_F9_def KEY_F10_def KEY_F11_def KEY_F12_def KEY_PRTSCR_def KEY_SCROLL_LOCK_def KEY_PAUSE_def KEY_BACKTICK_def
  KEY_1_def KEY_2_def KEY_3_def KEY_4_def KEY_5_def KEY_6_def KEY_7_def KEY_8_def KEY_9_def KEY_0_def KEY_MINUS_def
  KEY_EQUALS_def KEY_BACKSPACE_def KEY_INSERT_def KEY_HOME_def KEY_PAGE_UP_def KEY_NUM_LOCK_def
  KEY_KEYPAD_SLASH_def KEY_KEYPAD_ASTERISK_def KEY_KEYPAD_MINUS_def KEY_TAB_def KEY_Q_def KEY_W_def KEY_E_def
  KEY_R_def KEY_T_def KEY_Y_def KEY_U_def KEY_I_def KEY_O_def KEY_P_def KEY_OPEN_BRACKET_def KEY_CLOSE_BRACKET_def
  KEY_DELETE_def KEY_END_def KEY_PAGE_DOWN_def KEY_KEYPAD_7_def KEY_KEYPAD_8_def KEY_KEYPAD_9_def KEY_CAPS_def
  KEY_A_def KEY_S_def KEY_D_def KEY_F_def KEY_G_def KEY_H_def KEY_J_def KEY_K_def KEY_L_def KEY_SEMICOLON_def
  KEY_SINGLE_QUOTE_def KEY_SHARP_def KEY_ENTER_def KEY_KEYPAD_4_def KEY_KEYPAD_5_def KEY_KEYPAD_6_def
  KEY_KEYPAD_PLUS_def KEY_LSHIFT_def KEY_BACKSLASH_def KEY_Z_def KEY_X_def KEY_C_def KEY_V_def KEY_B_def KEY_N_def
  KEY_M_def KEY_COMMA_def KEY_PERIOD_def KEY_SLASH_def KEY_RSHIFT_def KEY_UP_ARROW_def KEY_KEYPAD_1_def
  KEY_KEYPAD_2_def KEY_KEYPAD_3_def KEY_LCTRL_def KEY_LGUI_def KEY_ALT_def KEY_SPACE_def KEY_ALRGR_def KEY_RGUI_def
  KEY_APPS_def KEY_RCTRL_def KEY_LEFT_ARROW_def KEY_DOWN_ARROW_def KEY_RIGHT_ARROW_def KEY_KEYPAD_0_def
  KEY_KEYPAD_PERIOD_def KEY_KEYPAD_ENTER_def KEY_BREAK_def KEY_VERTICAL_LINE_def KEY_EXCLAMATION_MARK_def
  KEY_DOUBLE_QUOTE_def KEY_POUND_SIGN_def KEY_DOLLAR_SIGN_def KEY_PERCENT_def KEY_CIRCUMFLEX_def KEY_AMPERSAND_def
  KEY_ASTERISK_def KEY_OPEN_PARENTHESIS_def KEY_CLOSE_PARENTHESIS_def KEY_UNDERSCORE_def KEY_PLUS_def
  KEY_OPEN_CURVE_def KEY_CLOSE_CURVE_def KEY_COLON_def KEY_AT_def KEY_TILDE_def KEY_BROKEN_BAR_def
  KEY_LESS_THAN_def KEY_GREATER_THAN_def KEY_QUESTION_MARK_def

text \<open>Their values.\<close>

lemma key_values:
  "KEY_NONE = - 1" "KEY_ESC = 0" "KEY_F1 = 2" "KEY_F2 = 3" "KEY_F3 = 4" "KEY_F4 = 5" "KEY_F5 = 6" "KEY_F6 = 7"
  "KEY_F7 = 8" "KEY_F8 = 9" "KEY_F9 = 10" "KEY_F10 = 11" "KEY_F11 = 12" "KEY_F12 = 13" "KEY_PRTSCR = 14"
  "KEY_SCROLL_LOCK = 15" "KEY_PAUSE = 16" "KEY_BACKTICK = 64" "KEY_1 = 65" "KEY_2 = 66" "KEY_3 = 67" "KEY_4 = 68"
  "KEY_5 = 69" "KEY_6 = 70" "KEY_7 = 71" "KEY_8 = 72" "KEY_9 = 73" "KEY_0 = 74" "KEY_MINUS = 75" "KEY_EQUALS = 76"
  "KEY_BACKSPACE = 77" "KEY_INSERT = 78" "KEY_HOME = 79" "KEY_PAGE_UP = 80" "KEY_NUM_LOCK = 81"
  "KEY_KEYPAD_SLASH = 82" "KEY_KEYPAD_ASTERISK = 83" "KEY_KEYPAD_MINUS = 84" "KEY_TAB = 128" "KEY_Q = 129"
  "KEY_W = 130" "KEY_E = 131" "KEY_R = 132" "KEY_T = 133" "KEY_Y = 134" "KEY_U = 135" "KEY_I = 136" "KEY_O = 137"
  "KEY_P = 138" "KEY_OPEN_BRACKET = 139" "KEY_CLOSE_BRACKET = 140" "KEY_DELETE = 142" "KEY_END = 143"
  "KEY_PAGE_DOWN = 144" "KEY_KEYPAD_7 = 145" "KEY_KEYPAD_8 = 146" "KEY_KEYPAD_9 = 147" "KEY_CAPS = 192"
  "KEY_A = 193" "KEY_S = 194" "KEY_D = 195" "KEY_F = 196" "KEY_G = 197" "KEY_H = 198" "KEY_J = 199" "KEY_K = 200"
  "KEY_L = 201" "KEY_SEMICOLON = 202" "KEY_SINGLE_QUOTE = 203" "KEY_SHARP = 204" "KEY_ENTER = 205"
  "KEY_KEYPAD_4 = 209" "KEY_KEYPAD_5 = 210" "KEY_KEYPAD_6 = 211" "KEY_KEYPAD_PLUS = 212" "KEY_LSHIFT = 256"
  "KEY_BACKSLASH = 257" "KEY_Z = 258" "KEY_X = 259" "KEY_C = 260" "KEY_V = 261" "KEY_B = 262" "KEY_N = 263"
  "KEY_M = 264" "KEY_COMMA = 265" "KEY_PERIOD = 266" "KEY_SLASH = 267" "KEY_RSHIFT = 269" "KEY_UP_ARROW = 271"
  "KEY_KEYPAD_1 = 273" "KEY_KEYPAD_2 = 274" "KEY_KEYPAD_3 = 275" "KEY_LCTRL = 320" "KEY_LGUI = 321" "KEY_ALT = 322"
  "KEY_SPACE = 323" "KEY_ALRGR = 330" "KEY_RGUI = 331" "KEY_APPS = 332" "KEY_RCTRL = 333" "KEY_LEFT_ARROW = 334"
  "KEY_DOWN_ARROW = 335" "KEY_RIGHT_ARROW = 336" "KEY_KEYPAD_0 = 337" "KEY_KEYPAD_PERIOD = 339"
  "KEY_KEYPAD_ENTER = 340" "KEY_BREAK = 528" "KEY_VERTICAL_LINE = 576" "KEY_EXCLAMATION_MARK = 577"
  "KEY_DOUBLE_QUOTE = 578" "KEY_POUND_SIGN = 579" "KEY_DOLLAR_SIGN = 580" "KEY_PERCENT = 581"
  "KEY_CIRCUMFLEX = 582" "KEY_AMPERSAND = 583" "KEY_ASTERISK = 584" "KEY_OPEN_PARENTHESIS = 585"
  "KEY_CLOSE_PARENTHESIS = 586" "KEY_UNDERSCORE = 587" "KEY_PLUS = 588" "KEY_OPEN_CURVE = 651"
  "KEY_CLOSE_CURVE = 652" "KEY_COLON = 714" "KEY_AT = 715" "KEY_TILDE = 716" "KEY_BROKEN_BAR = 769"
  "KEY_LESS_THAN = 777" "KEY_GREATER_THAN = 778" "KEY_QUESTION_MARK = 779"
  by (simp_all add: key_code_defs ROW_SHIFT_def SHIFT_SHIFT_def)

text \<open>All enumerators.\<close>

definition key_codes :: "KeyCode list" where
  "key_codes = [
     KEY_NONE, KEY_ESC, KEY_F1, KEY_F2, KEY_F3, KEY_F4, KEY_F5, KEY_F6, KEY_F7, KEY_F8, KEY_F9, KEY_F10, KEY_F11,
     KEY_F12, KEY_PRTSCR, KEY_SCROLL_LOCK, KEY_PAUSE, KEY_BACKTICK, KEY_1, KEY_2, KEY_3, KEY_4, KEY_5, KEY_6,
     KEY_7, KEY_8, KEY_9, KEY_0, KEY_MINUS, KEY_EQUALS, KEY_BACKSPACE, KEY_INSERT, KEY_HOME, KEY_PAGE_UP,
     KEY_NUM_LOCK, KEY_KEYPAD_SLASH, KEY_KEYPAD_ASTERISK, KEY_KEYPAD_MINUS, KEY_TAB, KEY_Q, KEY_W, KEY_E, KEY_R,
     KEY_T, KEY_Y, KEY_U, KEY_I, KEY_O, KEY_P, KEY_OPEN_BRACKET, KEY_CLOSE_BRACKET, KEY_DELETE, KEY_END,
     KEY_PAGE_DOWN, KEY_KEYPAD_7, KEY_KEYPAD_8, KEY_KEYPAD_9, KEY_CAPS, KEY_A, KEY_S, KEY_D, KEY_F, KEY_G, KEY_H,
     KEY_J, KEY_K, KEY_L, KEY_SEMICOLON, KEY_SINGLE_QUOTE, KEY_SHARP, KEY_ENTER, KEY_KEYPAD_4, KEY_KEYPAD_5,
     KEY_KEYPAD_6, KEY_KEYPAD_PLUS, KEY_LSHIFT, KEY_BACKSLASH, KEY_Z, KEY_X, KEY_C, KEY_V, KEY_B, KEY_N, KEY_M,
     KEY_COMMA, KEY_PERIOD, KEY_SLASH, KEY_RSHIFT, KEY_UP_ARROW, KEY_KEYPAD_1, KEY_KEYPAD_2, KEY_KEYPAD_3,
     KEY_LCTRL, KEY_LGUI, KEY_ALT, KEY_SPACE, KEY_ALRGR, KEY_RGUI, KEY_APPS, KEY_RCTRL, KEY_LEFT_ARROW,
     KEY_DOWN_ARROW, KEY_RIGHT_ARROW, KEY_KEYPAD_0, KEY_KEYPAD_PERIOD, KEY_KEYPAD_ENTER, KEY_BREAK,
     KEY_VERTICAL_LINE, KEY_EXCLAMATION_MARK, KEY_DOUBLE_QUOTE, KEY_POUND_SIGN, KEY_DOLLAR_SIGN, KEY_PERCENT,
     KEY_CIRCUMFLEX, KEY_AMPERSAND, KEY_ASTERISK, KEY_OPEN_PARENTHESIS, KEY_CLOSE_PARENTHESIS, KEY_UNDERSCORE,
     KEY_PLUS, KEY_OPEN_CURVE, KEY_CLOSE_CURVE, KEY_COLON, KEY_AT, KEY_TILDE, KEY_BROKEN_BAR, KEY_LESS_THAN,
     KEY_GREATER_THAN, KEY_QUESTION_MARK]"

definition byte_to_code :: "KeyCode list" where
  "byte_to_code = [
     KEY_NONE, KEY_F9, KEY_NONE, KEY_F5, KEY_F3, KEY_F5, KEY_F6, KEY_F12, KEY_NONE, KEY_F10, KEY_F8, KEY_F6,
     KEY_F4, KEY_TAB, KEY_BACKTICK, KEY_NONE, KEY_NONE, KEY_ALT, KEY_LSHIFT, KEY_NONE, KEY_LCTRL, KEY_Q, KEY_1,
     KEY_NONE, KEY_NONE, KEY_NONE, KEY_Z, KEY_S, KEY_A, KEY_W, KEY_2, KEY_NONE, KEY_NONE, KEY_C, KEY_X, KEY_D,
     KEY_E, KEY_4, KEY_3, KEY_NONE, KEY_NONE, KEY_SPACE, KEY_V, KEY_F, KEY_T, KEY_R, KEY_5, KEY_NONE, KEY_NONE,
     KEY_N, KEY_B, KEY_H, KEY_G, KEY_Y, KEY_6, KEY_NONE, KEY_NONE, KEY_NONE, KEY_M, KEY_J, KEY_U, KEY_7, KEY_8,
     KEY_NONE, KEY_NONE, KEY_COMMA, KEY_K, KEY_I, KEY_O, KEY_0, KEY_9, KEY_NONE, KEY_NONE, KEY_PERIOD, KEY_SLASH,
     KEY_L, KEY_SEMICOLON, KEY_P, KEY_MINUS, KEY_NONE, KEY_NONE, KEY_NONE, KEY_SINGLE_QUOTE, KEY_NONE,
     KEY_OPEN_BRACKET, KEY_EQUALS, KEY_NONE, KEY_NONE, KEY_CAPS, KEY_RSHIFT, KEY_ENTER, KEY_CLOSE_BRACKET,
     KEY_NONE, KEY_BACKSLASH, KEY_NONE, KEY_NONE, KEY_NONE, KEY_NONE, KEY_NONE, KEY_NONE, KEY_NONE, KEY_NONE,
     KEY_BACKSPACE, KEY_NONE, KEY_NONE, KEY_KEYPAD_1, KEY_NONE, KEY_KEYPAD_4, KEY_KEYPAD_7, KEY_NONE, KEY_NONE,
     KEY_NONE, KEY_KEYPAD_0, KEY_KEYPAD_PERIOD, KEY_KEYPAD_2, KEY_KEYPAD_5, KEY_KEYPAD_6, KEY_KEYPAD_8, KEY_ESC,
     KEY_NUM_LOCK, KEY_F11, KEY_KEYPAD_PLUS, KEY_KEYPAD_3, KEY_KEYPAD_MINUS, KEY_KEYPAD_ASTERISK, KEY_KEYPAD_9,
     KEY_SCROLL_LOCK, KEY_NONE]"

section \<open>Scan code set 2\<close>

text \<open>
  The keys that send one byte, and those that send a prefix \<open>E0\<close> and a byte; released, a key sends \<open>F0\<close>
  before the (last) byte. Print screen and pause send longer sequences.
\<close>

definition plain_keys :: "(KeyCode \<times> u8) list" where
  "plain_keys = [
     (KEY_ESC, 0x76), (KEY_F1, 0x05), (KEY_F2, 0x06), (KEY_F3, 0x04), (KEY_F4, 0x0C), (KEY_F5, 0x03),
     (KEY_F6, 0x0B), (KEY_F7, 0x83), (KEY_F8, 0x0A), (KEY_F9, 0x01), (KEY_F10, 0x09), (KEY_F11, 0x78),
     (KEY_F12, 0x07), (KEY_BACKTICK, 0x0E), (KEY_1, 0x16), (KEY_2, 0x1E), (KEY_3, 0x26), (KEY_4, 0x25),
     (KEY_5, 0x2E), (KEY_6, 0x36), (KEY_7, 0x3D), (KEY_8, 0x3E), (KEY_9, 0x46), (KEY_0, 0x45), (KEY_MINUS, 0x4E),
     (KEY_EQUALS, 0x55), (KEY_BACKSPACE, 0x66), (KEY_TAB, 0x0D), (KEY_Q, 0x15), (KEY_W, 0x1D), (KEY_E, 0x24),
     (KEY_R, 0x2D), (KEY_T, 0x2C), (KEY_Y, 0x35), (KEY_U, 0x3C), (KEY_I, 0x43), (KEY_O, 0x44), (KEY_P, 0x4D),
     (KEY_OPEN_BRACKET, 0x54), (KEY_CLOSE_BRACKET, 0x5B), (KEY_BACKSLASH, 0x5D), (KEY_CAPS, 0x58), (KEY_A, 0x1C),
     (KEY_S, 0x1B), (KEY_D, 0x23), (KEY_F, 0x2B), (KEY_G, 0x34), (KEY_H, 0x33), (KEY_J, 0x3B), (KEY_K, 0x42),
     (KEY_L, 0x4B), (KEY_SEMICOLON, 0x4C), (KEY_SINGLE_QUOTE, 0x52), (KEY_ENTER, 0x5A), (KEY_LSHIFT, 0x12),
     (KEY_Z, 0x1A), (KEY_X, 0x22), (KEY_C, 0x21), (KEY_V, 0x2A), (KEY_B, 0x32), (KEY_N, 0x31), (KEY_M, 0x3A),
     (KEY_COMMA, 0x41), (KEY_PERIOD, 0x49), (KEY_SLASH, 0x4A), (KEY_RSHIFT, 0x59), (KEY_LCTRL, 0x14),
     (KEY_ALT, 0x11), (KEY_SPACE, 0x29), (KEY_NUM_LOCK, 0x77), (KEY_SCROLL_LOCK, 0x7E),
     (KEY_KEYPAD_ASTERISK, 0x7C), (KEY_KEYPAD_MINUS, 0x7B), (KEY_KEYPAD_PLUS, 0x79), (KEY_KEYPAD_0, 0x70),
     (KEY_KEYPAD_1, 0x69), (KEY_KEYPAD_2, 0x72), (KEY_KEYPAD_3, 0x7A), (KEY_KEYPAD_4, 0x6B), (KEY_KEYPAD_5, 0x73),
     (KEY_KEYPAD_6, 0x74), (KEY_KEYPAD_7, 0x6C), (KEY_KEYPAD_8, 0x75), (KEY_KEYPAD_9, 0x7D),
     (KEY_KEYPAD_PERIOD, 0x71)]"

definition extended_keys :: "(KeyCode \<times> u8) list" where
  "extended_keys = [
     (KEY_ALRGR, 0x11), (KEY_RCTRL, 0x14), (KEY_LGUI, 0x1F), (KEY_RGUI, 0x27), (KEY_APPS, 0x2F),
     (KEY_KEYPAD_SLASH, 0x4A), (KEY_KEYPAD_ENTER, 0x5A), (KEY_END, 0x69), (KEY_LEFT_ARROW, 0x6B), (KEY_HOME, 0x6C),
     (KEY_INSERT, 0x70), (KEY_DELETE, 0x71), (KEY_DOWN_ARROW, 0x72), (KEY_RIGHT_ARROW, 0x74), (KEY_UP_ARROW, 0x75),
     (KEY_PAGE_DOWN, 0x7A), (KEY_PAGE_UP, 0x7D)]"

definition press :: "KeyCode \<Rightarrow> u8 list" where
  "press k = (case map_of plain_keys k of
     Some b \<Rightarrow> [b]
   | None \<Rightarrow> (case map_of extended_keys k of
       Some b \<Rightarrow> [0xE0, b]
     | None \<Rightarrow> if k = KEY_PRTSCR then [0xE0, 0x12, 0xE0, 0x7C] else if k = KEY_PAUSE then [0xE1, 0x14, 0x77] else []))"

definition release :: "KeyCode \<Rightarrow> u8 list" where
  "release k = (case map_of plain_keys k of
     Some b \<Rightarrow> [0xF0, b]
   | None \<Rightarrow> (case map_of extended_keys k of
       Some b \<Rightarrow> [0xE0, 0xF0, b]
     | None \<Rightarrow> if k = KEY_PRTSCR then [0xE0, 0xF0, 0x7C, 0xE0, 0xF0, 0x12]
         else if k = KEY_PAUSE then [0xE1, 0xF0, 0x14, 0xF0, 0x77] else []))"

definition keyboard_keys :: "KeyCode list" where
  "keyboard_keys = map fst plain_keys @ map fst extended_keys @ [KEY_PRTSCR, KEY_PAUSE]"

section \<open>Lemmas\<close>

lemma byte_to_code_length: "length byte_to_code = BYTE_TO_CODE_SIZE"
  by (simp add: byte_to_code_def BYTE_TO_CODE_SIZE_def)

text \<open>No two enumerators have the same value.\<close>

lemma key_codes_distinct: "distinct key_codes"
  by (simp add: key_codes_def key_values)

lemma byte_to_code_key: "i < BYTE_TO_CODE_SIZE \<Longrightarrow> byte_to_code ! i \<in> set key_codes"
proof -
  assume "i < BYTE_TO_CODE_SIZE"
  then have "byte_to_code ! i \<in> set byte_to_code" by (simp add: byte_to_code_length)
  also have "set byte_to_code \<subseteq> set key_codes" by (simp add: byte_to_code_def key_codes_def)
  finally show ?thesis .
qed

end
