(* ===== verification/Ps2Keyboard.thy ===== *)
theory Ps2Keyboard
  imports Ps2Device Ps2Keys
begin

text \<open>
  \<^verbatim>\<open>src/drivers/ps2/ps2_keyboard.c\<close>: setting a keyboard up through the command queue of its channel,
  and the interrupt handler that acknowledges commands and decodes scan codes into keys. The
  static variables of the handler are the record \<open>keyboard\<close>. \<open>send_break_key\<close> does nothing.
\<close>

section \<open>Commands\<close>

datatype PS2KeyboardCommand =
    SET_LED | ECHO | SET_SCAN_CODE_SET | IDENTIFY | SET_TYPEMATIC_RATE_DELAY | ENABLE_SCAN | DISABLE_SCAN |
    SET_DEFAULT | SET_ALL_KEYS_TYPEMATIC | SET_ALL_KEYS_MAKE_RELEASE | SET_ALL_KEYS_MAKE |
    SET_ALL_KEYS_TYPEMATIC_MAKE_RELEASE | SET_KEY_TYPEMATIC | SET_KEY_MAKE_RELEASE | SET_KEY_MAKE | RESEND | RESET

fun PS2KeyboardCommand_code :: "PS2KeyboardCommand \<Rightarrow> u8" where
  "PS2KeyboardCommand_code SET_LED = 0xED"
| "PS2KeyboardCommand_code ECHO = 0xEE"
| "PS2KeyboardCommand_code SET_SCAN_CODE_SET = 0xF0"
| "PS2KeyboardCommand_code IDENTIFY = 0xF2"
| "PS2KeyboardCommand_code SET_TYPEMATIC_RATE_DELAY = 0xF3"
| "PS2KeyboardCommand_code ENABLE_SCAN = 0xF4"
| "PS2KeyboardCommand_code DISABLE_SCAN = 0xF5"
| "PS2KeyboardCommand_code SET_DEFAULT = 0xF6"
| "PS2KeyboardCommand_code SET_ALL_KEYS_TYPEMATIC = 0xF7"
| "PS2KeyboardCommand_code SET_ALL_KEYS_MAKE_RELEASE = 0xF8"
| "PS2KeyboardCommand_code SET_ALL_KEYS_MAKE = 0xF9"
| "PS2KeyboardCommand_code SET_ALL_KEYS_TYPEMATIC_MAKE_RELEASE = 0xFA"
| "PS2KeyboardCommand_code SET_KEY_TYPEMATIC = 0xFB"
| "PS2KeyboardCommand_code SET_KEY_MAKE_RELEASE = 0xFC"
| "PS2KeyboardCommand_code SET_KEY_MAKE = 0xFD"
| "PS2KeyboardCommand_code RESEND = 0xFE"
| "PS2KeyboardCommand_code RESET = 0xFF"

datatype TypematicDelay = DELAY_1_4_SECOND | DELAY_1_2_SECOND | DELAY_3_4_SECOND | DELAY_1_SECOND

fun TypematicDelay_code :: "TypematicDelay \<Rightarrow> u8" where
  "TypematicDelay_code DELAY_1_4_SECOND = 0"
| "TypematicDelay_code DELAY_1_2_SECOND = push_bit 5 1"
| "TypematicDelay_code DELAY_3_4_SECOND = push_bit 5 2"
| "TypematicDelay_code DELAY_1_SECOND = push_bit 5 3"

datatype TypematicRepeatRate =
    RATE_30_0_HZ | RATE_26_7_HZ | RATE_24_0_HZ | RATE_21_8_HZ | RATE_20_7_HZ | RATE_18_5_HZ | RATE_17_1_HZ |
    RATE_16_0_HZ | RATE_15_0_HZ | RATE_13_3_HZ | RATE_12_0_HZ | RATE_10_9_HZ | RATE_10_0_HZ | RATE_9_2_HZ |
    RATE_8_6_HZ | RATE_8_0_HZ | RATE_7_5_HZ | RATE_6_7_HZ | RATE_6_0_HZ | RATE_5_5_HZ | RATE_5_0_HZ | RATE_4_6_HZ |
    RATE_4_3_HZ | RATE_4_0_HZ | RATE_3_7_HZ | RATE_3_3_HZ | RATE_3_0_HZ | RATE_2_7_HZ | RATE_2_5_HZ | RATE_2_3_HZ |
    RATE_2_1_HZ | RATE_2_0_HZ

fun TypematicRepeatRate_code :: "TypematicRepeatRate \<Rightarrow> u8" where
  "TypematicRepeatRate_code RATE_30_0_HZ = 0x00"
| "TypematicRepeatRate_code RATE_26_7_HZ = 0x01"
| "TypematicRepeatRate_code RATE_24_0_HZ = 0x02"
| "TypematicRepeatRate_code RATE_21_8_HZ = 0x03"
| "TypematicRepeatRate_code RATE_20_7_HZ = 0x04"
| "TypematicRepeatRate_code RATE_18_5_HZ = 0x05"
| "TypematicRepeatRate_code RATE_17_1_HZ = 0x06"
| "TypematicRepeatRate_code RATE_16_0_HZ = 0x07"
| "TypematicRepeatRate_code RATE_15_0_HZ = 0x08"
| "TypematicRepeatRate_code RATE_13_3_HZ = 0x09"
| "TypematicRepeatRate_code RATE_12_0_HZ = 0x0A"
| "TypematicRepeatRate_code RATE_10_9_HZ = 0x0B"
| "TypematicRepeatRate_code RATE_10_0_HZ = 0x0C"
| "TypematicRepeatRate_code RATE_9_2_HZ = 0x0D"
| "TypematicRepeatRate_code RATE_8_6_HZ = 0x0E"
| "TypematicRepeatRate_code RATE_8_0_HZ = 0x0F"
| "TypematicRepeatRate_code RATE_7_5_HZ = 0x10"
| "TypematicRepeatRate_code RATE_6_7_HZ = 0x11"
| "TypematicRepeatRate_code RATE_6_0_HZ = 0x12"
| "TypematicRepeatRate_code RATE_5_5_HZ = 0x13"
| "TypematicRepeatRate_code RATE_5_0_HZ = 0x14"
| "TypematicRepeatRate_code RATE_4_6_HZ = 0x15"
| "TypematicRepeatRate_code RATE_4_3_HZ = 0x16"
| "TypematicRepeatRate_code RATE_4_0_HZ = 0x17"
| "TypematicRepeatRate_code RATE_3_7_HZ = 0x18"
| "TypematicRepeatRate_code RATE_3_3_HZ = 0x19"
| "TypematicRepeatRate_code RATE_3_0_HZ = 0x1A"
| "TypematicRepeatRate_code RATE_2_7_HZ = 0x1B"
| "TypematicRepeatRate_code RATE_2_5_HZ = 0x1C"
| "TypematicRepeatRate_code RATE_2_3_HZ = 0x1D"
| "TypematicRepeatRate_code RATE_2_1_HZ = 0x1E"
| "TypematicRepeatRate_code RATE_2_0_HZ = 0x1F"

datatype ScanCodeArgument = SCAN_CODE_GET | SCAN_CODE_SET_1 | SCAN_CODE_SET_2 | SCAN_CODE_SET_3

fun ScanCodeArgument_code :: "ScanCodeArgument \<Rightarrow> u8" where
  "ScanCodeArgument_code SCAN_CODE_GET = 0"
| "ScanCodeArgument_code SCAN_CODE_SET_1 = 1"
| "ScanCodeArgument_code SCAN_CODE_SET_2 = 2"
| "ScanCodeArgument_code SCAN_CODE_SET_3 = 3"

datatype LedStates = LED_OFF | SCROLL_LOCK | NUM_LOCK | CAPS_LOCK

fun LedStates_code :: "LedStates \<Rightarrow> u8" where
  "LedStates_code LED_OFF = 0x0"
| "LedStates_code SCROLL_LOCK = 0x1"
| "LedStates_code NUM_LOCK = 0x2"
| "LedStates_code CAPS_LOCK = 0x4"

text \<open>The commands \<open>init_ps2_keyboard\<close> queues, in its order.\<close>

definition keyboard_setup :: "u8 list" where
  "keyboard_setup =
     [PS2KeyboardCommand_code SET_LED, LedStates_code LED_OFF,
      PS2KeyboardCommand_code SET_SCAN_CODE_SET, ScanCodeArgument_code SCAN_CODE_SET_2,
      PS2KeyboardCommand_code SET_TYPEMATIC_RATE_DELAY, TypematicDelay_code DELAY_1_2_SECOND OR TypematicRepeatRate_code RATE_30_0_HZ,
      PS2KeyboardCommand_code ENABLE_SCAN]"

definition init_ps2_keyboard :: "'d bus \<Rightarrow> 'd clock \<Rightarrow> u32 \<Rightarrow> u8 \<Rightarrow> 'd \<times> interrupts \<times> ps2 \<Rightarrow> ('d \<times> interrupts \<times> ps2) option" where
  "init_ps2_keyboard B C keyboard_handler_address channel s =
     (let (d, ints, p) = s in do {
        (d, ints) \<leftarrow> (if channel \<noteq> 0
          then do {
            d \<leftarrow> ps2_send_command B ENABLE_CHANNEL1 d;
            Some (d, set_interrupt_handler MOUSE_VECTOR INTERRUPT_GATE KERNEL_PL keyboard_handler_address ints)
          }
          else do {
            d \<leftarrow> ps2_send_command B ENABLE_CHANNEL0 d;
            Some (d, set_interrupt_handler KEYBOARD_VECTOR INTERRUPT_GATE KERNEL_PL keyboard_handler_address ints)
          });
        let p = fold (ps2_device_enqueue_command channel) keyboard_setup p;
        let d = (if channel \<noteq> 0 then enable_io_devices B MOUSE d else enable_io_devices B KEYBOARD d);
        d \<leftarrow> ps2_device_send_topqueue B C channel p d;
        Some (d, ints, p)
      })"

section \<open>Keys\<close>

text \<open>The cases of \<open>send_make_key\<close>, in the order of its \<open>switch\<close>: those that give \<open>c\<close> a value, and those that return.\<close>

definition digit_characters :: "(KeyCode \<times> char) list" where
  "digit_characters = [
     (KEY_1, CHR ''1''), (KEY_KEYPAD_1, CHR ''1''), (KEY_2, CHR ''2''), (KEY_KEYPAD_2, CHR ''2''),
     (KEY_3, CHR ''3''), (KEY_KEYPAD_3, CHR ''3''), (KEY_4, CHR ''4''), (KEY_KEYPAD_4, CHR ''4''),
     (KEY_5, CHR ''5''), (KEY_KEYPAD_5, CHR ''5''), (KEY_6, CHR ''6''), (KEY_KEYPAD_6, CHR ''6''),
     (KEY_7, CHR ''7''), (KEY_KEYPAD_7, CHR ''7''), (KEY_8, CHR ''8''), (KEY_KEYPAD_8, CHR ''8''),
     (KEY_9, CHR ''9''), (KEY_KEYPAD_9, CHR ''9''), (KEY_0, CHR ''0''), (KEY_KEYPAD_PLUS, CHR ''+''),
     (KEY_KEYPAD_MINUS, CHR ''-''), (KEY_MINUS, CHR ''-''), (KEY_EQUALS, CHR ''=''), (KEY_KEYPAD_SLASH, CHR ''/''),
     (KEY_KEYPAD_ASTERISK, CHR ''*'')]"

definition letter_characters :: "(KeyCode \<times> char) list" where
  "letter_characters = [
     (KEY_Q, CHR ''q''), (KEY_W, CHR ''w''), (KEY_E, CHR ''e''),
     (KEY_R, CHR ''r''), (KEY_T, CHR ''t''), (KEY_Y, CHR ''y''), (KEY_U, CHR ''u''), (KEY_I, CHR ''i''),
     (KEY_O, CHR ''o''), (KEY_P, CHR ''p''), (KEY_OPEN_BRACKET, CHR ''[''), (KEY_CLOSE_BRACKET, CHR '']''),
     (KEY_A, CHR ''a''), (KEY_S, CHR ''s''), (KEY_D, CHR ''d''), (KEY_F, CHR ''f''), (KEY_G, CHR ''g''),
     (KEY_H, CHR ''h''), (KEY_J, CHR ''j''), (KEY_K, CHR ''k''), (KEY_L, CHR ''l''), (KEY_SEMICOLON, CHR '';''),
     (KEY_SINGLE_QUOTE, CHR 0x27), (KEY_SHARP, CHR ''#''), (KEY_BACKSLASH, CHR 0x5C), (KEY_Z, CHR ''z''),
     (KEY_X, CHR ''x''), (KEY_C, CHR ''c''), (KEY_V, CHR ''v''), (KEY_B, CHR ''b''), (KEY_N, CHR ''n''),
     (KEY_M, CHR ''m''), (KEY_COMMA, CHR '',''), (KEY_PERIOD, CHR ''.''), (KEY_SLASH, CHR ''/'')]"

definition control_characters :: "(KeyCode \<times> char) list" where
  "control_characters = [
     (KEY_SPACE, CHR '' ''), (KEY_BACKSPACE, CHR 0x08), (KEY_BACKTICK, CHR 0x60), (KEY_ENTER, CHR ''\<newline>''),
     (KEY_KEYPAD_ENTER, CHR ''\<newline>'')]"

definition key_characters :: "(KeyCode \<times> char) list" where
  "key_characters = digit_characters @ letter_characters @ control_characters"

definition silent_keys :: "KeyCode list" where
  "silent_keys = [KEY_CAPS, KEY_LSHIFT, KEY_RSHIFT, KEY_ESC, KEY_APPS, KEY_UP_ARROW, KEY_LEFT_ARROW, KEY_RIGHT_ARROW,
     KEY_F1, KEY_F2, KEY_F3, KEY_F4, KEY_F5, KEY_F6, KEY_F7, KEY_F8, KEY_F9, KEY_F10, KEY_F11, KEY_F12,
     KEY_PRTSCR, KEY_SCROLL_LOCK, KEY_PAUSE, KEY_INSERT, KEY_HOME, KEY_PAGE_UP, KEY_NUM_LOCK, KEY_TAB,
     KEY_DELETE, KEY_END, KEY_PAGE_DOWN, KEY_NONE]"

definition send_make_key :: "KeyCode \<Rightarrow> tty \<Rightarrow> tty option" where
  "send_make_key code t =
     (if code \<in> set silent_keys then Some t
      else case map_of key_characters code of
        None \<Rightarrow> Some t
      | Some c \<Rightarrow> do {
          (_, t) \<leftarrow> cputc (ucast (ch c)) t;
          cflush t
        })"

definition send_break_key :: "KeyCode \<Rightarrow> tty \<Rightarrow> tty" where
  "send_break_key code t = t"

section \<open>The interrupt handler\<close>

record keyboard =
  fail_count :: u8
  bytes_to_receive :: u8
  fullcode :: u32
  kb_flags :: u8

definition keyboard_initial :: keyboard where
  "keyboard_initial = \<lparr>fail_count = 0, bytes_to_receive = 0, fullcode = 0, kb_flags = 0\<rparr>"

definition BREAK_FLAG :: u8 where "BREAK_FLAG = 0x1"
definition EXT_0_FLAG :: u8 where "EXT_0_FLAG = 0x2"
definition EXT_1_FLAG :: u8 where "EXT_1_FLAG = 0x4"

text \<open>The inner \<open>switch\<close>, apart from its two codes that \<open>return\<close>.\<close>

definition extended_codes :: "(u32 \<times> KeyCode) list" where
  "extended_codes = [
     (0x11, KEY_ALRGR), (0x14, KEY_RCTRL), (0x1F, KEY_LGUI), (0x27, KEY_RGUI), (0x2F, KEY_APPS),
     (0x4A, KEY_KEYPAD_SLASH), (0x5A, KEY_KEYPAD_ENTER), (0x69, KEY_END), (0x6B, KEY_LEFT_ARROW), (0x6C, KEY_HOME),
     (0x70, KEY_INSERT), (0x71, KEY_DELETE), (0x72, KEY_DOWN_ARROW), (0x74, KEY_RIGHT_ARROW), (0x75, KEY_UP_ARROW),
     (0x7A, KEY_PAGE_DOWN), (0x7D, KEY_PAGE_UP), (0x127C, KEY_PRTSCR), (0x7C12, KEY_PRTSCR)]"

definition extended_keycode :: "u32 \<Rightarrow> KeyCode option" where
  "extended_keycode c =
     (if c = 0x12 \<or> c = 0x7C then None
      else Some (case map_of extended_codes c of Some k \<Rightarrow> k | None \<Rightarrow> KEY_NONE))"

text \<open>
  The \<open>default\<close> case: the new state and, unless it returns early, the key with \<open>True\<close> for its release.
\<close>

definition keyboard_default :: "u8 \<Rightarrow> keyboard \<Rightarrow> keyboard \<times> (bool \<times> KeyCode) option" where
  "keyboard_default code k =
     (let k = k\<lparr>fullcode := push_bit 8 (fullcode k) OR ucast code\<rparr>;
          k = (if bytes_to_receive k \<noteq> 0 then k\<lparr>bytes_to_receive := bytes_to_receive k - 1\<rparr> else k)
      in if bytes_to_receive k \<noteq> 0 then (k, None)
         else case (if kb_flags k AND EXT_1_FLAG \<noteq> 0 then Some (if fullcode k = 0x1477 then KEY_PAUSE else KEY_NONE)
                    else if kb_flags k AND EXT_0_FLAG \<noteq> 0 then extended_keycode (fullcode k)
                    else Some (if unat code < BYTE_TO_CODE_SIZE then byte_to_code ! unat code else KEY_NONE)) of
                None \<Rightarrow> (k, None)
              | Some keycode \<Rightarrow> (k\<lparr>kb_flags := 0, fullcode := 0\<rparr>, Some (kb_flags k AND 0x01 \<noteq> 0, keycode)))"

text \<open>The bytes that are not answers to commands: prefixes, and the \<open>default\<close> case.\<close>

definition keyboard_scan :: "u8 \<Rightarrow> keyboard \<Rightarrow> keyboard \<times> (bool \<times> KeyCode) option" where
  "keyboard_scan code k =
     (if code = 0xF0 then (k\<lparr>kb_flags := kb_flags k OR BREAK_FLAG\<rparr>, None)
      else if code = 0xE0 then (k\<lparr>kb_flags := kb_flags k OR EXT_0_FLAG\<rparr>, None)
      else if code = 0xE1 then (k\<lparr>kb_flags := kb_flags k OR EXT_1_FLAG, bytes_to_receive := 2\<rparr>, None)
      else keyboard_default code k)"

definition keyboard_handler :: "'d bus \<Rightarrow> 'd clock \<Rightarrow> (string \<Rightarrow> u32) \<Rightarrow> Context \<Rightarrow> 'd \<times> ps2 \<times> keyboard \<times> tty \<Rightarrow> ('d \<times> ps2 \<times> keyboard \<times> tty) option" where
  "keyboard_handler B C lit ctx s =
     (let (d, p, k, t) = s;
          channel = (if vector ctx = KEYBOARD_VECTOR then 0 else 1);
          (code, d) = inb B PS2_DATA_PORT d
      in if code = ACK
         then do {
           let p = ps2_device_queue_pop channel p;
           d \<leftarrow> ps2_device_send_topqueue B C channel p d;
           Some (d, p, k\<lparr>fail_count := 0\<rparr>, t)
         }
         else if code = RSD
         then let k = k\<lparr>fail_count := fail_count k + 1\<rparr> in
              if fail_count k = COMMAND_RESEND_THRESHOLD
              then do {
                t \<leftarrow> WARNING lit ''PS/2 channel %d: Resend threshold hit. Command %#02X''
                  [ucast channel, ucast (ps2_device_queue_top channel p)] t;
                Some (d, ps2_device_queue_pop channel p, k, t)
              }
              else do {
                d \<leftarrow> ps2_device_send_topqueue B C channel p d;
                Some (d, p, k, t)
              }
         else let (k, event) = keyboard_scan code k in
              case event of
                Some (False, keycode) \<Rightarrow> do {
                  t \<leftarrow> send_make_key keycode t;
                  Some (d, p, k, t)
                }
              | Some (True, keycode) \<Rightarrow> Some (d, p, k, send_break_key keycode t)
              | None \<Rightarrow> Some (d, p, k, t))"

section \<open>Lemmas: scanning\<close>

lemmas flag_defs = BREAK_FLAG_def EXT_0_FLAG_def EXT_1_FLAG_def

definition kb_idle :: "keyboard \<Rightarrow> bool" where
  "kb_idle k \<longleftrightarrow> bytes_to_receive k = 0 \<and> fullcode k = 0 \<and> kb_flags k = 0"

text \<open>A sequence of bytes, and the keys it reports.\<close>

fun keyboard_scans :: "u8 list \<Rightarrow> keyboard \<Rightarrow> keyboard \<times> (bool \<times> KeyCode) list" where
  "keyboard_scans [] k = (k, [])"
| "keyboard_scans (b # bs) k =
     (let (k, e) = keyboard_scan b k; (k, es) = keyboard_scans bs k in (k, (case e of None \<Rightarrow> [] | Some x \<Rightarrow> [x]) @ es))"

text \<open>The bytes that start with \<open>E\<close> or \<open>F\<close> are not scan codes of keys.\<close>

definition scan_code :: "u8 \<Rightarrow> bool" where
  "scan_code b \<longleftrightarrow> b \<noteq> 0xF0 \<and> b \<noteq> 0xE0 \<and> b \<noteq> 0xE1"

lemma keyboard_scan_code: "scan_code b \<Longrightarrow> keyboard_scan b k = keyboard_default b k"
  by (simp add: keyboard_scan_def scan_code_def)

lemma plain_key_scan:
  assumes "kb_idle k" "scan_code b" "unat b < 128"
  shows "keyboard_scans [b] k = (k, [(False, byte_to_code ! unat b)])"
    "keyboard_scans [0xF0, b] k = (k, [(True, byte_to_code ! unat b)])"
  using assms by (simp_all add: keyboard_scan_code keyboard_default_def kb_idle_def BYTE_TO_CODE_SIZE_def flag_defs Let_def keyboard_scan_def [of "0xF0"])

lemma extended_key_scan:
  assumes "kb_idle k" "scan_code b" "extended_keycode (ucast b) = Some c"
  shows "keyboard_scans [0xE0, b] k = (k, [(False, c)])" "keyboard_scans [0xE0, 0xF0, b] k = (k, [(True, c)])"
  using assms by (simp_all add: keyboard_scan_code keyboard_default_def kb_idle_def flag_defs Let_def
      keyboard_scan_def [of "0xE0"] keyboard_scan_def [of "0xF0"])

lemma plain_keys_table:
  "\<forall>(k, b) \<in> set plain_keys. k \<in> {KEY_F1, KEY_F2, KEY_F7} \<or> scan_code b \<and> unat b < 128 \<and> byte_to_code ! unat b = k"
  unfolding plain_keys_def byte_to_code_def by (simp add: scan_code_def)

lemma extended_keys_table:
  "\<forall>(k, b) \<in> set extended_keys. scan_code b \<and> extended_keycode (ucast b) = Some k"
  unfolding extended_keys_def by (simp add: scan_code_def extended_keycode_def extended_codes_def)

lemma keyboard_keys_distinct: "distinct keyboard_keys"
  unfolding keyboard_keys_def plain_keys_def extended_keys_def by (simp add: key_values)

lemma press_plain:
  assumes "(k, b) \<in> set plain_keys"
  shows "press k = [b]" "release k = [0xF0, b]"
proof -
  have "distinct (map fst plain_keys)" using keyboard_keys_distinct by (simp add: keyboard_keys_def)
  then have "map_of plain_keys k = Some b" using assms by (rule map_of_is_SomeI)
  then show "press k = [b]" "release k = [0xF0, b]" by (simp_all add: press_def release_def)
qed

lemma press_extended:
  assumes "(k, b) \<in> set extended_keys"
  shows "press k = [0xE0, b]" "release k = [0xE0, 0xF0, b]"
proof -
  have d: "distinct (map fst extended_keys)" "fst ` set plain_keys \<inter> fst ` set extended_keys = {}"
    using keyboard_keys_distinct by (auto simp: keyboard_keys_def)
  have "map_of extended_keys k = Some b" using d(1) assms by (rule map_of_is_SomeI)
  moreover have "map_of plain_keys k = None" using d(2) assms by (force simp: map_of_eq_None_iff)
  ultimately show "press k = [0xE0, b]" "release k = [0xE0, 0xF0, b]" by (simp_all add: press_def release_def)
qed

lemma press_special:
  "press KEY_PRTSCR = [0xE0, 0x12, 0xE0, 0x7C]" "release KEY_PRTSCR = [0xE0, 0xF0, 0x7C, 0xE0, 0xF0, 0x12]"
  "press KEY_PAUSE = [0xE1, 0x14, 0x77]" "release KEY_PAUSE = [0xE1, 0xF0, 0x14, 0xF0, 0x77]"
proof -
  have "KEY_PRTSCR \<notin> fst ` set plain_keys" "KEY_PRTSCR \<notin> fst ` set extended_keys"
    "KEY_PAUSE \<notin> fst ` set plain_keys" "KEY_PAUSE \<notin> fst ` set extended_keys" "KEY_PAUSE \<noteq> KEY_PRTSCR"
    using keyboard_keys_distinct by (auto simp: keyboard_keys_def)
  then show "press KEY_PRTSCR = [0xE0, 0x12, 0xE0, 0x7C]" "release KEY_PRTSCR = [0xE0, 0xF0, 0x7C, 0xE0, 0xF0, 0x12]"
    "press KEY_PAUSE = [0xE1, 0x14, 0x77]" "release KEY_PAUSE = [0xE1, 0xF0, 0x14, 0xF0, 0x77]"
    by (simp_all add: press_def release_def map_of_eq_None_iff [THEN iffD2])
qed

lemma special_key_scan:
  assumes "kb_idle k"
  shows "keyboard_scans [0xE0, 0x12, 0xE0, 0x7C] k = (k, [(False, KEY_PRTSCR)])"
    "keyboard_scans [0xE0, 0xF0, 0x7C, 0xE0, 0xF0, 0x12] k = (k, [(True, KEY_PRTSCR)])"
    "keyboard_scans [0xE1, 0x14, 0x77] k = (k, [(False, KEY_PAUSE)])"
    "keyboard_scans [0xE1, 0xF0, 0x14, 0xF0, 0x77] k = (k, [(True, KEY_PAUSE)])"
  using assms by (simp_all add: keyboard_scan_def keyboard_default_def kb_idle_def flag_defs extended_keycode_def extended_codes_def Let_def)

section \<open>Lemmas: the states of the decoder\<close>

text \<open>What every byte keeps: at most two bytes to receive, and those only after \<open>E1\<close>.\<close>

definition kb_ok :: "keyboard \<Rightarrow> bool" where
  "kb_ok k \<longleftrightarrow> unat (bytes_to_receive k) \<le> 2 \<and> (bytes_to_receive k \<noteq> 0 \<longrightarrow> bit (kb_flags k) 2)"

lemma EXT_1_bit: "f AND EXT_1_FLAG \<noteq> 0 \<longleftrightarrow> bit f 2"
proof -
  have "EXT_1_FLAG = 2 ^ 2" by (simp add: EXT_1_FLAG_def)
  then show ?thesis using and_exp_eq_0_iff_not_bit [of f 2] by simp
qed

lemma extended_keycode_key:
  assumes "extended_keycode c = Some x"
  shows "x \<in> set key_codes"
proof (cases "map_of extended_codes c")
  case None
  then show ?thesis using assms by (auto simp: extended_keycode_def key_codes_def split: if_splits)
next
  case (Some y)
  then have "x = y" "(c, y) \<in> set extended_codes"
    using assms by (auto simp: extended_keycode_def split: if_splits dest: map_of_SomeD)
  moreover have "snd ` set extended_codes \<subseteq> set key_codes" by (simp add: extended_codes_def key_codes_def)
  ultimately show ?thesis by force
qed

text \<open>The \<open>default\<close> case reports a key of the enumeration and goes idle, or reports nothing.\<close>

lemma keyboard_default_cases:
  assumes "keyboard_default b k = (k', e)" "kb_ok k"
  obtains (key) r c where "e = Some (r, c)" "c \<in> set key_codes" "kb_idle k'"
    | (more) "e = None" "bytes_to_receive k = 2" "bytes_to_receive k' = 1" "kb_flags k' = kb_flags k"
    | (fake) "e = None" "bytes_to_receive k' = 0" "fullcode k' \<in> {0x12, 0x7C}" "fullcode k' = push_bit 8 (fullcode k) OR ucast b"
      "kb_flags k' = kb_flags k" "\<not> bit (kb_flags k) 2"
proof -
  define f where "f = push_bit 8 (fullcode k) OR ucast b"
  define n where "n = (if bytes_to_receive k \<noteq> 0 then bytes_to_receive k - 1 else 0)"
  have k1: "(if bytes_to_receive k \<noteq> 0 then k\<lparr>fullcode := f, bytes_to_receive := bytes_to_receive k - 1\<rparr> else k\<lparr>fullcode := f\<rparr>)
      = k\<lparr>fullcode := f, bytes_to_receive := n\<rparr>" by (auto simp: n_def)
  define key where "key = (if bit (kb_flags k) 2 then Some (if f = 0x1477 then KEY_PAUSE else KEY_NONE)
      else if kb_flags k AND EXT_0_FLAG \<noteq> 0 then extended_keycode f
      else Some (if unat b < BYTE_TO_CODE_SIZE then byte_to_code ! unat b else KEY_NONE))"
  have r: "keyboard_default b k = (if n \<noteq> 0 then (k\<lparr>fullcode := f, bytes_to_receive := n\<rparr>, None)
      else case key of None \<Rightarrow> (k\<lparr>fullcode := f, bytes_to_receive := n\<rparr>, None)
        | Some c \<Rightarrow> (k\<lparr>fullcode := 0, bytes_to_receive := n, kb_flags := 0\<rparr>, Some (kb_flags k AND 0x01 \<noteq> 0, c)))"
    unfolding keyboard_default_def Let_def by (auto simp: f_def [symmetric] n_def key_def EXT_1_bit split: option.split)
  have n2: "bytes_to_receive k = 2 \<and> n = 1" if "n \<noteq> 0"
  proof -
    have "unat (bytes_to_receive k) = 2"
      using assms(2) that by (auto simp: kb_ok_def n_def word_unat_eq_iff unat_minus_one split: if_splits)
    then have "bytes_to_receive k = 2" by (simp add: word_unat_eq_iff)
    then show ?thesis by (simp add: n_def)
  qed
  have declared: "x \<in> set key_codes" if "key = Some x" for x
    using that extended_keycode_key [of f x] byte_to_code_key [of "unat b"]
    by (auto simp: key_def key_codes_def split: if_splits)
  show ?thesis
  proof (cases "n = 0")
    case False
    then show ?thesis using n2 r assms(1) by (intro more) auto
  next
    case True
    show ?thesis
    proof (cases key)
      case None
      then have "f \<in> {0x12, 0x7C}" "\<not> bit (kb_flags k) 2" by (auto simp: key_def extended_keycode_def split: if_splits)
      then show ?thesis using None True r assms(1) f_def by (intro fake) auto
    next
      case (Some c)
      then show ?thesis using declared True r assms(1) by (intro key) (auto simp: kb_idle_def)
    qed
  qed
qed

lemma keyboard_default_ok:
  assumes "keyboard_default b k = (k', e)" "kb_ok k"
  shows "kb_ok k'"
  using assms
proof (cases rule: keyboard_default_cases)
  case more
  then show ?thesis using assms(2) by (simp add: kb_ok_def)
qed (auto simp: kb_ok_def kb_idle_def)

section \<open>Lemmas: the command queue and the handler\<close>

fun keyboard_interrupts :: "'d bus \<Rightarrow> 'd clock \<Rightarrow> (string \<Rightarrow> u32) \<Rightarrow> Context \<Rightarrow> nat \<Rightarrow> 'd \<times> ps2 \<times> keyboard \<times> tty \<Rightarrow> ('d \<times> ps2 \<times> keyboard \<times> tty) option" where
  "keyboard_interrupts B C lit ctx 0 s = Some s"
| "keyboard_interrupts B C lit ctx (Suc n) s = keyboard_handler B C lit ctx s \<bind> keyboard_interrupts B C lit ctx n"

lemma send_topqueue_script:
  assumes "queue_ok 0 p" "pending_commands 0 p = x # rest"
  shows "ps2_device_send_topqueue log_bus (still_clock now) 0 p (ws, script w (Sent # xs)) = Some ((0x60, x) # ws, script (\<lambda>k. w (Suc k)) xs)"
proof -
  have "\<not> queue_empty 0 p" "ps2_device_queue_top 0 p = x"
    using channel_queue.empty_pending [OF assms(1)] channel_queue.top_pending [OF assms(1)] assms(2) by simp_all
  then show ?thesis by (simp add: ps2_device_send_topqueue_def ps2_device_queue_top_def)
qed

lemma send_topqueue_empty:
  "queue_ok chan p \<Longrightarrow> pending_commands chan p = [] \<Longrightarrow> ps2_device_send_topqueue B C chan p d = Some d"
  using channel_queue.empty_pending by (simp add: ps2_device_send_topqueue_def)

text \<open>An acknowledgement takes the command off the queue and sends the next.\<close>

lemma keyboard_ack:
  assumes "queue_ok 0 p" "pending_commands 0 p = x # y # rest" "vector ctx = KEYBOARD_VECTOR"
  shows "keyboard_handler log_bus (still_clock now) lit ctx ((ws, script w (Taken ACK # Sent # xs)), p, k, t)
    = Some (((0x60, y) # ws, script (\<lambda>k. w (k + 2)) xs), ps2_device_queue_pop 0 p, k\<lparr>fail_count := 0\<rparr>, t)"
proof -
  have q: "queue_ok 0 (ps2_device_queue_pop 0 p)" "pending_commands 0 (ps2_device_queue_pop 0 p) = y # rest"
    using assms(1,2) channel_queue.pop_ok channel_queue.pop_pending by auto
  then show ?thesis using assms(3) by (simp add: keyboard_handler_def send_topqueue_script [OF q])
qed

lemma keyboard_last_ack:
  assumes "queue_ok 0 p" "pending_commands 0 p = [x]" "vector ctx = KEYBOARD_VECTOR"
  shows "keyboard_handler log_bus (still_clock now) lit ctx ((ws, script w (Taken ACK # xs)), p, k, t)
    = Some ((ws, script (\<lambda>k. w (Suc k)) xs), ps2_device_queue_pop 0 p, k\<lparr>fail_count := 0\<rparr>, t)"
proof -
  have q: "queue_ok 0 (ps2_device_queue_pop 0 p)" "pending_commands 0 (ps2_device_queue_pop 0 p) = []"
    using assms(1,2) channel_queue.pop_ok channel_queue.pop_pending by auto
  then show ?thesis using assms(3) by (simp add: keyboard_handler_def send_topqueue_empty)
qed

text \<open>So acknowledging every command drains the queue in order.\<close>

lemma keyboard_acks:
  assumes "queue_ok 0 p" "pending_commands 0 p = x # rest" "vector ctx = KEYBOARD_VECTOR"
  shows "\<exists>p'. keyboard_interrupts log_bus (still_clock now) lit ctx (Suc (length rest))
      ((ws, script w (concat (map (\<lambda>_. [Taken ACK, Sent]) rest) @ [Taken ACK])), p, k, t)
    = Some ((rev (map (Pair 0x60) rest) @ ws, []), p', k\<lparr>fail_count := 0\<rparr>, t)
    \<and> queue_ok 0 p' \<and> pending_commands 0 p' = []"
  using assms(1,2)
proof (induction rest arbitrary: x p ws w k)
  case Nil
  have "queue_ok 0 (ps2_device_queue_pop 0 p)" "pending_commands 0 (ps2_device_queue_pop 0 p) = []"
    using Nil channel_queue.pop_ok channel_queue.pop_pending by auto
  then show ?case using keyboard_last_ack [OF Nil assms(3)] by simp
next
  case (Cons y rest)
  have q: "queue_ok 0 (ps2_device_queue_pop 0 p)" "pending_commands 0 (ps2_device_queue_pop 0 p) = y # rest"
    using Cons.prems channel_queue.pop_ok channel_queue.pop_pending by auto
  from Cons.IH [OF q, of "(0x60, y) # ws" "\<lambda>k. w (k + 2)" "k\<lparr>fail_count := 0\<rparr>"]
  show ?case using keyboard_ack [OF Cons.prems assms(3)] by simp
qed

lemma enable_io_script [simp]:
  "enable_io_devices log_bus KEYBOARD (ws, script w (Taken v # xs)) = ((0x21, v AND NOT 2) # ws, script (\<lambda>k. w (Suc k)) xs)"
  by (simp add: enable_io_devices_def KEYBOARD_def ALL_DEVICES_def PIC_MASTER_DATA_PORT_def)

lemma init_keyboard_script:
  assumes "queue_ok 0 (fold (ps2_device_enqueue_command 0) keyboard_setup p)"
    and "pending_commands 0 (fold (ps2_device_enqueue_command 0) keyboard_setup p) = x # rest"
  shows "init_ps2_keyboard log_bus (still_clock now) h 0 ((ws, script w (Sent # Taken v # Sent # xs)), ints, p)
    = Some (((0x60, x) # (0x21, v AND NOT 2) # (0x64, 0xAE) # ws, script (\<lambda>k. w (k + 3)) xs),
        set_interrupt_handler KEYBOARD_VECTOR INTERRUPT_GATE KERNEL_PL h ints, fold (ps2_device_enqueue_command 0) keyboard_setup p)"
proof -
  define p1 where "p1 = fold (ps2_device_enqueue_command 0) keyboard_setup p"
  have q: "queue_ok 0 p1" "pending_commands 0 p1 = x # rest" using assms by (simp_all add: p1_def)
  show ?thesis
    unfolding p1_def [symmetric] init_ps2_keyboard_def Let_def by (simp add: p1_def [symmetric] send_topqueue_script [OF q] eval_nat_numeral)
qed

text \<open>The cases of the \<open>switch\<close> are disjoint, as C requires.\<close>

lemmas character_defs = digit_characters_def letter_characters_def control_characters_def

lemma switch_cases_distinct: "distinct (map fst key_characters @ silent_keys)"
  by (simp add: key_characters_def character_defs silent_keys_def key_values)

lemma character_not_silent: "map_of key_characters code = Some x \<Longrightarrow> code \<notin> set silent_keys"
  using switch_cases_distinct by (auto dest!: map_of_SomeD simp: image_iff)

text \<open>A key with a character, typed on a console that is in order.\<close>

lemma send_make_key_text:
  assumes "console_ok ((m, v), c)" "buffer_apart ((m, v), c)" "con_buffer_pos c = 0" "0 < con_buffer_size c"
    and "map_of key_characters code = Some x" "x \<noteq> CHR 0x08"
  shows "\<exists>m' v' c'. send_make_key code ((m, v), c) = Some ((m', v'), c') \<and> console_ok ((m', v'), c') \<and> con_buffer_pos c' = 0
    \<and> display_of ((m', v'), c') = type_text (con_format c) (unat (page_columns v)) [ch x] (display_of ((m, v), c))
    \<and> screen_lines (m', v') = t_lines (display_of ((m', v'), c'))"
proof -
  let ?m = "m(con_buffer c := ch x)" and ?c = "c\<lparr>con_buffer_pos := 1\<rparr>"
  have "x \<in> snd ` set key_characters" using assms(5) by (force dest: map_of_SomeD)
  then have esc: "ch x \<noteq> ESC" "ch x \<noteq> 0x08"
    using assms(6) by (auto simp: key_characters_def character_defs ESC_def)
  have nz: "0 < unat (con_buffer_size c)" using assms(4) by (simp add: word_less_nat_alt)
  have apart: "?m a = m a" if "in_display v a" for a using that assms(2) nz by (auto simp: buffer_apart_def)
  note O = display_outside [of m v c ?m, OF assms(1) apart]
  have ok: "console_ok ((?m, v), ?c)" using O(1) by (simp add: console_ok_def)
  have ap: "buffer_apart ((?m, v), ?c)" using assms(2) nz by (simp add: buffer_apart_def word_le_nat_alt)
  have b: "buffered ((?m, v), ?c) = [ch x]" by (simp add: buffered_def)
  have "ucast (ucast (ch x) :: u32) = ch x" by (rule bit_word_eqI) (auto simp: bit_simps)
  then have "cputc (ucast (ch x)) ((m, v), c) = Some (ch x, (?m, v), ?c)"
    using assms(3) unat_0 nz by (cases "con_buffer_size c = 0") (auto simp: cputc_def)
  moreover obtain m' v' c' where f: "cflush ((?m, v), ?c) = Some ((m', v'), c'\<lparr>con_buffer_pos := 0\<rparr>)" "evolves ((?m, v), ?c) ((m', v'), c')"
    "display_of ((m', v'), c'\<lparr>con_buffer_pos := 0\<rparr>) = type_text (con_format c) (unat (page_columns v)) [ch x] (display_of ((?m, v), ?c))"
    "screen_lines (m', v') = t_lines (display_of ((m', v'), c'\<lparr>con_buffer_pos := 0\<rparr>))"
    using flush_text [OF ok ap] esc b by (auto simp: eq_commute)
  moreover have "display_of ((?m, v), ?c) = display_of ((m, v), c)" using O(2) by (simp add: display_of_def)
  moreover have "console_ok ((m', v'), c'\<lparr>con_buffer_pos := 0\<rparr>)" using evolves_ok [OF f(2)] by (simp add: console_ok_def)
  ultimately show ?thesis using assms(5)
    by (intro exI [of _ m'] exI [of _ v'] exI [of _ "c'\<lparr>con_buffer_pos := 0\<rparr>"]) (simp add: send_make_key_def character_not_silent)
qed

text \<open>The decoder's state and events, for any byte.\<close>

lemma keyboard_scan_ok:
  assumes "kb_ok k" "keyboard_scan b k = (k', e)"
  shows "kb_ok k' \<and> (case e of None \<Rightarrow> True | Some (r, c) \<Rightarrow> c \<in> set key_codes \<and> kb_idle k')"
proof (cases "scan_code b")
  case False
  then show ?thesis
    using assms by (auto simp: keyboard_scan_def scan_code_def kb_ok_def flag_defs bit_simps split: if_splits)
next
  case True
  then have d: "keyboard_default b k = (k', e)" using assms(2) by (simp add: keyboard_scan_code)
  show ?thesis by (rule keyboard_default_cases [OF d assms(1)]) (use keyboard_default_ok [OF d assms(1)] in auto)
qed

section \<open>Properties\<close>

text \<open>A keyboard interrupt and an empty descriptor table, for the witnesses.\<close>

definition keyboard_context :: Context where
  "keyboard_context = \<lparr>edi = 0, esi = 0, ebp = 0, esp = 0, ebx = 0, edx = 0, ecx = 0, eax = 0, gs = 0, fs = 0, es = 0, ds = 0,
     vector = KEYBOARD_VECTOR, error_code = 0, eip = 0, cs = 0, eflags = 0\<rparr>"




text \<open>What the three keys are decoded as: F1 as F5, F2 as F6, F7 as no key.\<close>

lemma function_keys_misread:
  assumes "kb_idle k"
  shows "keyboard_scans (press KEY_F1) k = (k, [(False, KEY_F5)])" "keyboard_scans (press KEY_F2) k = (k, [(False, KEY_F6)])"
    "keyboard_scans (press KEY_F7) k = (k, [(False, KEY_NONE)])"
proof -
  have keys: "(KEY_F1, 0x05) \<in> set plain_keys" "(KEY_F2, 0x06) \<in> set plain_keys" "(KEY_F7, 0x83) \<in> set plain_keys"
    by (simp_all add: plain_keys_def)
  have "byte_to_code ! 5 = KEY_F5" "byte_to_code ! 6 = KEY_F6" by (simp_all add: byte_to_code_def)
  then show "keyboard_scans (press KEY_F1) k = (k, [(False, KEY_F5)])" "keyboard_scans (press KEY_F2) k = (k, [(False, KEY_F6)])"
    using plain_key_scan(1) [OF assms, of 5] plain_key_scan(1) [OF assms, of 6] press_plain(1) [OF keys(1)] press_plain(1) [OF keys(2)]
    by (simp_all add: scan_code_def)
  show "keyboard_scans (press KEY_F7) k = (k, [(False, KEY_NONE)])"
    using assms unfolding press_plain(1) [OF keys(3)]
    by (simp add: keyboard_scan_def keyboard_default_def kb_idle_def flag_defs BYTE_TO_CODE_SIZE_def Let_def)
qed

text \<open>C25: every byte keeps the decoder's state well formed, and a key it reports is an enumerator of
  \<open>KeyCode\<close>, reported together with the return to the idle state.\<close>

theorem keyboard_scan_type:
  assumes "kb_ok k" "keyboard_scan b k = (k', e)"
  shows "kb_ok k' \<and> (case e of None \<Rightarrow> True | Some (r, c) \<Rightarrow> c \<in> set key_codes \<and> kb_idle k')"
  using assms by (rule keyboard_scan_ok)

lemma keyboard_scan_type_witness:
  "kb_ok (fst (keyboard_scan 0xE1 keyboard_initial)) \<and> bytes_to_receive (fst (keyboard_scan 0xE1 keyboard_initial)) = 2"
proof -
  have "kb_ok keyboard_initial" by (simp add: kb_ok_def keyboard_initial_def)
  from keyboard_scan_type [OF this surjective_pairing, of "0xE1"] show ?thesis by (simp add: keyboard_scan_def)
qed

text \<open>C24: the decoder cannot get stuck: from any state it can be in, two bytes in a row that are not
  prefixes report a key and leave it idle, at the first of them or at the second, so a lost or
  a spurious byte costs at most the keys around it.\<close>

theorem keyboard_resynchronises:
  assumes "kb_ok k" "scan_code b1" "scan_code b2"
  shows "let (k1, e1) = keyboard_scan b1 k; (k2, e2) = keyboard_scan b2 k1 in
    (e1 \<noteq> None \<and> kb_idle k1) \<or> (e2 \<noteq> None \<and> kb_idle k2)"
proof -
  obtain k1 e1 where 1: "keyboard_default b1 k = (k1, e1)" by fastforce
  obtain k2 e2 where 2: "keyboard_default b2 k1 = (k2, e2)" by fastforce
  have ok: "kb_ok k1" using 1 assms(1) by (rule keyboard_default_ok)
  have "(e1 \<noteq> None \<and> kb_idle k1) \<or> (e2 \<noteq> None \<and> kb_idle k2)"
    using 1 assms(1)
  proof (cases rule: keyboard_default_cases)
    case more
    then have "bit (kb_flags k1) 2" using assms(1) by (simp add: kb_ok_def)
    then show ?thesis using more(3) by - (rule keyboard_default_cases [OF 2 ok], auto)
  next
    case fake
    have "bit (push_bit 8 (fullcode k1) OR ucast b2) 12" using fake(3) by (auto simp: bit_simps)
    moreover have "\<not> bit x 12" if "x \<in> {0x12, 0x7C}" for x :: u32 using that by auto
    ultimately have "push_bit 8 (fullcode k1) OR ucast b2 \<notin> {0x12, 0x7C}" by metis
    then show ?thesis using fake(2) by - (rule keyboard_default_cases [OF 2 ok], auto)
  qed simp
  then show ?thesis using assms(2,3) 1 2 by (simp add: keyboard_scan_code)
qed

lemma keyboard_resynchronises_witness:
  "kb_idle (fst (keyboard_scan 0x1C (fst (keyboard_scan 0x12 (keyboard_initial\<lparr>kb_flags := EXT_0_FLAG\<rparr>)))))"
proof -
  let ?k = "keyboard_initial\<lparr>kb_flags := EXT_0_FLAG\<rparr>"
  have "kb_ok ?k" by (simp add: kb_ok_def keyboard_initial_def)
  moreover have "\<not> kb_idle (fst (keyboard_scan 0x12 ?k))"
    by (simp add: keyboard_scan_def keyboard_default_def keyboard_initial_def kb_idle_def extended_keycode_def flag_defs Let_def)
  ultimately show ?thesis
    using keyboard_resynchronises [of ?k "0x12" "0x1C"] by (simp add: scan_code_def split_beta Let_def)
qed

text \<open>C26: setting up a keyboard that acknowledges every byte delivers the seven bytes of the setup (LEDs off,
  scan code set 2, typematic rate, scanning on) to it in order, one per acknowledgement: the
  first by \<open>init_ps2_keyboard\<close>, the others by the interrupt handler, and the queue ends empty.\<close>

theorem keyboard_setup_delivered:
  assumes "queue_ok 0 p" "pending_commands 0 p = []" "vector ctx = KEYBOARD_VECTOR"
  shows "\<exists>p'. init_ps2_keyboard log_bus (still_clock now) h 0
        ((ws, script w ([Sent, Taken irqs, Sent] @ concat (replicate 6 [Taken ACK, Sent]) @ [Taken ACK])), ints, p)
      \<bind> (\<lambda>(d, ints, p). keyboard_interrupts log_bus (still_clock now) lit ctx 7 (d, p, k, t))
    = Some ((rev ([(0x64, 0xAE), (0x21, irqs AND NOT 2)] @ map (Pair 0x60) keyboard_setup) @ ws, []), p', k\<lparr>fail_count := 0\<rparr>, t)
    \<and> pending_commands 0 p' = []"
proof -
  define p1 where "p1 = fold (ps2_device_enqueue_command 0) keyboard_setup p"
  have q: "queue_ok 0 p1" "pending_commands 0 p1 = keyboard_setup"
    using channel_queue.enqueue_all [OF assms(1), of keyboard_setup] assms(2) unfolding p1_def by (simp_all add: keyboard_setup_def)
  have s: "keyboard_setup = hd keyboard_setup # tl keyboard_setup" "length (tl keyboard_setup) = 6"
    by (simp_all add: keyboard_setup_def)
  let ?acks = "concat (map (\<lambda>_. [Taken ACK, Sent]) (tl keyboard_setup)) @ [Taken ACK]"
  have seven: "Suc 6 = 7" by simp
  have q2: "pending_commands 0 p1 = hd keyboard_setup # tl keyboard_setup" using q(2) s(1) by (rule trans)
  have acks: "?acks = concat (replicate 6 [Taken ACK, Sent]) @ [Taken ACK]" unfolding map_replicate_const s(2) ..
  have init: "init_ps2_keyboard log_bus (still_clock now) h 0 ((ws, script w ([Sent, Taken irqs, Sent] @ ?acks)), ints, p)
      = Some (((0x60, hd keyboard_setup) # (0x21, irqs AND NOT 2) # (0x64, 0xAE) # ws, script (\<lambda>k. w (k + 3)) ?acks),
          set_interrupt_handler KEYBOARD_VECTOR INTERRUPT_GATE KERNEL_PL h ints, p1)"
    unfolding append_Cons append_Nil p1_def by (rule init_keyboard_script [OF q(1) [unfolded p1_def] q2 [unfolded p1_def]])
  from keyboard_acks [OF q(1) q2 assms(3), of now lit "(0x60, hd keyboard_setup) # (0x21, irqs AND NOT 2) # (0x64, 0xAE) # ws"
      "\<lambda>k. w (k + 3)" k t] obtain p' where
    run: "keyboard_interrupts log_bus (still_clock now) lit ctx 7
      (((0x60, hd keyboard_setup) # (0x21, irqs AND NOT 2) # (0x64, 0xAE) # ws, script (\<lambda>k. w (k + 3)) ?acks), p1, k, t)
    = Some ((rev (map (Pair 0x60) (tl keyboard_setup)) @ (0x60, hd keyboard_setup) # (0x21, irqs AND NOT 2) # (0x64, 0xAE) # ws, []),
        p', k\<lparr>fail_count := 0\<rparr>, t)" "pending_commands 0 p' = []"
    unfolding s(2) seven by blast
  have "rev ([(0x64, 0xAE), (0x21, irqs AND NOT 2)] @ map (Pair 0x60) keyboard_setup) @ ws
      = rev (map (Pair 0x60) (tl keyboard_setup)) @ (0x60, hd keyboard_setup) # (0x21, irqs AND NOT 2) # (0x64, 0xAE) # ws"
    by (simp add: keyboard_setup_def)
  with init run show ?thesis unfolding acks [symmetric] by (intro exI [of _ p']) (simp only: bind.bind_lunit prod.case simp_thms)
qed

lemma keyboard_setup_delivered_witness:
  "\<exists>p' k'. init_ps2_keyboard log_bus (still_clock 5) 0x8000 0
      (([], script (\<lambda>_. ([0xFF], 0)) ([Sent, Taken 0xFE, Sent] @ concat (replicate 6 [Taken ACK, Sent]) @ [Taken ACK])), \<lparr>idt = [], idt_address = 0, handlerTable = [], trampolines = 0, idtr = (0, 0)\<rparr>, ps2_initial)
    \<bind> (\<lambda>(d, ints, p). keyboard_interrupts log_bus (still_clock 5) (\<lambda>_. 0) keyboard_context 7 (d, p, keyboard_initial, ((\<lambda>_. 0, vga_initial), fullscreen)))
    = Some (([(0x60, 0xF4), (0x60, 0x20), (0x60, 0xF3), (0x60, 0x02), (0x60, 0xF0), (0x60, 0x00), (0x60, 0xED), (0x21, 0xFC), (0x64, 0xAE)], []),
        p', k', ((\<lambda>_. 0, vga_initial), fullscreen))"
proof -
  have q: "queue_ok 0 ps2_initial" "pending_commands 0 ps2_initial = []" using queue_ok_initial [of 0] by simp_all
  have v: "vector keyboard_context = KEYBOARD_VECTOR" by (simp add: keyboard_context_def)
  show ?thesis
    using keyboard_setup_delivered [OF q v, of 5 "0x8000" "[]" "\<lambda>_. ([0xFF], 0)" "0xFE" "\<lparr>idt = [], idt_address = 0, handlerTable = [], trampolines = 0, idtr = (0, 0)\<rparr>" "\<lambda>_. 0" keyboard_initial
        "((\<lambda>_. 0, vga_initial), fullscreen)"]
    by (auto simp: keyboard_setup_def)
qed

text \<open>A printable key pressed on an idle keyboard appears on the screen at once: the interrupt handler
  reads its scan code and types its character, and the screen is what a terminal shows after it.
  This composes the controller's data port, the decoder, the console and the VGA driver.\<close>

lemma keystroke_echo:
  assumes "fst (inb B PS2_DATA_PORT d) = b" "unat b < 128" "kb_idle k"
    and "map_of key_characters (byte_to_code ! unat b) = Some x" "x \<noteq> CHR 0x08"
    and "console_ok ((m, v), c)" "buffer_apart ((m, v), c)" "con_buffer_pos c = 0" "0 < con_buffer_size c"
  shows "\<exists>m' v' c'. keyboard_handler B C lit ctx (d, p, k, (m, v), c) = Some (snd (inb B PS2_DATA_PORT d), p, k, (m', v'), c')
    \<and> console_ok ((m', v'), c') \<and> con_buffer_pos c' = 0
    \<and> display_of ((m', v'), c') = type_text (con_format c) (unat (page_columns v)) [ch x] (display_of ((m, v), c))
    \<and> screen_lines (m', v') = t_lines (display_of ((m', v'), c'))"
proof -
  have "b \<noteq> ACK" "b \<noteq> RSD" "scan_code b" using assms(2) by (auto simp: ACK_def RSD_def scan_code_def)
  moreover have "keyboard_scan b k = (k, Some (False, byte_to_code ! unat b))"
    using plain_key_scan(1) [OF assms(3) \<open>scan_code b\<close> assms(2)] by (auto simp: Let_def split: prod.splits option.splits)
  moreover obtain m' v' c' where "send_make_key (byte_to_code ! unat b) ((m, v), c) = Some ((m', v'), c')" "console_ok ((m', v'), c')"
    "con_buffer_pos c' = 0" "display_of ((m', v'), c') = type_text (con_format c) (unat (page_columns v)) [ch x] (display_of ((m, v), c))"
    "screen_lines (m', v') = t_lines (display_of ((m', v'), c'))"
    using send_make_key_text [OF assms(6-9,4,5)] by blast
  ultimately show ?thesis using assms(1)
    by (intro exI [of _ m'] exI [of _ v'] exI [of _ c']) (simp add: keyboard_handler_def split_beta Let_def)
qed

lemma keystroke_echo_witness:
  "\<exists>t t'. keyboard_handler log_bus (still_clock 5) (\<lambda>_. 0) keyboard_context (([], [0x1C]), ps2_initial, keyboard_initial, t)
      = Some (([], []), ps2_initial, keyboard_initial, t')
    \<and> screen_lines (fst t') ! 0 ! 0 = vga_character (ch (CHR ''a'')) (default_format fullscreen)"
proof -
  obtain im m v c where i: "init_consoles immortal_initial ((\<lambda>_. 0, vga_initial), fullscreen) = Inr (im, (m, v), c)"
    by (rule boot_console)
  note I = init_consoles_facts [OF immortal_inv_initial i]
  have "byte_to_code ! 28 = KEY_A" by (simp add: byte_to_code_def)
  then have key: "map_of key_characters (byte_to_code ! unat (0x1C :: u8)) = Some (CHR ''a'')"
    by (simp add: key_characters_def character_defs key_values)
  have idle: "kb_idle keyboard_initial" by (simp add: kb_idle_def keyboard_initial_def)
  have rd: "fst (inb log_bus PS2_DATA_PORT ([], [0x1C])) = 0x1C" by simp
  from keystroke_echo [OF rd _ idle key _ I(1,2,3), of "still_clock 5" "\<lambda>_. 0" keyboard_context ps2_initial] obtain t' where
    "keyboard_handler log_bus (still_clock 5) (\<lambda>_. 0) keyboard_context (([], [0x1C]), ps2_initial, keyboard_initial, (m, v), c)
      = Some (([], []), ps2_initial, keyboard_initial, t')"
    "screen_lines (fst t') = t_lines (type_text (con_format c) (unat (page_columns v)) [ch (CHR ''a'')] (display_of ((m, v), c)))"
    using I(5) by auto
  moreover from this(2) have "screen_lines (fst t') ! 0 ! 0 = vga_character (ch (CHR ''a'')) (default_format fullscreen)"
    using I by (simp add: type_text_def type_char_def type_put_def display_of_def Let_def)
  ultimately show ?thesis by blast
qed



end
