(* ===== verification/Output.thy ===== *)
theory Output
  imports Ps2Keyboard
begin

text \<open>
  The literals the running kernel prints with, and what its printing amounts to: every log message of
  \<^verbatim>\<open>drivers/ps2\<close> returns and changes the console only (\<open>tty_step\<close>), as long as the literals are in memory
  (\<open>tty_inv\<close>). So does the keyboard's interrupt handler, whatever byte it reads.
\<close>

section \<open>The kernel's literals\<close>

definition reset_done :: "directive list" where
  "reset_done = [Text ''PS/2 channel '', Dec, Text ('': device reset'' @ [CHR ''\<newline>''])]"

definition reset_failed :: "directive list" where
  "reset_failed = [Text ''PS/2 channel '', Dec, Text '': Retry count exceeded: '', Str, Text (''. Aborting communication.'' @ [CHR ''\<newline>''])]"

definition detected :: "nat \<Rightarrow> directive list" where
  "detected channel = [Text (if channel = 0 then ''PS/2 channel 0: Device detected - '' else ''PS/2 channel 1: Device detected - ''),
     Str, Text [CHR ''\<newline>'']]"

definition resend_failed :: "directive list" where
  "resend_failed = [Text ''PS/2 channel '', Dec, Text '': Resend threshold hit. Command '', Hex2]"

definition log_formats :: "directive list list" where
  "log_formats = [reset_done, reset_failed, detected 0, detected 1, resend_failed]"

lemmas log_format_defs = reset_done_def reset_failed_def detected_def resend_failed_def

definition device_names :: "string list" where
  "device_names = [''AT Keyboard'', ''Mouse'', ''Mouse with scroll wheel'', ''5-button mouse'', ''Multifuctional keyboard'', ''Short keyboard'',
     ''NCD N-97 keyboard'', ''NCD Sun keyboard'', ''122-key keyboard'', ''Japanese \"G\" keyboard'', ''Japanese \"P\" keyboard'',
     ''Japanese \"A\" keyboard'', ''Nothing'']"

definition error_reasons :: "string list" where
  "error_reasons = map get_error_reason [TIMED_OUT, BAD_ACKNOWLEDGEMENT, BAT_FAILED, COMMUNICATION_FAILED]"

text \<open>What \<open>exit\<close> and the page-fault handler print.\<close>

definition end_messages :: "directive list list" where
  "end_messages = [[Ptr, Text [CHR ''\<newline>'']], [Text (''NPE'' @ [CHR ''\<newline>''])], [Text (''SOE'' @ [CHR ''\<newline>''])], [Text (''UB!'' @ [CHR ''\<newline>''])]]"

definition kernel_literals :: "string list" where
  "kernel_literals = [INFO_TAG, WARNING_TAG, ERROR_TAG] @ map (\<lambda>f. ''%s '' @ format_string f) log_formats
     @ device_names @ error_reasons @ map format_string end_messages"

lemma device_name_literal: "get_device_name i \<in> set device_names"
proof -
  have choice: "(if b then x else y) \<in> S" if "x \<in> S" "y \<in> S" for b :: bool and x y :: string and S using that by simp
  show ?thesis unfolding get_device_name_def by (intro choice) (simp_all add: device_names_def)
qed

lemma error_reason_literal: "status \<noteq> DEVICE_OK \<Longrightarrow> get_error_reason status \<in> set error_reasons"
  by (cases status) (simp_all add: error_reasons_def)

lemma string_literals:
  assumes "s \<in> set device_names \<union> set error_reasons"
  shows "terminated s" "length s \<le> 32" "s \<in> set kernel_literals"
proof -
  have "\<forall>s \<in> set device_names \<union> set error_reasons. terminated s \<and> length s \<le> 32"
    by (simp add: device_names_def error_reasons_def terminated_def)
  with assms show "terminated s" "length s \<le> 32" by blast+
  show "s \<in> set kernel_literals" using assms by (auto simp: kernel_literals_def)
qed

section \<open>A console with its literals in place\<close>

definition tty_inv :: "(string \<Rightarrow> u32) \<Rightarrow> tty \<Rightarrow> bool" where
  "tty_inv lit t \<longleftrightarrow> tty_ready t \<and> literals_at t lit (set kernel_literals)
     \<and> (\<forall>a. in_console t a \<longrightarrow> 0xB8000 \<le> unat a \<and> unat a < 0x400000)"

lemma tty_inv_refl: "tty_inv lit t \<Longrightarrow> tty_step t t"
  by (simp add: tty_inv_def tty_step_refl)

lemma tty_inv_step: "tty_inv lit t \<Longrightarrow> tty_step t t' \<Longrightarrow> tty_inv lit t'"
  using literals_at_step by (fastforce simp: tty_inv_def tty_step_def)

lemma tty_step_low:
  assumes "tty_inv lit t" "tty_step t t'"
  shows "same_outside (\<lambda>a. 0xB8000 \<le> unat a \<and> unat a < 0x400000) (fst (fst t)) (fst (fst t'))"
  using assms by (auto simp: tty_inv_def tty_step_def elim!: same_outside_mono)

lemma literal_in_place: "tty_inv lit t \<Longrightarrow> s \<in> set kernel_literals \<Longrightarrow> literal (in_console t) (fst (fst t)) (lit s) s"
  by (simp add: tty_inv_def literals_at_def)

lemma tag_literal: "tag \<in> log_tags \<Longrightarrow> tag \<in> set kernel_literals"
  by (auto simp: log_tags_def kernel_literals_def)

lemma kernel_log_step:
  assumes "tty_inv lit t" "tag \<in> log_tags" "f \<in> set log_formats" "fmt = format_string f"
    and "directives_ok (in_console t) (fst (fst t)) (\<lambda>n. (tag # strs) ! n) (\<lambda>n. (lit tag # args) ! n) 1 f"
    and "directives_room (\<lambda>n. (tag # strs) ! n) 1 f < 400"
  shows "\<exists>t'. log_message tag lit fmt args t = Some t' \<and> tty_step t t'"
  using log_step [OF _ assms(2), of t lit "set kernel_literals" f strs args] assms tag_literal [OF assms(2)]
  by (auto simp: tty_inv_def kernel_literals_def)

lemma channel_tags: "INFO_TAG \<in> log_tags" "WARNING_TAG \<in> log_tags" "ERROR_TAG \<in> log_tags"
  by (simp_all add: log_tags_def)

lemma reset_done_step:
  assumes "tty_inv lit t"
  shows "\<exists>t'. INFO lit (''PS/2 channel %d: device reset'' @ [CHR ''\<newline>'']) [x] t = Some t' \<and> tty_step t t'"
  unfolding INFO_def
  by (rule kernel_log_step [OF assms channel_tags(1), where f = reset_done and strs = "[[]]"])
    (simp_all add: log_formats_def reset_done_def format_string_def plain_text_def)

lemma reset_failed_step:
  assumes "tty_inv lit t" "s \<in> set error_reasons"
  shows "\<exists>t'. ERROR lit (''PS/2 channel %d: Retry count exceeded: %s. Aborting communication.'' @ [CHR ''\<newline>'']) [x, lit s] t = Some t'
    \<and> tty_step t t'"
  unfolding ERROR_def
  by (rule kernel_log_step [OF assms(1) channel_tags(3), where f = reset_failed and strs = "[[], s]"])
    (use string_literals [of s] assms(2) literal_in_place [OF assms(1), of s] in
      \<open>simp_all add: log_formats_def reset_failed_def format_string_def plain_text_def\<close>)

lemma detected_step:
  fixes channel :: nat
  assumes "tty_inv lit t" "s \<in> set device_names"
  shows "\<exists>t'. INFO lit ((if channel = 0 then ''PS/2 channel 0: Device detected - %s'' else ''PS/2 channel 1: Device detected - %s'')
      @ [CHR ''\<newline>'']) [lit s] t = Some t' \<and> tty_step t t'"
proof -
  have "detected channel \<in> set log_formats" by (cases "channel = 0") (auto simp: log_formats_def detected_def)
  then show ?thesis unfolding INFO_def
    by (rule kernel_log_step [OF assms(1) channel_tags(1), where strs = "[s]"])
      (use string_literals [of s] assms(2) literal_in_place [OF assms(1), of s] in
        \<open>simp_all add: detected_def format_string_def plain_text_def\<close>)
qed

lemma resend_failed_step:
  assumes "tty_inv lit t"
  shows "\<exists>t'. WARNING lit ''PS/2 channel %d: Resend threshold hit. Command %#02X'' [x, y] t = Some t' \<and> tty_step t t'"
  unfolding WARNING_def
  by (rule kernel_log_step [OF assms channel_tags(2), where f = resend_failed and strs = "[[], []]"])
    (simp_all add: log_formats_def resend_failed_def format_string_def plain_text_def)

section \<open>Lemmas: the devices' messages\<close>

lemma ps2_reset_device_step:
  assumes "ps2_reset_device B C lit st channel (d, t) = Some (d', t')" "tty_inv lit t"
  shows "tty_step t t'"
proof (cases "channel0 st = CHANNEL_OK \<and> channel = 0 \<or> channel1 st = CHANNEL_OK \<and> channel = 1")
  case False
  then show ?thesis using assms(1) tty_inv_refl [OF assms(2)] by (auto simp: ps2_reset_device_def)
next
  case True
  then obtain status where t': "(if status \<noteq> DEVICE_OK
       then ERROR lit (''PS/2 channel %d: Retry count exceeded: %s. Aborting communication.'' @ [CHR ''\<newline>''])
              [ucast channel, lit (get_error_reason status)] t
       else INFO lit (''PS/2 channel %d: device reset'' @ [CHR ''\<newline>'']) [ucast channel] t) = Some t'"
    using assms(1) unfolding ps2_reset_device_def by (simp add: bind_eq_Some_conv split: prod.splits) blast
  show ?thesis
  proof (cases "status = DEVICE_OK")
    case True
    then show ?thesis using t' reset_done_step [OF assms(2), of "ucast channel"] by auto
  next
    case False
    then show ?thesis
      using t' reset_failed_step [OF assms(2) error_reason_literal [OF False], of "ucast channel"] by auto
  qed
qed

lemma ps2_reset_devices_step:
  assumes "ps2_reset_devices B C lit st (d, t) = Some (d', t')" "tty_inv lit t"
  shows "tty_step t t'"
proof -
  obtain d1 t1 where s: "ps2_reset_device B C lit st 0 (d, t) = Some (d1, t1)" "ps2_reset_device B C lit st 1 (d1, t1) = Some (d', t')"
    using assms(1) by (auto simp: ps2_reset_devices_def bind_eq_Some_conv)
  note step = ps2_reset_device_step [OF s(1) assms(2)]
  show ?thesis
    by (rule tty_step_trans [OF step ps2_reset_device_step [OF s(2) tty_inv_step [OF assms(2) step]]])
qed

lemma detect_channel_step:
  assumes "detect_channel B C lit channel (d, p, t) = Some (d', p', t')" "tty_inv lit t"
  shows "tty_step t t'" "command_queues p' = command_queues p"
proof -
  let ?find = "detect_loop B C (if channel = 0 then Some else ps2_send_command B WRITE_CHANNEL1_DEVICE) DETECT_RETRY_COUNT d"
  have "\<exists>r. ?find = Some r" using assms(1) by (auto simp: detect_channel_def bind_eq_Some_conv)
  then obtain found d1 where find: "?find = Some (found, d1)" by auto
  show "tty_step t t'"
  proof (cases found)
    case None
    then show ?thesis using assms(1) find tty_inv_refl [OF assms(2)] by (simp add: detect_channel_def)
  next
    case (Some i)
    obtain t1 where "INFO lit ((if channel = 0 then ''PS/2 channel 0: Device detected - %s'' else ''PS/2 channel 1: Device detected - %s'')
      @ [CHR ''\<newline>'']) [lit (get_device_name i)] t = Some t1" "tty_step t t1"
      using detected_step [OF assms(2) device_name_literal, of channel i] by blast
    then show ?thesis using assms(1) find Some by (simp add: detect_channel_def)
  qed
  show "command_queues p' = command_queues p"
    using assms(1) find by (auto simp: detect_channel_def bind_eq_Some_conv split: option.splits)
qed

lemma ps2_detect_devices_step:
  assumes "ps2_detect_devices B C lit st (d, p, t) = Some (d', p', t')" "tty_inv lit t"
  shows "tty_step t t'" "command_queues p' = command_queues p"
proof -
  obtain d1 p1 t1 where s: "(if channel0 st = CHANNEL_OK then detect_channel B C lit 0 (d, p, t) else Some (d, p, t)) = Some (d1, p1, t1)"
    "(if channel1 st = CHANNEL_OK then detect_channel B C lit 1 (d1, p1, t1) else Some (d1, p1, t1)) = Some (d', p', t')"
    using assms(1) by (auto simp: ps2_detect_devices_def bind_eq_Some_conv)
  have step: "tty_step a b \<and> command_queues q' = command_queues q"
    if "(if ok then detect_channel B C lit chan (e, q, a) else Some (e, q, a)) = Some (e', q', b)" "tty_inv lit a"
    for ok chan e q a e' q' b
    using that detect_channel_step [of B C lit chan e q a e' q' b] tty_inv_refl [OF that(2)] by (auto split: if_splits)
  note s1 = step [OF s(1) assms(2)]
  note s2 = step [OF s(2) tty_inv_step [OF assms(2) conjunct1 [OF s1]]]
  show "tty_step t t'" by (rule tty_step_trans [OF conjunct1 [OF s1] conjunct1 [OF s2]])
  show "command_queues p' = command_queues p" using s1 s2 by simp
qed

section \<open>Lemmas: the keyboard\<close>

lemma send_make_key_step:
  assumes "tty_ready t"
  shows "\<exists>t'. send_make_key code t = Some t' \<and> tty_step t t'"
proof (cases "code \<in> set silent_keys")
  case True
  then show ?thesis using tty_step_refl [OF assms] by (simp add: send_make_key_def)
next
  case False
  show ?thesis
  proof (cases "map_of key_characters code")
    case None
    then show ?thesis using False tty_step_refl [OF assms] by (simp add: send_make_key_def)
  next
    case (Some x)
    obtain m v c where t: "t = ((m, v), c)" by (metis surj_pair)
    have "x \<in> snd ` set key_characters" using Some by (force dest: map_of_SomeD)
    then have "ch x \<noteq> ESC" by (auto simp: key_characters_def character_defs ESC_def)
    from tty_step_byte [OF assms [unfolded t] this] obtain t' where
      f: "cflush ((m(con_buffer c := ch x), v), c\<lparr>con_buffer_pos := 1\<rparr>) = Some t'" "tty_step t t'" by (auto simp: t)
    have "ucast (ucast (ch x) :: u32) = ch x" by (rule bit_word_eqI) (auto simp: bit_simps)
    moreover have "con_buffer_pos c = 0" "con_buffer_size c = 512"
      using assms by (simp_all add: t tty_ready_def STDOUT_BUFFER_SIZE_def)
    ultimately have "cputc (ucast (ch x)) t = Some (ch x, (m(con_buffer c := ch x), v), c\<lparr>con_buffer_pos := 1\<rparr>)"
      by (simp add: cputc_def t)
    then show ?thesis using False Some f by (simp add: send_make_key_def)
  qed
qed

definition queues_ok :: "ps2 \<Rightarrow> bool" where
  "queues_ok p \<longleftrightarrow> queue_ok 0 p \<and> queue_ok 1 p"

lemma pop_queues_ok: "queues_ok p \<Longrightarrow> chan < 2 \<Longrightarrow> queues_ok (ps2_device_queue_pop chan p)"
proof -
  assume q: "queues_ok p" and "chan < 2"
  then have "unat chan = 0 \<or> unat chan = 1" by (simp add: word_less_nat_alt) arith
  then show ?thesis
    using q by (elim disjE) (auto simp: queues_ok_def queue_ok_def ps2_device_queue_pop_def Let_def inc_mod_32)
qed

text \<open>
  One interrupt of the keyboard, from any state: what it prints stays on the console, and the decoder
  and the queues stay well formed.
\<close>

lemma keyboard_handler_step:
  assumes "keyboard_handler B C lit ctx (d, p, k, t) = Some (d', p', k', t')" "tty_inv lit t" "kb_ok k" "queues_ok p"
  shows "tty_step t t'" "kb_ok k'" "queues_ok p'"
proof -
  let ?chan = "if vector ctx = KEYBOARD_VECTOR then 0 else 1 :: u8"
  obtain code d1 where i: "inb B PS2_DATA_PORT d = (code, d1)" by fastforce
  have chan: "?chan < 2" by simp
  have ready: "tty_ready t" using assms(2) by (simp add: tty_inv_def)
  note refl = tty_step_refl [OF ready]
  consider (ack) "code = ACK" | (rsd) "code \<noteq> ACK" "code = RSD" | (key) "code \<noteq> ACK" "code \<noteq> RSD" by blast
  then have "tty_step t t' \<and> kb_ok k' \<and> queues_ok p'"
  proof cases
    case ack
    then have "p' = ps2_device_queue_pop ?chan p" "k' = k\<lparr>fail_count := 0\<rparr>" "t' = t"
      using assms(1) by (auto simp: keyboard_handler_def i Let_def bind_eq_Some_conv simp del: if_split)
    then show ?thesis using refl pop_queues_ok [OF assms(4) chan] assms(3) by (simp add: kb_ok_def)
  next
    case rsd
    show ?thesis
    proof (cases "fail_count k + 1 = COMMAND_RESEND_THRESHOLD")
      case True
      then obtain t1 where "WARNING lit ''PS/2 channel %d: Resend threshold hit. Command %#02X''
          [ucast ?chan, ucast (ps2_device_queue_top ?chan p)] t = Some t1" "t' = t1" "p' = ps2_device_queue_pop ?chan p"
        "k' = k\<lparr>fail_count := fail_count k + 1\<rparr>"
        using assms(1) rsd by (auto simp: keyboard_handler_def i Let_def bind_eq_Some_conv simp del: if_split)
      then show ?thesis
        using resend_failed_step [OF assms(2), of "ucast ?chan" "ucast (ps2_device_queue_top ?chan p)"]
          pop_queues_ok [OF assms(4) chan] assms(3) by (simp add: kb_ok_def)
    next
      case False
      then have "p' = p" "k' = k\<lparr>fail_count := fail_count k + 1\<rparr>" "t' = t"
        using assms(1) rsd by (auto simp: keyboard_handler_def i Let_def bind_eq_Some_conv simp del: if_split)
      then show ?thesis using refl assms(3,4) by (simp add: kb_ok_def)
    qed
  next
    case key
    obtain k1 e where s: "keyboard_scan code k = (k1, e)" by fastforce
    have r: "p' = p \<and> k' = k1 \<and> (t' = t \<or> (\<exists>c. send_make_key c t = Some t'))"
      using assms(1) key by (auto simp: keyboard_handler_def i s Let_def bind_eq_Some_conv send_break_key_def
        split: option.splits prod.splits bool.splits)
    moreover have "tty_step t t'" if "send_make_key c t = Some t'" for c
      using that send_make_key_step [OF ready, of c] by simp
    then have "tty_step t t'" using r refl by blast
    moreover have "kb_ok k1" using keyboard_scan_ok [OF assms(3) s] by simp
    ultimately show ?thesis using assms(4) by simp
  qed
  then show "tty_step t t'" "kb_ok k'" "queues_ok p'" by simp_all
qed

text \<open>A byte that needs no answer to the device is handled at once.\<close>

lemma keyboard_handler_returns:
  assumes "tty_inv lit t" "fst (inb B PS2_DATA_PORT d) \<noteq> ACK"
    and "fst (inb B PS2_DATA_PORT d) = RSD \<longrightarrow> fail_count k + 1 = COMMAND_RESEND_THRESHOLD"
  shows "\<exists>s. keyboard_handler B C lit ctx (d, p, k, t) = Some s"
proof -
  let ?chan = "if vector ctx = KEYBOARD_VECTOR then 0 else 1 :: u8"
  obtain code d1 where i: "inb B PS2_DATA_PORT d = (code, d1)" by fastforce
  show ?thesis
  proof (cases "code = RSD")
    case True
    obtain t' where "WARNING lit ''PS/2 channel %d: Resend threshold hit. Command %#02X''
        [ucast ?chan, ucast (ps2_device_queue_top ?chan p)] t = Some t'"
      using resend_failed_step [OF assms(1)] by blast
    then show ?thesis using assms(2,3) True by (simp add: keyboard_handler_def i Let_def del: if_split)
  next
    case False
    obtain k1 e where s: "keyboard_scan code k = (k1, e)" by fastforce
    show ?thesis
    proof (cases e)
      case None
      then show ?thesis using assms(2) False by (simp add: keyboard_handler_def i s Let_def)
    next
      case (Some rc)
      obtain r c where e: "e = Some (r, c)" using Some by (cases rc) simp
      obtain t' where "send_make_key c t = Some t'"
        using send_make_key_step [of t c] assms(1) unfolding tty_inv_def by blast
      then show ?thesis using assms(2) False by (cases r) (simp_all add: keyboard_handler_def i s e Let_def)
    qed
  qed
qed

section \<open>The literals of a concrete image\<close>

text \<open>One after the other from \<open>0xA000\<close> on, 256 bytes each, for the witnesses.\<close>

definition literal_address :: "string \<Rightarrow> u32" where
  "literal_address s = 0xA000 + 256 * of_nat (length (takeWhile (\<lambda>x. x \<noteq> s) kernel_literals))"

definition literal_memory :: memory where
  "literal_memory a = (let i = unat (a - 0xA000) div 256; j = unat (a - 0xA000) mod 256 in
     if i < length kernel_literals \<and> j < length (kernel_literals ! i) then ch (kernel_literals ! i ! j) else 0)"

lemma kernel_literals_sizes: "length kernel_literals = 29" "\<forall>s \<in> set kernel_literals. length s < 256"
  by (simp_all add: kernel_literals_def log_formats_def end_messages_def log_format_defs format_string_def device_names_def
    error_reasons_def INFO_TAG_def WARNING_TAG_def ERROR_TAG_def)

lemma literal_placed:
  assumes "s \<in> set kernel_literals" "i \<le> length s"
  shows "unat (literal_address s + of_nat i) < 0xE000" "0xA000 \<le> unat (literal_address s + of_nat i)"
    "literal_memory (literal_address s + of_nat i) = (if i < length s then ch (s ! i) else 0)"
proof -
  let ?n = "length (takeWhile (\<lambda>x. x \<noteq> s) kernel_literals)"
  have "dropWhile (\<lambda>x. x \<noteq> s) kernel_literals \<noteq> []" using assms(1) by (simp add: dropWhile_eq_Nil_conv)
  moreover have "?n + length (dropWhile (\<lambda>x. x \<noteq> s) kernel_literals) = 29"
    unfolding kernel_literals_sizes(1) [symmetric] length_append [symmetric] takeWhile_dropWhile_id ..
  ultimately have n: "?n < 29" using length_greater_0_conv [of "dropWhile (\<lambda>x. x \<noteq> s) kernel_literals"] by linarith
  then have "kernel_literals ! ?n = s"
    using nth_length_takeWhile [of "\<lambda>x. x \<noteq> s" kernel_literals] kernel_literals_sizes(1) by simp
  note n = n this
  have i: "i < 256" using assms kernel_literals_sizes(2) by fastforce
  have "literal_address s + of_nat i = 0xA000 + of_nat (256 * ?n + i)" by (simp add: literal_address_def)
  moreover have "unat (of_nat (256 * ?n + i) :: u32) = 256 * ?n + i"
    using n(1) i by (simp add: unat_of_nat take_bit_nat_eq_self del: of_nat_add of_nat_mult)
  ultimately have a: "unat (literal_address s + of_nat i) = 0xA000 + (256 * ?n + i)" "unat (literal_address s + of_nat i - 0xA000) = 256 * ?n + i"
    using n(1) i by (simp_all add: unat_word_ariths del: of_nat_add of_nat_mult)
  show "unat (literal_address s + of_nat i) < 0xE000" "0xA000 \<le> unat (literal_address s + of_nat i)" using a(1) n(1) i by simp_all
  show "literal_memory (literal_address s + of_nat i) = (if i < length s then ch (s ! i) else 0)"
    unfolding literal_memory_def a(2) Let_def using n i kernel_literals_sizes(1) by simp
qed

end
