(* ===== verification/Contexts.thy ===== *)
theory Contexts
  imports Process
begin

text \<open>
  The way in and out of the kernel: what the processor pushes when it takes an interrupt, the
  trampoline of the vector (\<open>Interrupts\<close>) and \<open>collect_ctx\<close> of \<^verbatim>\<open>src/boot.asm\<close> add to it, and how
  \<open>unwind_context\<close> and \<open>restore_context\<close> take it back. The stack is in memory and is read through the
  C structures \<open>Context\<close> (\<^verbatim>\<open>interrupts.h\<close>) and \<open>IntraContext\<close> (\<^verbatim>\<open>process.h\<close>) at their offsets; that the
  pushes of the assembly build exactly these structures is what the lemmas show.
\<close>

section \<open>The processor's registers\<close>

record cpu =
  r_edi :: u32
  r_esi :: u32
  r_ebp :: u32
  r_esp :: u32
  r_ebx :: u32
  r_edx :: u32
  r_ecx :: u32
  r_eax :: u32
  r_gs :: u16
  r_fs :: u16
  r_es :: u16
  r_ds :: u16
  r_eip :: u32
  r_cs :: u16
  r_eflags :: u32
  r_ss :: u16

definition push :: "u32 \<Rightarrow> memory \<times> u32 \<Rightarrow> memory \<times> u32" where
  "push v s = (let (m, sp) = s in (store32 m (sp - 4) v, sp - 4))"

definition pop :: "memory \<Rightarrow> u32 \<Rightarrow> u32 \<times> u32" where
  "pop m sp = (load32 m sp, sp + 4)"

text \<open>A pushed segment register takes a 32-bit slot, whose upper half is the processor's choice.\<close>

definition segment_word :: "u16 \<Rightarrow> u16 \<Rightarrow> u32" where
  "segment_word high s = push_bit 16 (ucast high) OR ucast s"

section \<open>Into the kernel\<close>

text \<open>
  The processor: on a change of ring it switches to the stack of the task state segment, \<open>esp0\<close>,
  and saves the old one there; some exceptions push an error code.
\<close>

definition user_mode :: "cpu \<Rightarrow> bool" where
  "user_mode c \<longleftrightarrow> r_cs c AND 3 \<noteq> 0"

definition take_interrupt :: "u32 \<Rightarrow> u16 \<Rightarrow> u32 option \<Rightarrow> cpu \<Rightarrow> memory \<Rightarrow> memory \<times> u32" where
  "take_interrupt esp0 high err c m =
     (let s = (if user_mode c then push (r_esp c) (push (segment_word high (r_ss c)) (m, esp0)) else (m, r_esp c));
          s = push (r_eflags c) s;
          s = push (segment_word high (r_cs c)) s;
          s = push (r_eip c) s
      in (case err of None \<Rightarrow> s | Some e \<Rightarrow> push e s))"

text \<open>The trampoline: \<open>push cs\<close> as a filler, and the vector, which \<open>push imm8\<close> sign-extends.\<close>

definition run_trampoline :: "u16 \<Rightarrow> bool \<Rightarrow> u8 \<Rightarrow> memory \<times> u32 \<Rightarrow> memory \<times> u32" where
  "run_trampoline high filler b s =
     push (scast b) (if filler then push (segment_word high (segment_code KERNEL_CODE_SEGMENT)) s else s)"

text \<open>\<open>collect_ctx\<close> up to its call: the segments and \<open>pusha\<close>, which saves the \<open>esp\<close> it starts with.\<close>

definition collect_ctx_pushes :: "u16 \<Rightarrow> cpu \<Rightarrow> memory \<times> u32 \<Rightarrow> memory \<times> u32" where
  "collect_ctx_pushes high c s =
     (let s = push (segment_word high (r_ds c)) s;
          s = push (segment_word high (r_es c)) s;
          s = push (segment_word high (r_fs c)) s;
          s = push (segment_word high (r_gs c)) s;
          esp_at = snd s;
          s = push (r_eax c) s;
          s = push (r_ecx c) s;
          s = push (r_edx c) s;
          s = push (r_ebx c) s;
          s = push esp_at s;
          s = push (r_ebp c) s;
          s = push (r_esi c) s
      in push (r_edi c) s)"

text \<open>
  \<open>and esp, ~0xf\<close> aligns the stack of the handler; its argument, the address of the saved context,
  is stored at the top and the call pushes the return address.
\<close>

definition call_handler :: "u32 \<Rightarrow> memory \<times> u32 \<Rightarrow> memory \<times> u32" where
  "call_handler return s =
     (let (m, ebx) = s; sp = (ebx - 4) AND NOT 0xF in push return (store32 m sp ebx, sp))"

text \<open>
  An interrupt, from the present gate of its vector to the first instruction of
  \<open>universal_interrupt_handler\<close>: the memory, the stack pointer there and the one \<open>ebx\<close> keeps.
\<close>

definition interrupted :: "u32 \<Rightarrow> u16 \<Rightarrow> u32 \<Rightarrow> interrupts \<Rightarrow> u8 \<Rightarrow> u32 option \<Rightarrow> cpu \<Rightarrow> memory \<Rightarrow> (memory \<times> u32 \<times> u32) option" where
  "interrupted esp0 high return st v err c m =
     (let g = idt st ! unat v in
      if present g \<noteq> 1 then None
      else (case entry_effect m (gate_target g) of
              None \<Rightarrow> None
            | Some (filler, b, _) \<Rightarrow>
                (let s = collect_ctx_pushes high c (run_trampoline high filler b (take_interrupt esp0 high err c m));
                     (m', sp) = call_handler return s
                 in Some (m', sp, snd s))))"

section \<open>Out of the kernel\<close>

text \<open>\<open>unwind_context\<close>, from the stack pointer \<open>sp\<close> on; \<open>iret\<close> pops the stack only for an outer ring.\<close>

definition unwind_context :: "memory \<Rightarrow> u32 \<Rightarrow> cpu \<Rightarrow> cpu" where
  "unwind_context m sp c =
     (let (edi', sp) = pop m sp; (esi', sp) = pop m sp; (ebp', sp) = pop m sp; (_, sp) = pop m sp;
          (ebx', sp) = pop m sp; (edx', sp) = pop m sp; (ecx', sp) = pop m sp; (eax', sp) = pop m sp;
          (gs', sp) = pop m sp; (fs', sp) = pop m sp; (es', sp) = pop m sp; (ds', sp) = pop m sp;
          sp = sp + 8;
          (eip', sp) = pop m sp; (cs', sp) = pop m sp; (eflags', sp) = pop m sp;
          c = c\<lparr>r_edi := edi', r_esi := esi', r_ebp := ebp', r_ebx := ebx', r_edx := edx', r_ecx := ecx', r_eax := eax',
            r_gs := ucast gs', r_fs := ucast fs', r_es := ucast es', r_ds := ucast ds',
            r_eip := eip', r_cs := ucast cs', r_eflags := eflags'\<rparr>
      in if user_mode c
         then (let (esp', sp) = pop m sp; (ss', sp) = pop m sp in c\<lparr>r_esp := esp', r_ss := ucast ss'\<rparr>)
         else c\<lparr>r_esp := sp\<rparr>)"

text \<open>\<open>restore_context(ctx)\<close> loads its argument from the stack of the call.\<close>

definition restore_context :: "memory \<Rightarrow> cpu \<Rightarrow> cpu" where
  "restore_context m c = unwind_context m (load32 m (r_esp c + 4)) c"

section \<open>The structures in memory\<close>

definition Context_at :: "memory \<Rightarrow> u32 \<Rightarrow> Context" where
  "Context_at m p = \<lparr>edi = load32 m p, esi = load32 m (p + 4), ebp = load32 m (p + 8), esp = load32 m (p + 12),
     ebx = load32 m (p + 16), edx = load32 m (p + 20), ecx = load32 m (p + 24), eax = load32 m (p + 28),
     gs = load16 m (p + 32), fs = load16 m (p + 36), es = load16 m (p + 40), ds = load16 m (p + 44),
     vector = m (p + 48), error_code = load32 m (p + 52), eip = load32 m (p + 56), cs = load16 m (p + 60),
     eflags = load32 m (p + 64)\<rparr>"

definition IntraContext_at :: "memory \<Rightarrow> u32 \<Rightarrow> IntraContext" where
  "IntraContext_at m p = \<lparr>context_of = Context_at m p, user_esp = load32 m (p + 68), user_ss = load16 m (p + 72)\<rparr>"

section \<open>Lemmas\<close>

lemma load16_load32: "load16 m a = ucast (load32 m a)"
  by (rule bit_word_eqI) (auto simp: load16_def load32_def bit_simps)

lemma byte_load32: "m a = ucast (load32 m a)"
  by (rule bit_word_eqI) (auto simp: load32_def bit_simps)

lemma segment_word_low [simp]: "ucast (segment_word high s) = s"
  by (rule bit_word_eqI) (auto simp: segment_word_def bit_simps)

lemma ucast_scast_byte [simp]: "ucast (scast (b :: u8) :: u32) = b"
  by (rule bit_word_eqI) (auto simp: bit_simps)

text \<open>A sequence of pushes, and the frame it leaves: the words in the order of their addresses.\<close>

definition frame_at :: "memory \<Rightarrow> u32 \<Rightarrow> u32 list \<Rightarrow> bool" where
  "frame_at m p ws \<longleftrightarrow> (\<forall>i < length ws. load32 m (p + of_nat (4 * i)) = ws ! i)"

lemma frame_push:
  assumes "frame_at m sp ws" "4 * Suc (length ws) \<le> 2 ^ 32"
  shows "frame_at (fst (push w (m, sp))) (sp - 4) (w # ws)"
  unfolding frame_at_def
proof (intro allI impI)
  fix i
  assume i: "i < length (w # ws)"
  show "load32 (fst (push w (m, sp))) (sp - 4 + of_nat (4 * i)) = (w # ws) ! i"
  proof (cases i)
    case (Suc j)
    have "load32 (store32 m (sp - 4 + of_nat (4 * 0)) w) (sp - 4 + of_nat (4 * i)) = load32 m (sp - 4 + of_nat (4 * i))"
      using i Suc assms(2) by (intro load32_store32_cell) auto
    moreover have "sp - 4 + of_nat (4 * i) = sp + of_nat (4 * j)" by (simp add: Suc)
    ultimately show ?thesis using assms(1) i Suc by (simp add: push_def frame_at_def)
  qed (simp add: push_def)
qed

lemma push_sp [simp]: "snd (push w s) = snd s - 4"
  by (simp add: push_def split: prod.split)

text \<open>\<open>below p n a\<close>: the address \<open>a\<close> is one of the \<open>n\<close> bytes under \<open>p\<close>, where \<open>p\<close> is the top of a stack.\<close>

definition below :: "u32 \<Rightarrow> nat \<Rightarrow> u32 \<Rightarrow> bool" where
  "below p n a \<longleftrightarrow> 0 < unat (p - a) \<and> unat (p - a) \<le> n"

lemma below_mono: "below p n a \<Longrightarrow> n \<le> n' \<Longrightarrow> below p n' a"
  by (simp add: below_def)

lemma below_region: "in_region a (p - of_nat k) j \<Longrightarrow> j \<le> k \<Longrightarrow> k \<le> n \<Longrightarrow> k < 2 ^ 32 \<Longrightarrow> below p n a"
proof -
  assume *: "in_region a (p - of_nat k) j" "j \<le> k" "k \<le> n" "k < 2 ^ 32"
  from *(1) obtain i where i: "i < j" "a = p - of_nat k + of_nat i" by (rule in_regionE)
  with *(2) have pa: "p - a = of_nat (k - i)" by (simp add: of_nat_diff)
  have "unat (p - a) = k - i" unfolding pa using *(4) by (simp add: unat_of_nat take_bit_nat_eq_self)
  with i *(2,3) show ?thesis by (simp add: below_def)
qed

lemma not_below: "i + n < 2 ^ 32 \<Longrightarrow> \<not> below p n (p + of_nat i)"
proof
  assume i: "i + n < 2 ^ 32" and *: "below p n (p + of_nat i)"
  have "of_nat (i + unat (- (of_nat i :: u32))) = (0 :: u32)" by simp
  then have "2 ^ 32 dvd i + unat (- (of_nat i :: u32))" by (simp only: word_of_nat_eq_0_iff) simp
  moreover have "0 < unat (- (of_nat i :: u32))" "unat (- (of_nat i :: u32)) \<le> n"
    using * by (simp_all add: below_def)
  ultimately show False using i by (auto dest: dvd_imp_le)
qed

lemma below_further:
  assumes "below (p - of_nat j) n a" "j + n < 2 ^ 32" "j + n \<le> k"
  shows "below p k a"
proof (rule below_region [of _ _ "j + unat (p - of_nat j - a)" 1])
  have "a = p - of_nat (j + unat (p - of_nat j - a))" by simp
  then show "in_region a (p - of_nat (j + unat (p - of_nat j - a))) 1" by (simp only: in_region_self)
qed (use assms in \<open>auto simp: below_def\<close>)

lemma push_below: "same_outside (below sp 4) m (fst (push w (m, sp)))"
  by (auto simp: push_def intro!: same_outside_store32 below_region [of _ _ 4 4])

lemma frame_pushes:
  assumes "4 * length ws < 2 ^ 32"
  shows "frame_at (fst (fold push ws (m, sp))) (sp - of_nat (4 * length ws)) (rev ws)"
    "snd (fold push ws (m, sp)) = sp - of_nat (4 * length ws)"
    "same_outside (below sp (4 * length ws)) m (fst (fold push ws (m, sp)))"
  using assms
proof (induction ws rule: rev_induct)
  case (snoc w ws)
  let ?sp = "sp - of_nat (4 * length ws)"
  have IH: "frame_at (fst (fold push ws (m, sp))) ?sp (rev ws)" "snd (fold push ws (m, sp)) = ?sp"
    "same_outside (below sp (4 * length ws)) m (fst (fold push ws (m, sp)))" if "4 * length (ws @ [w]) < 2 ^ 32"
    using snoc that by simp_all
  have step: "fold push (ws @ [w]) (m, sp) = push w (fst (fold push ws (m, sp)), ?sp)" if "4 * length (ws @ [w]) < 2 ^ 32"
  proof -
    have "(fst (fold push ws (m, sp)), ?sp) = fold push ws (m, sp)" using IH(2) [OF that] by (simp add: prod_eq_iff)
    then show ?thesis by (simp only:) simp
  qed
  have sp: "sp - of_nat (4 * length (ws @ [w])) = ?sp - 4" by simp
  { case 1
    then show ?case unfolding step [OF 1] sp using frame_push [OF IH(1)] by simp
  next
    case 2
    then show ?case unfolding step [OF 2] sp by simp
  next
    case 3
    have "below sp (4 * length (ws @ [w])) a" if "below ?sp 4 a" for a
      using that 3 by (intro below_further [of sp "4 * length ws" 4]) auto
    then have "same_outside (below sp (4 * length (ws @ [w]))) (fst (fold push ws (m, sp))) (fst (push w (fst (fold push ws (m, sp)), ?sp)))"
      by (rule same_outside_mono [OF push_below])
    moreover have "same_outside (below sp (4 * length (ws @ [w]))) m (fst (fold push ws (m, sp)))"
      by (rule same_outside_mono [OF IH(3) [OF 3]]) (erule below_mono, simp)
    ultimately show ?case unfolding step [OF 3] by (rule same_outside_trans [rotated]) }
qed (simp_all add: frame_at_def)

lemma frame_atD: "frame_at m p ws \<Longrightarrow> i < length ws \<Longrightarrow> load32 m (p + of_nat (4 * i)) = ws ! i"
  by (simp add: frame_at_def)

text \<open>The words of an interrupt, from the top of the stack down to its base.\<close>

definition stack_base :: "u32 \<Rightarrow> cpu \<Rightarrow> u32" where
  "stack_base esp0 c = (if user_mode c then esp0 else r_esp c)"

definition interrupt_frame :: "u32 \<Rightarrow> u16 \<Rightarrow> u8 \<Rightarrow> u32 \<Rightarrow> cpu \<Rightarrow> u32 list" where
  "interrupt_frame esp0 high b err c =
     [r_edi c, r_esi c, r_ebp c, stack_base esp0 c - (if user_mode c then 44 else 36), r_ebx c, r_edx c, r_ecx c, r_eax c,
      segment_word high (r_gs c), segment_word high (r_fs c), segment_word high (r_es c), segment_word high (r_ds c),
      scast b, err, r_eip c, segment_word high (r_cs c), r_eflags c]
     @ (if user_mode c then [r_esp c, segment_word high (r_ss c)] else [])"

text \<open>The call of the handler leaves the frame as it is.\<close>

lemma and_not_minus: "(x :: u32) AND NOT y = x - (x AND y)"
proof -
  have "x = (x AND NOT y) + (x AND y)"
    by (subst disjunctive_add_eq_or) (auto intro!: bit_word_eqI simp: bit_simps)
  then show ?thesis by (simp add: eq_diff_eq)
qed

lemma call_handler_effect:
  assumes "call_handler return (m, p) = (m', sp)"
  shows "load32 m' (sp + 4) = p" "load32 m' sp = return" "(sp + 4) AND 0xF = 0" "same_outside (below p 23) m m'"
proof -
  let ?q = "(p - 4) AND NOT 0xF"
  let ?r = "(p - 4) AND 0xF"
  have "?q = (p - 4) - ?r" by (rule and_not_minus)
  also have "\<dots> = p - of_nat (4 + unat ?r)" by simp
  finally have q: "?q = p - of_nat (4 + unat ?r)" .
  then have q4: "?q - 4 = p - of_nat (8 + unat ?r)" by simp
  have r: "unat ?r \<le> 15"
    using word_and_le1 [of "p - 4" "0xF"] by (simp add: word_le_nat_alt)
  have m': "m' = store32 (store32 m ?q p) (?q - 4) return" and sp: "sp = ?q - 4"
    using assms by (auto simp: call_handler_def push_def Let_def)
  show "load32 m' sp = return" by (simp add: m' sp)
  show "load32 m' (sp + 4) = p"
    using load32_store32_cell [of 0 1 "store32 m ?q p" "?q - 4" return] by (simp add: m' sp)
  show "(sp + 4) AND 0xF = 0" by (simp add: sp) (auto intro!: bit_word_eqI simp: bit_simps)
  have "same_outside (below p 23) m (store32 m ?q p)"
    by (rule same_outside_store32, subst (asm) q, erule below_region) (use r in auto)
  moreover have "same_outside (below p 23) (store32 m ?q p) m'"
    unfolding m' by (rule same_outside_store32, subst (asm) q4, erule below_region) (use r in auto)
  ultimately show "same_outside (below p 23) m m'" by (rule same_outside_trans)
qed

text \<open>The error code, or the filler of the trampoline in its place.\<close>

definition error_word :: "u16 \<Rightarrow> u32 option \<Rightarrow> u32" where
  "error_word high err = (case err of None \<Rightarrow> segment_word high (segment_code KERNEL_CODE_SEGMENT) | Some e \<Rightarrow> e)"

lemma interrupted_pushes:
  assumes "entry_effect m (gate_target (idt st ! unat v)) = Some (err = None, b, target)" "present (idt st ! unat v) = 1"
    and "s = fold push (rev (interrupt_frame esp0 high b (error_word high err) c)) (m, stack_base esp0 c)"
  shows "interrupted esp0 high return st v err c m =
    Some (let (m', sp) = call_handler return s in (m', sp, snd s))"
proof -
  have s: "s = collect_ctx_pushes high c (run_trampoline high (err = None) b (take_interrupt esp0 high err c m))"
    unfolding assms(3)
    by (cases err; cases "user_mode c") (simp_all add: take_interrupt_def run_trampoline_def collect_ctx_pushes_def
      interrupt_frame_def stack_base_def error_word_def Let_def diff_diff_eq)
  show ?thesis using assms(1,2) by (simp add: interrupted_def s Let_def split: prod.split)
qed

text \<open>The memory and the stack pointers of the handler's call.\<close>

lemma interrupted_frame:
  assumes "entry_effect m (gate_target (idt st ! unat v)) = Some (err = None, b, target)" "present (idt st ! unat v) = 1"
  obtains m' sp p where "interrupted esp0 high return st v err c m = Some (m', sp, p)"
    "frame_at m' p (interrupt_frame esp0 high b (error_word high err) c)" "load32 m' (sp + 4) = p" "(sp + 4) AND 0xF = 0"
    "p = stack_base esp0 c - (if user_mode c then 76 else 68)" "same_outside (below (stack_base esp0 c) 99) m m'"
proof -
  let ?f = "interrupt_frame esp0 high b (error_word high err) c"
  let ?m = "fst (fold push (rev ?f) (m, stack_base esp0 c))"
  define p where "p = stack_base esp0 c - of_nat (4 * length ?f)"
  have n: "length ?f = (if user_mode c then 19 else 17)" by (simp add: interrupt_frame_def)
  then have p: "p = stack_base esp0 c - (if user_mode c then 76 else 68)" and n': "4 * length ?f < 2 ^ 32" by (simp_all add: p_def)
  note pushes = frame_pushes [where ws = "rev ?f" and m = m and sp = "stack_base esp0 c", unfolded length_rev rev_rev_ident, OF n', folded p_def]
  obtain m' sp where call: "call_handler return (?m, p) = (m', sp)" by fastforce
  note e = call_handler_effect [OF call]
  have "below (stack_base esp0 c) 99 a" if "below p 23 a" for a
    by (rule below_further [OF that [unfolded p_def]]) (simp_all add: n)
  then have "same_outside (below (stack_base esp0 c) 99) ?m m'"
    by (rule same_outside_mono [OF e(4)])
  moreover have "same_outside (below (stack_base esp0 c) 99) m ?m"
    by (rule same_outside_mono [OF pushes(3)]) (erule below_mono, simp add: n)
  ultimately have "same_outside (below (stack_base esp0 c) 99) m m'" by (rule same_outside_trans [rotated])
  moreover have "frame_at m' p ?f"
    unfolding frame_at_def
  proof (intro allI impI)
    fix i
    assume i: "i < length ?f"
    have "load32 m' (p + of_nat (4 * i)) = load32 ?m (p + of_nat (4 * i))"
    proof (rule load32_same_outside [OF e(4)])
      fix k :: nat
      assume "k < 4"
      then show "\<not> below p 23 (p + of_nat (4 * i) + of_nat k)"
        using not_below [of "4 * i + k" 23 p] i n by (simp add: add.assoc split: if_splits)
    qed
    with frame_atD [OF pushes(1) i] show "load32 m' (p + of_nat (4 * i)) = ?f ! i" by simp
  qed
  moreover have "interrupted esp0 high return st v err c m = Some (m', sp, p)"
  proof -
    have "fold push (rev ?f) (m, stack_base esp0 c) = (?m, p)" using pushes(2) by (simp add: prod_eq_iff)
    from interrupted_pushes [OF assms this [symmetric]] call show ?thesis by simp
  qed
  ultimately show ?thesis using e p by (intro that)
qed

text \<open>The structures and the way back, read off a frame.\<close>

lemma Context_of_words:
  assumes "frame_at m p ws" "17 \<le> length ws"
  shows "Context_at m p = \<lparr>edi = ws ! 0, esi = ws ! 1, ebp = ws ! 2, esp = ws ! 3, ebx = ws ! 4, edx = ws ! 5, ecx = ws ! 6,
      eax = ws ! 7, gs = ucast (ws ! 8), fs = ucast (ws ! 9), es = ucast (ws ! 10), ds = ucast (ws ! 11),
      vector = ucast (ws ! 12), error_code = ws ! 13, eip = ws ! 14, cs = ucast (ws ! 15), eflags = ws ! 16\<rparr>"
proof -
  note w = frame_atD [OF assms(1)]
  have b: "m (p + 48) = ucast (load32 m (p + 48))" by (rule byte_load32)
  have "ws \<noteq> []" using assms(2) by auto
  then show ?thesis
    using assms(2) w [of 0] w [of 1] w [of 2] w [of 3] w [of 4] w [of 5] w [of 6] w [of 7] w [of 8] w [of 9] w [of 10]
      w [of 11] w [of 12] w [of 13] w [of 14] w [of 15] w [of 16]
    by (simp add: Context_at_def b load16_load32)
qed

lemma user_stack_of_words:
  assumes "frame_at m p ws" "19 \<le> length ws"
  shows "user_esp (IntraContext_at m p) = ws ! 17" "user_ss (IntraContext_at m p) = ucast (ws ! 18)"
  using assms(2) frame_atD [OF assms(1), of 17] frame_atD [OF assms(1), of 18]
  by (simp_all add: IntraContext_at_def load16_load32)

lemma Context_of_frame:
  assumes "frame_at m p (interrupt_frame esp0 high b err c)"
  shows "Context_at m p = \<lparr>edi = r_edi c, esi = r_esi c, ebp = r_ebp c,
      esp = stack_base esp0 c - (if user_mode c then 44 else 36), ebx = r_ebx c, edx = r_edx c, ecx = r_ecx c, eax = r_eax c,
      gs = r_gs c, fs = r_fs c, es = r_es c, ds = r_ds c, vector = b, error_code = err, eip = r_eip c, cs = r_cs c,
      eflags = r_eflags c\<rparr>"
    "user_mode c \<Longrightarrow> user_esp (IntraContext_at m p) = r_esp c \<and> user_ss (IntraContext_at m p) = r_ss c"
proof -
  show "Context_at m p = \<lparr>edi = r_edi c, esi = r_esi c, ebp = r_ebp c,
      esp = stack_base esp0 c - (if user_mode c then 44 else 36), ebx = r_ebx c, edx = r_edx c, ecx = r_ecx c, eax = r_eax c,
      gs = r_gs c, fs = r_fs c, es = r_es c, ds = r_ds c, vector = b, error_code = err, eip = r_eip c, cs = r_cs c,
      eflags = r_eflags c\<rparr>"
    by (subst Context_of_words [OF assms]) (simp_all add: interrupt_frame_def nth_append)
  show "user_esp (IntraContext_at m p) = r_esp c \<and> user_ss (IntraContext_at m p) = r_ss c" if "user_mode c"
    using that user_stack_of_words [OF assms] by (simp add: interrupt_frame_def)
qed

lemma unwind_fields:
  "unwind_context m p c = (let x = Context_at m p; y = IntraContext_at m p in
     c\<lparr>r_edi := edi x, r_esi := esi x, r_ebp := ebp x, r_ebx := ebx x, r_edx := edx x, r_ecx := ecx x, r_eax := eax x,
       r_gs := gs x, r_fs := fs x, r_es := es x, r_ds := ds x, r_eip := eip x, r_cs := cs x, r_eflags := eflags x,
       r_esp := (if cs x AND 3 \<noteq> 0 then user_esp y else p + 68), r_ss := (if cs x AND 3 \<noteq> 0 then user_ss y else r_ss c)\<rparr>)"
  by (cases "ucast (load32 m (p + 60)) AND (3 :: u16) = 0")
    (simp_all add: unwind_context_def pop_def Context_at_def IntraContext_at_def user_mode_def load16_load32 add.assoc)


text \<open>A frame that is left alone gives the interrupted registers back.\<close>

lemma unwind_frame:
  assumes "frame_at m p (interrupt_frame esp0 high b code c)" "p = stack_base esp0 c - (if user_mode c then 76 else 68)"
    and "\<not> user_mode c \<Longrightarrow> r_ss c' = r_ss c"
  shows "unwind_context m p c' = c"
proof (cases "user_mode c")
  case True
  then show ?thesis using Context_of_frame [OF assms(1)]
    by (simp add: unwind_fields Let_def user_mode_def)
next
  case False
  then show ?thesis using Context_of_frame(1) [OF assms(1)] assms(2, 3)
    by (simp add: unwind_fields Let_def user_mode_def stack_base_def)
qed

text \<open>A process that runs for the first time is entered with its initial context.\<close>

lemma new_process_context:
  assumes "switch_process k = Inr (ctx, k')" "process_pdt (process_of k (fst (scheduler_next_process (sched_of k)))) = 0"
  shows "ctx = initial_context (process_executable (process_of k (fst (scheduler_next_process (sched_of k)))))"
proof -
  obtain p s where sw: "scheduler_next_process (sched_of k) = (p, s)" by fastforce
  then have s: "nodes s = nodes (sched_of k)" by (auto simp: scheduler_next_process_def Let_def)
  then have "process_of (k\<lparr>sched_of := s\<rparr>) = process_of k" by (simp add: process_of_def fun_eq_iff)
  with assms sw show ?thesis
    by (auto simp: switch_process_def Let_def s update_process_def split: sum.splits)
qed

lemma restore_user_context:
  assumes "IntraContext_at m (load32 m (r_esp c + 4)) = ctx" "cs (context_of ctx) AND 3 \<noteq> 0"
  shows "restore_context m c = (let x = context_of ctx in \<lparr>r_edi = edi x, r_esi = esi x, r_ebp = ebp x, r_esp = user_esp ctx,
    r_ebx = ebx x, r_edx = edx x, r_ecx = ecx x, r_eax = eax x, r_gs = gs x, r_fs = fs x, r_es = es x, r_ds = ds x,
    r_eip = eip x, r_cs = cs x, r_eflags = eflags x, r_ss = user_ss ctx\<rparr>)"
proof -
  have "Context_at m (load32 m (r_esp c + 4)) = context_of ctx" using assms(1) by (auto simp: IntraContext_at_def)
  then show ?thesis using assms by (simp add: restore_context_def unwind_fields Let_def)
qed

text \<open>A memory with any words on the stack.\<close>

lemma frame_exists:
  assumes "4 * length ws < 2 ^ 32"
  obtains m where "frame_at m p ws"
  using frame_pushes(1) [of "rev ws" undefined "p + of_nat (4 * length ws)"] assms by simp

lemma frame_tail: "frame_at m p (w # ws) \<Longrightarrow> load32 m p = w \<and> frame_at m (p + 4) ws"
  unfolding frame_at_def
proof (intro conjI allI impI)
  assume *: "\<forall>i < length (w # ws). load32 m (p + of_nat (4 * i)) = (w # ws) ! i"
  from spec [OF *, of 0] show "load32 m p = w" by simp
  fix i
  assume "i < length ws"
  with spec [OF *, of "Suc i"] show "load32 m (p + 4 + of_nat (4 * i)) = ws ! i" by (simp add: add.assoc)
qed

section \<open>Properties\<close>

text \<open>
  C39: an interrupt through a present gate, whose trampoline pushes a filler exactly where the
  processor has pushed no error code, calls \<open>universal_interrupt_handler\<close> with a 16-byte aligned
  argument: the address of a \<open>Context\<close> that holds every register as it was interrupted, the vector
  the trampoline pushed and the error code (or the filler). From user mode the user's \<open>esp\<close> and
  \<open>ss\<close> follow it, as in \<open>IntraContext\<close>. At most 99 bytes under the kernel's stack pointer are
  written.
\<close>

theorem interrupt_context:
  assumes "entry_effect m (gate_target (idt st ! unat v)) = Some (err = None, b, target)" "present (idt st ! unat v) = 1"
  shows "\<exists>m' sp p. interrupted esp0 high return st v err c m = Some (m', sp, p)
    \<and> load32 m' (sp + 4) = p \<and> (sp + 4) AND 0xF = 0
    \<and> Context_at m' p = \<lparr>edi = r_edi c, esi = r_esi c, ebp = r_ebp c, esp = p + 32, ebx = r_ebx c, edx = r_edx c,
        ecx = r_ecx c, eax = r_eax c, gs = r_gs c, fs = r_fs c, es = r_es c, ds = r_ds c, vector = b,
        error_code = error_word high err, eip = r_eip c, cs = r_cs c, eflags = r_eflags c\<rparr>
    \<and> (user_mode c \<longrightarrow> user_esp (IntraContext_at m' p) = r_esp c \<and> user_ss (IntraContext_at m' p) = r_ss c)
    \<and> same_outside (below (if user_mode c then esp0 else r_esp c) 99) m m'"
proof -
  obtain m' sp p where *: "interrupted esp0 high return st v err c m = Some (m', sp, p)"
    "frame_at m' p (interrupt_frame esp0 high b (error_word high err) c)" "load32 m' (sp + 4) = p" "(sp + 4) AND 0xF = 0"
    "p = stack_base esp0 c - (if user_mode c then 76 else 68)" "same_outside (below (stack_base esp0 c) 99) m m'"
    using assms by (rule interrupted_frame)
  have "stack_base esp0 c - (if user_mode c then 44 else 36) = p + 32" by (simp add: *(5))
  with Context_of_frame [OF *(2)] *(1,3,4,6) show ?thesis
    by (intro exI [of _ m'] exI [of _ sp] exI [of _ p]) (simp add: stack_base_def)
qed

text \<open>A breakpoint (vector 3) in user code, for the witnesses.\<close>

abbreviation user_cpu :: cpu where
  "user_cpu \<equiv> \<lparr>r_edi = 1, r_esi = 2, r_ebp = 3, r_esp = 0x7ffff0, r_ebx = 5, r_edx = 6, r_ecx = 7, r_eax = 8,
     r_gs = 0x23, r_fs = 0x23, r_es = 0x23, r_ds = 0x23, r_eip = 0x9600, r_cs = 0x1B, r_eflags = 0x202, r_ss = 0x23\<rparr>"

abbreviation breakpoint_table :: interrupts where
  "breakpoint_table \<equiv> \<lparr>idt = replicate 256 (write_descriptor 0x1000 INTERRUPT_GATE True), idt_address = 0,
     handlerTable = replicate 256 0, trampolines = 0x1000, idtr = (2047, 0)\<rparr>"

abbreviation breakpoint_memory :: memory where
  "breakpoint_memory \<equiv> (\<lambda>_. 0)(0x1000 := 0x0E, 0x1001 := 0x6A, 0x1002 := 3, 0x1003 := 0xE9)"

lemma breakpoint_entry:
  "entry_effect breakpoint_memory (gate_target (idt breakpoint_table ! unat (3 :: u8))) = Some (None = (None :: u32 option), 3, 0x1008)"
  "present (idt breakpoint_table ! unat (3 :: u8)) = 1"
  by (simp add: entry_effect_def load32_def) (simp add: write_descriptor_def)

theorem interrupt_context_witness:
  "\<exists>m' sp p. interrupted 0x7C00 0 0x7E00 breakpoint_table 3 None user_cpu breakpoint_memory = Some (m', sp, p)
    \<and> load32 m' (sp + 4) = p \<and> vector (Context_at m' p) = 3 \<and> eip (Context_at m' p) = 0x9600
    \<and> user_esp (IntraContext_at m' p) = 0x7ffff0"
proof -
  have "user_mode user_cpu" by (simp add: user_mode_def)
  with interrupt_context [OF breakpoint_entry, where ?esp0.0 = "0x7C00" and high = 0 and return = "0x7E00" and c = user_cpu] show ?thesis by auto
qed

text \<open>
  C40: the way out undoes the way in. When the handler leaves the saved words above its argument
  alone, \<open>unwind_context\<close> from there gives back every register of the interrupted code, its stack
  pointer, instruction pointer, flags and ring included (\<open>ss\<close> is reloaded only on a return to the
  outer ring, so within the kernel it is the handler's).
\<close>

theorem interrupt_return:
  assumes "entry_effect m (gate_target (idt st ! unat v)) = Some (err = None, b, target)" "present (idt st ! unat v) = 1"
    and "interrupted esp0 high return st v err c m = Some (m', sp, p)"
    and "\<And>a. in_region a p (if user_mode c then 76 else 68) \<Longrightarrow> m'' a = m' a"
    and "\<not> user_mode c \<Longrightarrow> r_ss c' = r_ss c"
  shows "unwind_context m'' p c' = c"
proof -
  let ?f = "interrupt_frame esp0 high b (error_word high err) c"
  have f: "frame_at m' p ?f" and p: "p = stack_base esp0 c - (if user_mode c then 76 else 68)"
    using interrupted_frame [OF assms(1,2)] assms(3) by (metis option.inject prod.inject)+
  have "frame_at m'' p ?f"
    unfolding frame_at_def
  proof (intro allI impI)
    fix i
    assume i: "i < length ?f"
    have "load32 m'' (p + of_nat (4 * i)) = load32 m' (p + of_nat (4 * i))"
    proof (rule load32_cong)
      fix k :: nat
      assume "k < 4"
      then have "in_region (p + of_nat (4 * i + k)) p (if user_mode c then 76 else 68)"
        using i by (intro in_region_offset) (auto simp: interrupt_frame_def split: if_splits)
      then show "m'' (p + of_nat (4 * i) + of_nat k) = m' (p + of_nat (4 * i) + of_nat k)"
        using assms(4) by (simp add: add.assoc)
    qed
    with frame_atD [OF f i] show "load32 m'' (p + of_nat (4 * i)) = ?f ! i" by simp
  qed
  then show ?thesis using p assms(5) by (rule unwind_frame)
qed

theorem interrupt_return_witness:
  "\<exists>m' sp p. interrupted 0x7C00 0 0x7E00 breakpoint_table 3 None user_cpu breakpoint_memory = Some (m', sp, p)
    \<and> unwind_context m' p (user_cpu\<lparr>r_eax := 99, r_esp := 0, r_cs := 8\<rparr>) = user_cpu"
proof -
  obtain m' sp p where i: "interrupted 0x7C00 0 0x7E00 breakpoint_table 3 None user_cpu breakpoint_memory = Some (m', sp, p)"
    using breakpoint_entry by (rule interrupted_frame)
  have "unwind_context m' p (user_cpu\<lparr>r_eax := 99, r_esp := 0, r_cs := 8\<rparr>) = user_cpu"
    by (rule interrupt_return [OF breakpoint_entry i]) simp_all
  with i show ?thesis by blast
qed

text \<open>
  C8: \<open>restore_context\<close> on the context \<open>switch_process\<close> has made for a new process enters user
  mode: ring 3, at the entry point of the process, on the top of its stack, with interrupts
  enabled, all data segments the user's, and every general register cleared, so that nothing
  the kernel computed is left in them.
\<close>

theorem process_enters_user:
  assumes "switch_process k = Inr (ctx, k')" "process_pdt (process_of k (fst (scheduler_next_process (sched_of k)))) = 0"
    and "IntraContext_at m (load32 m (r_esp c + 4)) = ctx"
  shows "restore_context m c = \<lparr>r_edi = 0, r_esi = 0, r_ebp = 0, r_esp = 0x800000, r_ebx = 0, r_edx = 0, r_ecx = 0, r_eax = 0,
    r_gs = 0x23, r_fs = 0x23, r_es = 0x23, r_ds = 0x23,
    r_eip = process_executable (process_of k (fst (scheduler_next_process (sched_of k)))), r_cs = 0x1B, r_eflags = 0x202, r_ss = 0x23\<rparr>"
  using restore_user_context [OF assms(3)] new_process_context [OF assms(1,2)]
  by (simp add: initial_context_def)

theorem process_enters_user_witness:
  "\<exists>k ctx k' m. reachable lay0 k \<and> switch_process k = Inr (ctx, k') \<and> IntraContext_at m 0x2000 = ctx
    \<and> r_cs (restore_context m (user_cpu\<lparr>r_cs := 8, r_esp := 0x1FF8\<rparr>)) = 0x1B"
proof -
  from boot_started obtain k ctx k' where k: "reachable lay0 k" "switch_process k = Inr (ctx, k')"
    "process_pdt (process_of k (fst (scheduler_next_process (sched_of k)))) = 0" by blast
  let ?f = "process_executable (process_of k (fst (scheduler_next_process (sched_of k))))"
  let ?ws = "[0, 0, 0, 0, 0, 0, 0, 0, 0x23, 0x23, 0x23, 0x23, 0, 0, ?f, 0x1B, 0x202, 0x800000, 0x23]"
  have "4 * length (0x2000 # ?ws) < 2 ^ 32" by simp
  then obtain m where "frame_at m 0x1FFC (0x2000 # ?ws)" by (rule frame_exists)
  then have m: "load32 m 0x1FFC = 0x2000" "frame_at m 0x2000 ?ws" using frame_tail by fastforce+
  have "IntraContext_at m 0x2000 = initial_context ?f"
    using Context_of_words [OF m(2)] user_stack_of_words [OF m(2)] by (simp add: IntraContext_at_def initial_context_def)
  then have c: "IntraContext_at m 0x2000 = ctx" using new_process_context [OF k(2,3)] by simp
  from process_enters_user [OF k(2,3), of m "user_cpu\<lparr>r_cs := 8, r_esp := 0x1FF8\<rparr>"] m(1) c
  show ?thesis using k(1,2) by (intro exI [of _ k] exI [of _ ctx] exI [of _ k'] exI [of _ m]) simp
qed

end
