(* ===== verification/Panic.thy ===== *)
theory Panic
  imports Interrupts Logger
begin

text \<open>
  \<^verbatim>\<open>src/assert.c\<close>: the kernel panic, and what the panic of an unhandled interrupt shows. All numbers of
  its messages are printed with \<open>%#010x\<close>; \<open>hex_text\<close> says what such a message reads as. This composes
  the dispatcher of \<open>Interrupts\<close>, the formatted output, the console and the screen.
\<close>

section \<open>Panic\<close>

text \<open>The screen the machine halts with; \<open>stdout\<close> is \<open>fullscreen\<close> already, the one console there is.\<close>

definition vkernel_panic :: "u32 \<Rightarrow> (nat \<Rightarrow> u32) \<Rightarrow> tty \<Rightarrow> tty option" where
  "vkernel_panic fmt args t = map_option snd (vprintf fmt args t)"

definition kernel_panic :: "u32 \<Rightarrow> (nat \<Rightarrow> u32) \<Rightarrow> tty \<Rightarrow> tty option" where
  "kernel_panic fmt args t = vkernel_panic fmt args t"

section \<open>Messages of hexadecimal numbers\<close>

text \<open>A 32-bit word with its eight digits.\<close>

definition hex32 :: "u32 \<Rightarrow> u8 list" where
  "hex32 v = [ch (CHR ''0''), ch (CHR ''x'')] @ map (\<lambda>i. lower_digits ! (unat v div 16 ^ i mod 16)) (rev [0..<8])"

function hex_text :: "(nat \<Rightarrow> u32) \<Rightarrow> nat \<Rightarrow> string \<Rightarrow> u8 list" where
  "hex_text args k [] = []"
| "hex_text args k (c # rest) =
     (if take 6 (c # rest) = ''%#010x'' then hex32 (args k) @ hex_text args (Suc k) (drop 5 rest) else ch c # hex_text args k rest)"
  by pat_completeness auto
termination
  by (relation "measure (\<lambda>(args, k, rest). length rest)") auto

text \<open>Formats that have no other directives.\<close>

function hex_format :: "string \<Rightarrow> bool" where
  "hex_format [] \<longleftrightarrow> True"
| "hex_format (c # rest) \<longleftrightarrow>
     (if take 6 (c # rest) = ''%#010x'' then hex_format (drop 5 rest)
      else ch c \<notin> {0, ch (CHR ''%''), ESC, 0x08} \<and> hex_format rest)"
  by pat_completeness auto
termination
  by (relation "measure length") auto

section \<open>Lemmas: the digits\<close>

lemma padded_digits:
  assumes "unat v < 16 ^ n"
  shows "reversed_digits L 16 v @ replicate (n - length (reversed_digits L 16 v)) (L ! 0)
    = map (\<lambda>i. L ! (unat v div 16 ^ i mod 16)) [0..<n]"
  using assms
proof (induction n arbitrary: v)
  case 0
  then show ?case by (simp add: reversed_digits.simps unat_eq_0)
next
  case (Suc n)
  have map: "map f [0..<Suc n] = f 0 # map (\<lambda>i. f (Suc i)) [0..<n]" for f :: "nat \<Rightarrow> u8"
    by (simp add: upt_conv_Cons map_Suc_upt [symmetric] comp_def del: upt_Suc)
  show ?case
  proof (cases "v = 0")
    case True
    then show ?thesis by (simp add: reversed_digits.simps map_replicate_const del: upt_Suc)
  next
    case False
    have d: "unat (v div 16) = unat v div 16" "unat (v mod 16) = unat v mod 16" by (simp_all add: unat_div unat_mod)
    then have "unat (v div 16) < 16 ^ n" using Suc.prems by (simp add: less_mult_imp_div_less mult.commute)
    from Suc.IH [OF this] False show ?thesis
      unfolding map by (simp add: reversed_digits.simps [of L 16 v] d div_mult2_eq)
  qed
qed

definition hex_flags :: u8 where "hex_flags = ALT_FLAG OR ZERO_FLAG"

lemma hex_field: "integer_field v 16 10 (-1) (ucast hex_flags) = hex32 v"
proof -
  have bits: "\<not> bit (ucast hex_flags :: u32) 0" "bit (ucast hex_flags :: u32) 3" "bit (ucast hex_flags :: u32) 4"
    "\<not> bit (ucast hex_flags :: u32) 5" "\<not> bit (ucast hex_flags :: u32) 6"
    by (simp_all add: hex_flags_def ALT_FLAG_def ZERO_FLAG_def)
  let ?d = "reversed_digits lower_digits 16 v" and ?z = "ch (CHR ''0'')"
  have z: "lower_digits ! 0 = ?z" by (simp add: lower_digits_def)
  have v: "unat v < 16 ^ 8" using unat_lt_2p32 [of v] by simp
  have len: "length ?d \<le> 8" using reversed_digits_length [of 16 v 8 lower_digits] v by simp
  have "rev (?d @ replicate (8 - length ?d) ?z) = map (\<lambda>i. lower_digits ! (unat v div 16 ^ i mod 16)) (rev [0..<8])"
    using padded_digits [OF v, of lower_digits] unfolding z by (simp only: rev_map)
  then have all: "replicate (8 - length ?d) ?z @ rev ?d = map (\<lambda>i. lower_digits ! (unat v div 16 ^ i mod 16)) (rev [0..<8])" by simp
  show ?thesis
  proof (cases "v = 0")
    case True
    then have "?d = []" by (simp add: reversed_digits.simps)
    moreover have "replicate 8 ?z = replicate 7 ?z @ [?z]" by (simp add: numeral_eq_Suc)
    ultimately show ?thesis using all bits True
      by (simp add: integer_field_def integer_sign_def integer_prefix_def integer_digits_def hex32_def Let_def)
  next
    case False
    have "nat (2 + int n) = 2 + n" for n by (simp add: nat_add_distrib)
    then show ?thesis using False all bits len
      by (simp add: integer_field_def integer_sign_def integer_prefix_def integer_digits_def hex32_def Let_def nat_diff_distrib')
  qed
qed

section \<open>Lemmas: rendering\<close>

lemma parse_hex:
  assumes "m (f + 1) = ch (CHR ''#'')" "m (f + 2) = ch (CHR ''0'')" "m (f + 3) = ch (CHR ''1'')" "m (f + 4) = ch (CHR ''0'')"
    and "m (f + 5) = ch (CHR ''x'')"
  shows "parse_conversion m args f k
    = Some (f + 5, \<lparr>conv_flags = hex_flags, conv_width = 10, conv_prescision = -1, conv_qualifier = -1\<rparr>, k)"
proof -
  have flags: "parse_flags m f 0 = Some (f + 3, hex_flags)"
    using assms(1-3) by (simp add: parse_flags.simps [of m f] parse_flags.simps [of m "f + 1"] parse_flags.simps [of m "f + 2"]
      hex_flags_def Let_def add.assoc)
  have "parse_int m (f + 3) = Some (f + 5, 10)"
    using assms(3-5) by (simp add: parse_int_def parse_int_loop.simps [of m "f + 3"] parse_int_loop.simps [of m "f + 4"]
      parse_int_loop.simps [of m "f + 5"] isdigit_def add.assoc)
  with assms flags show ?thesis
    by (simp add: parse_conversion_def adjust_flags_def parse_width_def parse_prescision_def parse_qualifier_def isdigit_def
        hex_flags_def ALT_FLAG_def ZERO_FLAG_def Let_def)
qed

text \<open>A format of hexadecimal directives renders to its text.\<close>

lemma renders_hex:
  assumes "hex_format s" "literal R m p s"
  shows "renders R m args p k (hex_text args k s)"
  using assms
proof (induction args k s arbitrary: p rule: hex_text.induct)
  case (1 args k)
  then have "\<not> R p" "m p = 0" by (auto simp: literal_def)
  then show ?case by (simp add: renders.stop)
next
  case (2 args k c rest)
  have at: "\<not> R (p + of_nat i)" "m (p + of_nat i) = ch ((c # rest) ! i)" if "i < Suc (length rest)" for i
    using "2.prems"(2) that by (auto simp: literal_def)
  show ?case
  proof (cases "take 6 (c # rest) = ''%#010x''")
    case True
    have "min (length (c # rest)) 6 = length ''%#010x''" unfolding True [symmetric] by simp
    then have len: "5 \<le> length rest" by (simp add: min_def split: if_splits)
    then have "rest \<noteq> []" by auto
    note len = len this
    have nth: "(c # rest) ! i = ''%#010x'' ! i" if "i < 6" for i
      using that nth_take [of i 6 "c # rest"] unfolding True by simp
    have b: "m p = ch (CHR ''%'')" "m (p + 1) = ch (CHR ''#'')" "m (p + 2) = ch (CHR ''0'')" "m (p + 3) = ch (CHR ''1'')"
      "m (p + 4) = ch (CHR ''0'')" "m (p + 5) = ch (CHR ''x'')"
      using at(2) [of 0] at(2) [of 1] at(2) [of 2] at(2) [of 3] at(2) [of 4] at(2) [of 5]
        nth [of 0] nth [of 1] nth [of 2] nth [of 3] nth [of 4] nth [of 5] len by simp_all
    have out: "\<not> R p" "\<not> R (p + 1)" "\<not> R (p + 2)" "\<not> R (p + 3)" "\<not> R (p + 4)" "\<not> R (p + 5)"
      using at(1) [of 0] at(1) [of 1] at(1) [of 2] at(1) [of 3] at(1) [of 4] at(1) [of 5] len by simp_all
    let ?cv = "\<lparr>conv_flags = hex_flags, conv_width = 10, conv_prescision = -1, conv_qualifier = -1\<rparr>"
    have "literal R m (p + of_nat 6) (drop 6 (c # rest))" using len by (intro literal_drop "2.prems"(2)) simp
    moreover have "hex_format (drop 5 rest)" using "2.prems"(1) True by simp
    ultimately have "renders R m args (p + 6) (Suc k) (hex_text args (Suc k) (drop 5 rest))"
      using "2.IH"(1) [OF True] by simp
    then have tail: "renders R m args (p + 5 + 1) (conversion_next (m (p + 5)) k) (hex_text args (Suc k) (drop 5 rest))"
      by (simp add: b conversion_next_def integer_conversion_def add.assoc)
    have "renders R m args p k (conversion_field m args (m (p + 5)) ?cv k @ hex_text args (Suc k) (drop 5 rest))"
    proof (rule renders.conv [where R = R and m = m and args = args and f = p and k = k and g = "p + 5" and cv = ?cv and j = k])
      show "parse_conversion m' args p k = Some (p + 5, ?cv, k)" if "same_outside R m m'" for m'
        using that b out by (intro parse_hex) (simp_all add: same_outside_def)
    qed (use out b tail in simp_all)
    moreover have "conversion_field m args (m (p + 5)) ?cv k = hex32 (args k)"
      using hex_field by (simp add: b conversion_field_def integer_conversion_def integer_argument_def)
    ultimately show ?thesis using True by simp
  next
    case False
    have "literal R m (p + 1) rest" using literal_drop [OF "2.prems"(2), of 1] by simp
    with "2.IH"(2) [OF False] "2.prems"(1) False have "renders R m args (p + 1) k (hex_text args k rest)" by simp
    moreover have "\<not> R p" "m p = ch c" using at [of 0] by simp_all
    ultimately have "renders R m args p k (m p # hex_text args k rest)"
      using "2.prems"(1) False by (intro renders.plain) auto
    then show ?thesis unfolding hex_text.simps if_not_P [OF False] \<open>m p = ch c\<close> .
  qed
qed

section \<open>Lemmas: the messages\<close>

lemma hex_text_bytes: "set (hex_text args k s) \<subseteq> ch ` set s \<union> set (ch (CHR ''x'') # lower_digits)"
proof (induction args k s rule: hex_text.induct)
  case (2 args k c rest)
  have "lower_digits ! (n mod 16) \<in> set lower_digits" for n by (rule nth_mem) (simp add: lower_digits_def)
  moreover have "ch (CHR ''0'') \<in> set lower_digits" by (simp add: lower_digits_def)
  ultimately have "set (hex32 v) \<subseteq> set (ch (CHR ''x'') # lower_digits)" for v by (auto simp: hex32_def)
  then have "set (hex32 (args k)) \<subseteq> set (ch (CHR ''x'') # lower_digits)" .
  then show ?case using 2 by (auto dest: in_set_dropD)
qed simp

lemma panic_lengths:
  "length (hex_text args k PANIC_MESSAGE) = 243"
  "length (hex_text args k (PANIC_MESSAGE @ ''\<newline>'' @ ERROR_CODE_MESSAGE)) = 267"
  "length (hex_text args k (PANIC_MESSAGE @ ''\<newline>'' @ ERROR_CODE_MESSAGE @ CR_MESSAGE)) = 358"
  by (simp_all add: PANIC_MESSAGE_def ERROR_CODE_MESSAGE_def CR_MESSAGE_def hex32_def)

lemma panic_messages:
  "hex_format PANIC_MESSAGE" "hex_format (PANIC_MESSAGE @ ''\<newline>'' @ ERROR_CODE_MESSAGE)"
  "hex_format (PANIC_MESSAGE @ ''\<newline>'' @ ERROR_CODE_MESSAGE @ CR_MESSAGE)"
  by (simp_all add: PANIC_MESSAGE_def ERROR_CODE_MESSAGE_def CR_MESSAGE_def ESC_def)

section \<open>Lemmas: the screen\<close>

lemma lower_digits_plain: "ESC \<notin> set lower_digits" "0x08 \<notin> set lower_digits"
  by (simp_all add: lower_digits_def ESC_def)

lemma hex_format_plain: "hex_format s \<Longrightarrow> ESC \<notin> ch ` set s \<and> 0x08 \<notin> ch ` set s"
proof (induction s rule: hex_format.induct)
  case (2 c rest)
  show ?case
  proof (cases "take 6 (c # rest) = ''%#010x''")
    case True
    have "rest = take 5 rest @ drop 5 rest" by simp
    moreover have "c = CHR ''%''" "take 5 rest = ''#010x''" using True by simp_all
    ultimately have s: "set (c # rest) = set ''%#010x'' \<union> set (drop 5 rest)" by (metis append_Cons set_append)
    have "ESC \<notin> ch ` set ''%#010x''" "0x08 \<notin> ch ` set ''%#010x''" by (simp_all add: ESC_def)
    then show ?thesis using "2.IH"(1) [OF True] "2.prems" True unfolding s by auto
  next
    case False
    then show ?thesis using "2.IH"(2) [OF False] "2.prems" by auto
  qed
qed simp

text \<open>A panic with a message of hexadecimal numbers that fits the buffer.\<close>

lemma panic_shows:
  assumes "console_ok ((m, v), c)" "buffer_apart ((m, v), c)" "con_buffer_pos c = 0"
    and "literal (\<lambda>a. in_region a (con_buffer c) (unat (con_buffer_size c))) m p s" "hex_format s"
    and "s \<noteq> []" "length (hex_text args 0 s) < unat (con_buffer_size c)" "length (hex_text args 0 s) < 2 ^ 31"
  shows "\<exists>t. kernel_panic p args ((m, v), c) = Some t
    \<and> screen_lines (fst t) = t_lines (type_text (con_format c) (unat (page_columns v)) (hex_text args 0 s) (display_of ((m, v), c)))"
proof -
  note r = renders_hex [OF assms(5,4), of args 0]
  have nonempty: "hex_text args 0 s \<noteq> []" using assms(6) by (cases s) (auto simp: hex32_def)
  have plain: "ESC \<notin> set (hex_text args 0 s)" "0x08 \<notin> set (hex_text args 0 s)"
    using hex_text_bytes [of args 0 s] hex_format_plain [OF assms(5)] lower_digits_plain by (auto simp: ESC_def)
  from printf_text [OF assms(1-3) r nonempty assms(7,8) plain] show ?thesis
    by (auto simp: kernel_panic_def vkernel_panic_def vprintf_def)
qed

section \<open>Properties\<close>

text \<open>
  C20: an interrupt without a handler ends on the screen: the dispatcher's panic prints, on a console
  in order, the interrupt's number, where it happened, the registers and, for the vectors with one,
  the error code, each as eight hexadecimal digits.
\<close>

theorem unhandled_interrupt_screen:
  assumes "handlerTable st ! unat (vector ctx) = 0"
    and "console_ok ((m, v), c)" "buffer_apart ((m, v), c)" "con_buffer_pos c = 0" "con_buffer_size c = STDOUT_BUFFER_SIZE"
    and "fmt = PANIC_MESSAGE @ (if has_error_code (vector ctx) then ''\<newline>'' @ ERROR_CODE_MESSAGE else [])"
    and "args = [ucast (vector ctx), ucast (cs ctx), eip ctx, eax ctx, ecx ctx, edx ctx, ebx ctx, esp ctx, ebp ctx,
      esi ctx, edi ctx, eflags ctx] @ (if has_error_code (vector ctx) then [error_code ctx] else [])"
    and "literal (\<lambda>a. in_region a (con_buffer c) 512) m p fmt"
  shows "universal_interrupt_handler st ctx = KernelPanic fmt args
    \<and> (\<exists>t. kernel_panic p ((!) args) ((m, v), c) = Some t
      \<and> screen_lines (fst t) = t_lines (type_text (con_format c) (unat (page_columns v)) (hex_text ((!) args) 0 fmt)
          (display_of ((m, v), c))))"
proof
  show "universal_interrupt_handler st ctx = KernelPanic fmt args"
    using assms(1) by (simp add: universal_interrupt_handler_def UNPACK_CONTEXT_def assms(6,7) Let_def)
  have size: "unat (con_buffer_size c) = 512" using assms(5) by (simp add: STDOUT_BUFFER_SIZE_def)
  have ne: "fmt \<noteq> []" by (simp add: assms(6) PANIC_MESSAGE_def)
  have fmt: "hex_format fmt" using panic_messages(1,2) by (auto simp: assms(6))
  have len: "length (hex_text ((!) args) 0 fmt) < 512"
    using panic_lengths(1,2) [of "(!) args" 0] by (auto simp: assms(6))
  show "\<exists>t. kernel_panic p ((!) args) ((m, v), c) = Some t
      \<and> screen_lines (fst t) = t_lines (type_text (con_format c) (unat (page_columns v)) (hex_text ((!) args) 0 fmt)
          (display_of ((m, v), c)))"
    using panic_shows [OF assms(2-4) _ fmt ne] assms(8) len unfolding size by simp
qed

lemma unhandled_interrupt_screen_witness:
  "\<exists>st ctx t t'. vector ctx = 3 \<and> eip ctx = 0x9000
    \<and> universal_interrupt_handler st ctx = KernelPanic PANIC_MESSAGE [3, 8, 0x9000, 0, 0, 0, 0, 0, 0, 0, 0, 2]
    \<and> kernel_panic 0x500 ((!) [3, 8, 0x9000, 0, 0, 0, 0, 0, 0, 0, 0, 2]) t = Some t'
    \<and> screen_lines (fst t') = t_lines (type_text (default_format fullscreen) 80
        (hex_text ((!) [3, 8, 0x9000, 0, 0, 0, 0, 0, 0, 0, 0, 2]) 0 PANIC_MESSAGE) (display_of t))"
proof -
  define m0 :: memory where "m0 a = (if in_region a 0x500 (length PANIC_MESSAGE) then ch (PANIC_MESSAGE ! unat (a - 0x500)) else 0)" for a
  obtain im m v c where i: "init_consoles immortal_initial ((m0, vga_initial), fullscreen) = Inr (im, (m, v), c)"
    by (rule boot_console)
  note I = init_consoles_facts [OF immortal_inv_initial i]
  have low: "unat a < 0x1000 \<Longrightarrow> m a = m0 a" for a
    using low_not_display [OF console_okD(1) [OF I(1)], of a] I(12) by (simp add: same_outside_def)
  have out: "\<not> in_region a (con_buffer c) 512" if "unat a < 0x1000" for a
    using that I(2,13) in_region_bounds [of a "con_buffer c" 512] I(5)
    by (auto simp: buffer_apart_def immortal_initial_def ARENA_START_def)
  have len: "length PANIC_MESSAGE = 195" by (simp add: PANIC_MESSAGE_def)
  have at: "unat (0x500 + of_nat i :: u32) = 0x500 + i" "unat (of_nat i :: u32) = i" if "i \<le> 195" for i
    using that by (simp_all add: unat_word_ariths unat_of_nat take_bit_nat_eq_self)
  have lit: "literal (\<lambda>a. in_region a (con_buffer c) 512) m 0x500 PANIC_MESSAGE"
    unfolding literal_def using at out low by (auto simp: m0_def in_region_def len)
  let ?st = "\<lparr>idt = [], idt_address = 0, handlerTable = replicate 256 0, trampolines = 0, idtr = (0, 0)\<rparr>"
  let ?ctx = "\<lparr>edi = 0, esi = 0, ebp = 0, esp = 0, ebx = 0, edx = 0, ecx = 0, eax = 0, gs = 16, fs = 16, es = 16, ds = 16,
    vector = 3, error_code = 0, eip = 0x9000, cs = 8, eflags = 2\<rparr>"
  have "\<not> has_error_code 3" by (simp add: has_error_code_def DOUBLE_FAULT_VECTOR_def INVALID_TSS_VECTOR_def
    SEGMENT_NOT_PRESENT_VECTOR_def STACK_SEGMENT_FAULT_VECTOR_def GENERAL_PROTECTION_FAULT_VECTOR_def PAGE_FAULT_VECTOR_def
    ALIGNMENT_CHECK_VECTOR_def CONTROL_PROTECTION_VECTOR_def)
  then have "universal_interrupt_handler ?st ?ctx = KernelPanic PANIC_MESSAGE [3, 8, 0x9000, 0, 0, 0, 0, 0, 0, 0, 0, 2]
    \<and> (\<exists>t'. kernel_panic 0x500 ((!) [3, 8, 0x9000, 0, 0, 0, 0, 0, 0, 0, 0, 2]) ((m, v), c) = Some t'
      \<and> screen_lines (fst t') = t_lines (type_text (default_format fullscreen) 80
        (hex_text ((!) [3, 8, 0x9000, 0, 0, 0, 0, 0, 0, 0, 0, 2]) 0 PANIC_MESSAGE) (display_of ((m, v), c))))"
    using unhandled_interrupt_screen [of ?st ?ctx m v c _ _ "0x500", OF _ I(1-3) _ refl refl] lit I(4-7)
    by (simp add: STDOUT_BUFFER_SIZE_def)
  moreover have "vector ?ctx = 3" "eip ?ctx = 0x9000" by simp_all
  ultimately show ?thesis by blast
qed

end
