(* ===== verification/Boot.thy ===== *)
theory Boot
  imports Prelude
begin

text \<open>
  The loader at the start of \<^verbatim>\<open>src/boot.asm\<close>: the BIOS reads the sectors of the kernel one by one, and
  the loop turns the number of a sector into a cylinder, a head and a sector of the drive and the
  address of its bytes. The BIOS is a parameter: a function from cylinder, head and sector to the 512
  bytes there, or \<open>None\<close> where it reports an error with the carry flag.
\<close>

section \<open>The reading loop\<close>

type_synonym drive = "u8 \<Rightarrow> u8 \<Rightarrow> u8 \<Rightarrow> u8 list option"

definition SECTORS_PER_TRACK_LIMIT :: u8 where "SECTORS_PER_TRACK_LIMIT = 36"

record boot_registers =
  reg_ch :: u8
  reg_cl :: u8
  reg_dh :: u8
  reg_es :: u16

fun store_bytes :: "memory \<Rightarrow> u32 \<Rightarrow> u8 list \<Rightarrow> memory" where
  "store_bytes m a [] = m"
| "store_bytes m a (x # xs) = store_bytes (m(a := x)) (a + 1) xs"

text \<open>The position after a read: the next segment, and the next sector, head or cylinder.\<close>

definition next_position :: "boot_registers \<Rightarrow> boot_registers" where
  "next_position r =
     (let r = r\<lparr>reg_es := reg_es r + 0x20\<rparr>;
          r = r\<lparr>reg_cl := reg_cl r + 1\<rparr> in
      if reg_cl r \<le> SECTORS_PER_TRACK_LIMIT then r
      else (let r = r\<lparr>reg_cl := 1\<rparr>;
                r = r\<lparr>reg_dh := reg_dh r XOR 1\<rparr> in
            if reg_dh r \<noteq> 0 then r else r\<lparr>reg_ch := reg_ch r + 1\<rparr>))"

text \<open>\<open>bx\<close> is 0, so the buffer of \<open>int 0x13\<close> is at \<open>es * 16\<close>.\<close>

definition READ_ERROR :: string where
  "READ_ERROR = ''Failed to read sector. Halt''"

function read_loop :: "drive \<Rightarrow> u16 \<Rightarrow> boot_registers \<Rightarrow> memory \<Rightarrow> string + memory" where
  "read_loop d di r m =
     (let di = di - 1 in
      if di = 0 then Inr m
      else (case d (reg_ch r) (reg_dh r) (reg_cl r) of
              None \<Rightarrow> Inl READ_ERROR
            | Some bytes \<Rightarrow> read_loop d di (next_position r) (store_bytes m (ucast (reg_es r) * 16) bytes)))"
  by pat_completeness auto

termination read_loop
proof (relation "measure (\<lambda>(d, di, r, m). unat (di - 1))", goal_cases)
  case (2 d di r m x bytes)
  then show ?case using unat_minus_one [of "di - 1"] by (auto simp: unat_gt_0 unat_eq_0)
qed simp

declare read_loop.simps [simp del]

definition boot_read :: "drive \<Rightarrow> u16 \<Rightarrow> memory \<Rightarrow> string + memory" where
  "boot_read d kernel_size_sectors m =
     read_loop d kernel_size_sectors \<lparr>reg_ch = 0, reg_cl = 2, reg_dh = 0, reg_es = 0x7E0\<rparr> m"

section \<open>Sectors by their number\<close>

text \<open>The position of the sector \<open>n\<close> of the drive, counted from 0, which goes to the address \<open>image_address n\<close>.\<close>

definition position :: "nat \<Rightarrow> boot_registers" where
  "position n = \<lparr>reg_ch = of_nat (n div 72), reg_cl = of_nat (n mod 36 + 1), reg_dh = of_nat (n div 36 mod 2),
     reg_es = 0x7E0 + of_nat (32 * (n - 1))\<rparr>"

definition drive_sector :: "drive \<Rightarrow> nat \<Rightarrow> u8 list option" where
  "drive_sector d n = d (of_nat (n div 72)) (of_nat (n div 36 mod 2)) (of_nat (n mod 36 + 1))"

lemma next_position_number:
  assumes "0 < n"
  shows "next_position (position n) = position (Suc n)"
proof -
  have es: "0x7E0 + of_nat (32 * (n - 1)) + 0x20 = (0x7E0 + of_nat (32 * n) :: u16)"
    using assms by (cases n) (simp_all add: algebra_simps)
  have cl: "(of_nat (n mod 36 + 1) + 1 :: u8) = of_nat (n mod 36 + 2)" by simp
  have le: "(of_nat (n mod 36 + 2) :: u8) \<le> 36 \<longleftrightarrow> n mod 36 + 2 \<le> 36"
  proof -
    have "n mod 36 < 36" by simp
    then have "unat (of_nat (n mod 36 + 2) :: u8) = n mod 36 + 2" by (simp only: unat_of_nat) (simp add: take_bit_nat_eq_self)
    then show ?thesis by (simp only: word_le_nat_alt) simp
  qed
  show ?thesis
  proof (cases "n mod 36 = 35")
    case False
    then have "n mod 36 + 2 \<le> 36" using mod_less_divisor [of 36 n] by linarith
    moreover have "Suc n mod 36 = Suc (n mod 36)" "Suc n div 36 = n div 36" using False by (auto simp: mod_Suc div_Suc)
    moreover have "Suc n div 72 = Suc n div 36 div 2" "n div 72 = n div 36 div 2" by (simp_all flip: div_mult2_eq)
    ultimately show ?thesis using es cl le
      by (simp add: next_position_def position_def SECTORS_PER_TRACK_LIMIT_def Let_def)
  next
    case True
    then have "Suc n mod 36 = 0" "Suc n div 36 = Suc (n div 36)" by (auto simp: mod_Suc div_Suc)
    moreover have "Suc n div 72 = Suc n div 36 div 2" "n div 72 = n div 36 div 2" by (simp_all flip: div_mult2_eq)
    moreover have "n div 36 mod 2 = 0 \<or> n div 36 mod 2 = 1" by auto
    ultimately show ?thesis using es cl le True
      by (auto simp: next_position_def position_def SECTORS_PER_TRACK_LIMIT_def Let_def mod_Suc div_Suc)
  qed
qed

section \<open>Lemmas\<close>

lemma store_bytes_apply:
  assumes "length xs < 2 ^ 32"
  shows "store_bytes m a xs b = (if in_region b a (length xs) then xs ! unat (b - a) else m b)"
  using assms
proof (induction xs arbitrary: m a)
  case (Cons x xs)
  have IH: "store_bytes (m(a := x)) (a + 1) xs b =
      (if in_region b (a + 1) (length xs) then xs ! unat (b - (a + 1)) else (m(a := x)) b)"
    using Cons by simp
  show ?case
  proof (cases "b = a")
    case True
    then have "b - (a + 1) = - 1" by simp
    then have "unat (b - (a + 1)) = 2 ^ 32 - 1" by (simp only: unsigned_minus_1_eq_mask) (simp add: mask_eq_exp_minus_1)
    with Cons.prems have "\<not> in_region b (a + 1) (length xs)" by (simp add: in_region_def)
    with True IH show ?thesis by (simp add: in_region_def)
  next
    case False
    then have "unat (b - a) = Suc (unat (b - (a + 1)))"
      using unat_minus_one [of "b - a"] unat_gt_0 [of "b - a"] by (simp add: diff_diff_eq)
    with False IH show ?thesis by (simp add: in_region_def)
  qed
qed simp

definition image_address :: "nat \<Rightarrow> u32" where
  "image_address n = 0x7E00 + of_nat (512 * (n - 1))"

lemma position_address:
  assumes "0 < n" "n \<le> 1985"
  shows "ucast (reg_es (position n)) * 16 = image_address n"
proof -
  let ?k = "0x7E0 + 32 * (n - 1)"
  have k: "?k < 2 ^ 16" using assms by auto
  have "reg_es (position n) = of_nat ?k" by (simp add: position_def)
  then have "unat (reg_es (position n)) = ?k" using k by (simp only: unat_of_nat) (simp add: take_bit_nat_eq_self)
  then have "(ucast (reg_es (position n)) :: u32) = of_nat ?k" by (metis of_nat_unat)
  then show ?thesis by (simp add: image_address_def)
qed

lemma read_loop_step:
  assumes "unat di = Suc (Suc k)" "0 < n" "n \<le> 1985"
  shows "read_loop d di (position n) m =
      (case drive_sector d n of None \<Rightarrow> Inl READ_ERROR
       | Some bytes \<Rightarrow> read_loop d (di - 1) (position (Suc n)) (store_bytes m (image_address n) bytes))"
proof -
  have "di \<noteq> 0" using assms(1) by auto
  then have "unat (di - 1) = Suc k" using assms(1) by (simp add: unat_minus_one)
  then have "di - 1 \<noteq> 0" by auto
  moreover have "d (reg_ch (position n)) (reg_dh (position n)) (reg_cl (position n)) = drive_sector d n"
    by (simp add: drive_sector_def position_def)
  ultimately show ?thesis
    by (subst read_loop.simps) (simp add: Let_def position_address [OF assms(2,3)] next_position_number [OF assms(2)] split: option.split)
qed

lemma read_loop_last: "unat di = 1 \<Longrightarrow> read_loop d di r m = Inr m"
proof -
  assume "unat di = 1"
  then have "di = 1" by (simp add: word_unat_eq_iff)
  then show ?thesis by (subst read_loop.simps) simp
qed

text \<open>The loop as a fold over the numbers of its sectors, up to the first that cannot be read.\<close>

lemma read_loop_fold:
  assumes "unat di = Suc k" "0 < n" "n + k \<le> 1986"
  shows "read_loop d di (position n) m =
      (if \<forall>i < k. drive_sector d (n + i) \<noteq> None
       then Inr (fold (\<lambda>i m. store_bytes m (image_address i) (the (drive_sector d i))) [n..<n + k] m)
       else Inl READ_ERROR)"
  using assms
proof (induction k arbitrary: di n m)
  case 0
  then show ?case by (simp add: read_loop_last)
next
  case (Suc k)
  have step: "read_loop d di (position n) m =
      (case drive_sector d n of None \<Rightarrow> Inl READ_ERROR
       | Some bytes \<Rightarrow> read_loop d (di - 1) (position (Suc n)) (store_bytes m (image_address n) bytes))"
    using Suc.prems by (intro read_loop_step) auto
  have "di \<noteq> 0" using Suc.prems(1) by auto
  then have "unat (di - 1) = Suc k" using Suc.prems(1) by (simp add: unat_minus_one)
  note IH = Suc.IH [OF this, of "Suc n"]
  have all: "(\<forall>i < Suc k. drive_sector d (n + i) \<noteq> None) \<longleftrightarrow>
      drive_sector d n \<noteq> None \<and> (\<forall>i < k. drive_sector d (Suc n + i) \<noteq> None)"
    by (auto simp: less_Suc_eq_0_disj)
  show ?case
  proof (cases "drive_sector d n")
    case None
    with step all show ?thesis by simp
  next
    case (Some bytes)
    have upt: "[n..<n + Suc k] = n # [Suc n..<Suc n + k]" using upt_rec [of n "n + Suc k"] by simp
    show ?thesis
      unfolding step all upt using IH Suc.prems Some by simp
  qed
qed

text \<open>Every byte of the image, and nothing else.\<close>

lemma image_loaded:
  assumes "\<forall>i < k. length (the (drive_sector d (Suc i))) = 512" "k \<le> 1985"
  shows "fold (\<lambda>i m. store_bytes m (image_address i) (the (drive_sector d i))) [1..<1 + k] m b = (let j = unat (b - 0x7E00) in
    if j < 512 * k then the (drive_sector d (Suc (j div 512))) ! (j mod 512) else m b)"
  using assms
proof (induction k)
  case (Suc k)
  let ?j = "unat (b - 0x7E00)"
  let ?f = "\<lambda>i m. store_bytes m (image_address i) (the (drive_sector d i))"
  have off: "b - image_address (Suc k) = (b - 0x7E00) - of_nat (512 * k)" by (simp add: image_address_def diff_diff_eq)
  have "unat (of_nat (512 * k) :: u32) = 512 * k"
    using Suc.prems(2) by (simp only: unat_of_nat) (simp add: take_bit_nat_eq_self)
  then have sub: "unat (b - image_address (Suc k)) = (if 512 * k \<le> ?j then ?j - 512 * k else ?j + 2 ^ 32 - 512 * k)"
    unfolding off by (simp only: unat_sub_if') simp
  then have reg: "in_region b (image_address (Suc k)) 512 \<longleftrightarrow> 512 * k \<le> ?j \<and> ?j < 512 * Suc k"
    and inside: "512 * k \<le> ?j \<Longrightarrow> unat (b - image_address (Suc k)) = ?j - 512 * k"
    using Suc.prems(2) by (auto simp: in_region_def)
  have "fold ?f [1..<1 + Suc k] m b = ?f (Suc k) (fold ?f [1..<1 + k] m) b" by simp
  also have "\<dots> = (if in_region b (image_address (Suc k)) 512 then the (drive_sector d (Suc k)) ! unat (b - image_address (Suc k))
      else fold ?f [1..<1 + k] m b)"
    using Suc.prems by (subst store_bytes_apply) auto
  also have "\<dots> = (let j = ?j in if j < 512 * Suc k then the (drive_sector d (Suc (j div 512))) ! (j mod 512) else m b)"
  proof (cases "512 * k \<le> ?j \<and> ?j < 512 * Suc k")
    case True
    then have "?j div 512 = k" by (intro div_nat_eqI) auto
    moreover from this have "?j mod 512 = ?j - 512 * k" by (simp add: modulo_nat_def)
    moreover note True
    ultimately show ?thesis using reg inside by (simp add: Let_def)
  next
    case False
    moreover have "fold ?f [1..<1 + k] m b =
        (if ?j < 512 * k then the (drive_sector d (Suc (?j div 512))) ! (?j mod 512) else m b)"
      using Suc.prems by (subst Suc.IH) (simp_all add: Let_def)
    moreover have "?j < 512 * Suc k \<longleftrightarrow> ?j < 512 * k" using False by auto
    moreover have "\<not> in_region b (image_address (Suc k)) 512" using False reg by blast
    ultimately show ?thesis by (simp only: Let_def if_False)
  qed
  finally show ?case .
qed simp

section \<open>Properties\<close>

text \<open>
  C9: the loader reads the sectors 1, 2, ... of the drive in their order, over the ends of tracks and
  cylinders, and puts them one behind the other from \<open>0x7E00\<close> on, where the kernel is linked, leaving
  the rest of memory alone; if one of them cannot be read it halts with its message. This holds for
  kernels of up to 1986 sectors (with the boot sector), where the segment register would wrap.
\<close>

theorem boot_read_image:
  assumes "0 < size_sectors" "unat size_sectors \<le> 1986"
    and "\<forall>n bytes. drive_sector d n = Some bytes \<longrightarrow> length bytes = 512"
  defines "k \<equiv> unat size_sectors - 1"
  shows "if \<forall>i < k. drive_sector d (Suc i) \<noteq> None
    then \<exists>m'. boot_read d size_sectors m = Inr m'
      \<and> (\<forall>i < k. \<forall>j < 512. m' (0x7E00 + of_nat (512 * i + j)) = the (drive_sector d (Suc i)) ! j)
      \<and> same_outside (\<lambda>a. in_region a 0x7E00 (512 * k)) m m'
    else boot_read d size_sectors m = Inl READ_ERROR"
proof -
  have k: "unat size_sectors = Suc k" "k \<le> 1985" using assms(1,2) by (auto simp: k_def unat_gt_0 word_gt_0)
  have start: "boot_read d size_sectors m = read_loop d size_sectors (position 1) m"
    by (simp add: boot_read_def position_def)
  let ?m' = "fold (\<lambda>i m. store_bytes m (image_address i) (the (drive_sector d i))) [1..<1 + k] m"
  have loop: "boot_read d size_sectors m = (if \<forall>i < k. drive_sector d (1 + i) \<noteq> None then Inr ?m' else Inl READ_ERROR)"
    unfolding start using k by (intro read_loop_fold) auto
  show ?thesis
  proof (cases "\<forall>i < k. drive_sector d (Suc i) \<noteq> None")
    case True
    then have len: "\<forall>i < k. length (the (drive_sector d (Suc i))) = 512" using assms(3) by fastforce
    note image = image_loaded [OF len k(2), of m]
    have "?m' (0x7E00 + of_nat (512 * i + j)) = the (drive_sector d (Suc i)) ! j" if "i < k" "j < 512" for i j
    proof -
      have "512 * i + j < 2 ^ 32" "512 * i + j < 512 * k" using that k(2) by auto
      then have "unat ((0x7E00 + of_nat (512 * i + j)) - 0x7E00 :: u32) = 512 * i + j"
        by (simp only: add_diff_cancel_left' unat_of_nat) (simp add: take_bit_nat_eq_self)
      then show ?thesis using image [of "0x7E00 + of_nat (512 * i + j)"] that \<open>512 * i + j < 512 * k\<close>
        by (simp only: Let_def) simp
    qed
    moreover have "same_outside (\<lambda>a. in_region a 0x7E00 (512 * k)) m ?m'"
      unfolding same_outside_def image in_region_def by (simp add: Let_def)
    ultimately show ?thesis using True loop by simp
  next
    case False
    then have "\<not> (\<forall>i < k. drive_sector d (1 + i) \<noteq> None)" by simp
    then have "boot_read d size_sectors m = Inl READ_ERROR" unfolding loop by (rule if_not_P)
    then show ?thesis unfolding if_not_P [OF False] .
  qed
qed

theorem boot_read_image_witness:
  "\<exists>m'. boot_read (\<lambda>c h s. Some (replicate 512 (c + h + s))) 40 (\<lambda>_. 0) = Inr m' \<and> m' 0x7E00 = 2 \<and> m' 0xC400 = 2 \<and> m' 0x500 = 0"
proof -
  let ?d = "\<lambda>c h s. Some (replicate 512 (c + h + s) :: u8 list)"
  have s: "drive_sector ?d n = Some (replicate 512 (of_nat (n div 72) + of_nat (n div 36 mod 2) + of_nat (n mod 36 + 1)))" for n
    by (simp add: drive_sector_def)
  have "0 < (40 :: u16)" "unat (40 :: u16) \<le> 1986" "\<forall>n bytes. drive_sector ?d n = Some bytes \<longrightarrow> length bytes = 512"
    by (simp_all add: s)
  from boot_read_image [OF this, of "\<lambda>_. 0"] obtain m' where m': "boot_read ?d 40 (\<lambda>_. 0) = Inr m'"
    and bytes: "\<forall>i < 39. \<forall>j < 512. m' (0x7E00 + of_nat (512 * i + j)) = the (drive_sector ?d (Suc i)) ! j"
    and rest: "same_outside (\<lambda>a. in_region a 0x7E00 (512 * 39)) (\<lambda>_. 0) m'"
    by (auto simp: s)
  have "m' 0x7E00 = 2" "m' 0xC400 = 2"
    using bytes [rule_format, of 0 0] bytes [rule_format, of 35 0] by (simp_all add: s)
  moreover have "m' 0x500 = 0" using rest by (auto simp: same_outside_def in_region_def)
  ultimately show ?thesis using m' by blast
qed

end
