(* ===== verification/Entry.thy ===== *)
theory Entry
  imports Process Pit Output Panic
begin

text \<open>
  \<^verbatim>\<open>src/entry.c\<close> and \<^verbatim>\<open>experiments.c\<close>: the boot sequence, which composes all components over one machine. \<open>image\<close> holds the addresses the linker gives to the functions
  and literals the sequence refers to. The outcome is \<open>None\<close> where a polling loop never ends,
  \<open>Inl\<close> for a panic, else the context the first process starts in and the machine. The timer
  interrupts that follow \<open>sti\<close> are seen through the parameter \<open>clock\<close>. The call stands for the
  file's \<open>halt\<close> after it as well: \<open>switch_process\<close> does not return.
\<close>

section \<open>The machine\<close>

record image =
  kernel_code_end :: u32
  rsd_ptr_at :: u32
  facp_at :: u32
  collect_ctx_at :: u32
  pagefault_handler_at :: u32
  timer_handler_at :: u32
  keyboard_handler_at :: u32
  exit_at :: u32
  clr_at :: u32
  hack_at :: u32
  user_process_at :: u32
  halt_at :: u32
  literal_at :: "string \<Rightarrow> u32"

record 'd machine =
  dev_of :: 'd
  kern_of :: kernel
  immortal_of :: immortal
  vga_of :: vga
  stdout_of :: Console
  ints_of :: interrupts
  timer_of :: timer
  acpi_of :: acpi
  channels_of :: PS2ControllerChannelStatus
  ps2_of :: ps2

definition tty_of :: "'d machine \<Rightarrow> tty" where
  "tty_of M = ((memory_of (kern_of M), vga_of M), stdout_of M)"

text \<open>The static variables at entry; \<open>ns\<close> is what the memory of the process pool holds.\<close>

definition machine_initial :: "memory \<Rightarrow> (u32 \<Rightarrow> SchedulerNode) \<Rightarrow> 'd \<Rightarrow> 'd machine" where
  "machine_initial m ns d = \<lparr>dev_of = d,
     kern_of = \<lparr>memory_of = m, frames_of = frames_initial, paging_of = \<lparr>kernel_pt = 0, kernel_pde = pde_of 0\<rparr>,
       sched_of = scheduler_initial ns, reg_cr3 = 0, paging_on = False, param = 0, printed = []\<rparr>,
     immortal_of = immortal_initial, vga_of = vga_initial, stdout_of = fullscreen,
     ints_of = \<lparr>idt = [], idt_address = 0, handlerTable = [], trampolines = 0, idtr = (0, 0)\<rparr>,
     timer_of = timer_initial, acpi_of = acpi_initial, channels_of = ps2_status_initial, ps2_of = ps2_initial\<rparr>"

section \<open>Experiments\<close>

definition clr :: "tty \<Rightarrow> tty" where
  "clr t = clear_console t"

definition experiment_fn :: "'d bus \<Rightarrow> image \<Rightarrow> nat \<Rightarrow> 'd \<times> interrupts \<Rightarrow> u32 \<times> 'd \<times> interrupts" where
  "experiment_fn B I n s =
     (let (d, st) = s;
          d = disable_io_devices B SYSTEM_TIMER d
      in if n = 0
         then let st = set_interrupt_handler SYSTEM_TIMER_VECTOR INTERRUPT_GATE KERNEL_PL (clr_at I) st;
                  d = enable_io_devices B SYSTEM_TIMER d
              in (hack_at I, d, st)
         else if n = 1 then (user_process_at I, d, st)
         else (halt_at I, d, st))"

section \<open>The boot sequence\<close>

definition boot_core :: "image \<Rightarrow> u32 \<Rightarrow> 'd machine \<Rightarrow> 'd machine result option" where
  "boot_core I memsize M =
     (case init_acpi (memory_of (kern_of M)) (rsd_ptr_at I) (facp_at I) (push_bit 10 memsize) (acpi_of M) of
        None \<Rightarrow> None
      | Some A \<Rightarrow>
          Some (let im = init_immortal_allocator (kernel_code_end I) (immortal_of M) in
                case init_consoles im (tty_of M) of
                  Inl e \<Rightarrow> Inl e
                | Inr (im, (m, v), c) \<Rightarrow>
                    (case init_interrupts (collect_ctx_at I) (pagefault_handler_at I) (m, im, ints_of M) of
                       Inl e \<Rightarrow> Inl e
                     | Inr (m, im, st) \<Rightarrow>
                         Inr (M\<lparr>kern_of := (kern_of M)\<lparr>memory_of := m\<rparr>, immortal_of := im, vga_of := v, stdout_of := c,
                              ints_of := st, acpi_of := A\<rparr>))))"

definition boot_timer :: "'d bus \<Rightarrow> image \<Rightarrow> 'd machine \<Rightarrow> 'd machine" where
  "boot_timer B I M =
     (let d = init_pic B AUTOMATIC_EOI (dev_of M);
          (d, st, t) = init_timer B (timer_handler_at I) 180 (d, ints_of M, timer_of M);
          d = enable_io_devices B SYSTEM_TIMER d
      in M\<lparr>dev_of := d, ints_of := st, timer_of := t\<rparr>)"

definition boot_ps2 :: "'d bus \<Rightarrow> 'd clock \<Rightarrow> image \<Rightarrow> 'd machine \<Rightarrow> 'd machine option" where
  "boot_ps2 B C I M = do {
     (d, st) \<leftarrow> init_ps2_controller B (memory_of (kern_of M)) (acpi_of M) (dev_of M, channels_of M);
     (d, t) \<leftarrow> ps2_reset_devices B C (literal_at I) st (d, tty_of M);
     (d, p, t) \<leftarrow> ps2_detect_devices B C (literal_at I) st (d, ps2_of M, t);
     (d, ints, p) \<leftarrow> (if devices p ! 0 = MF_KEYBOARD \<or> devices p ! 0 = MF_KEYBOARD1
       then init_ps2_keyboard B C (keyboard_handler_at I) 0 (d, ints_of M, p)
       else Some (d, ints_of M, p));
     let ((m, v), c) = t;
     Some (M\<lparr>dev_of := d, kern_of := (kern_of M)\<lparr>memory_of := m\<rparr>, vga_of := v, stdout_of := c, ints_of := ints,
       channels_of := st, ps2_of := p\<rparr>)
   }"

definition boot_process :: "'d bus \<Rightarrow> abi \<Rightarrow> image \<Rightarrow> 'd machine \<Rightarrow> (IntraContext \<times> 'd machine) result" where
  "boot_process B lay I M =
     (case setup_kernel_paging (store_of (kern_of M)) of
        Inl e \<Rightarrow> Inl e
      | Inr (kp, s) \<Rightarrow>
          (case init_scheduler lay (sched_of (kern_of M), immortal_of M) of
             Inl e \<Rightarrow> Inl e
           | Inr (sc, im) \<Rightarrow>
               (let k = (set_store s (kern_of M))\<lparr>paging_of := kp, sched_of := sc\<rparr>;
                    st = register_syscalls (exit_at I) (ints_of M);
                    (func, d, st) = experiment_fn B I 1 (dev_of M, st)
                in case enqueue_process lay func 0 0 k of
                     Inl e \<Rightarrow> Inl e
                   | Inr k \<Rightarrow>
                       (case switch_process k of
                          Inl e \<Rightarrow> Inl e
                        | Inr (ctx, k) \<Rightarrow> Inr (ctx, M\<lparr>dev_of := d, kern_of := k, immortal_of := im, ints_of := st\<rparr>)))))"

definition kernel_entry :: "'d bus \<Rightarrow> 'd clock \<Rightarrow> abi \<Rightarrow> image \<Rightarrow> u32 \<Rightarrow> 'd machine \<Rightarrow> (IntraContext \<times> 'd machine) result option" where
  "kernel_entry B C lay I memsize M =
     (case boot_core I memsize M of
        None \<Rightarrow> None
      | Some (Inl e) \<Rightarrow> Some (Inl e)
      | Some (Inr M) \<Rightarrow>
          (case boot_ps2 B C I (boot_timer B I M) of
             None \<Rightarrow> None
           | Some M \<Rightarrow> Some (boot_process B lay I M)))"

section \<open>Lemmas\<close>

lemma kernel_entryE:
  assumes "kernel_entry B C lay I memsize M = Some (Inr (ctx, M'))"
  obtains M1 M2 where "boot_core I memsize M = Some (Inr M1)" "boot_ps2 B C I (boot_timer B I M1) = Some M2"
    "boot_process B lay I M2 = Inr (ctx, M')"
  using assms by (auto simp: kernel_entry_def split: option.splits sum.splits)

text \<open>The frame allocator, the scheduler and the control registers are untouched until the last phase.\<close>

definition kernel_fresh :: "(u32 \<Rightarrow> SchedulerNode) \<Rightarrow> kernel \<Rightarrow> bool" where
  "kernel_fresh ns k \<longleftrightarrow> frames_of k = frames_initial \<and> sched_of k = scheduler_initial ns \<and> reg_cr3 k = 0
     \<and> \<not> paging_on k \<and> param k = 0 \<and> printed k = []"

lemma boot_core_fresh:
  assumes "boot_core I memsize (machine_initial m ns d) = Some (Inr M)"
  shows "kernel_fresh ns (kern_of M)" "immortal_inv (immortal_of M)" "idt_inv (ints_of M)"
    "v < 256 \<Longrightarrow> handlerTable (ints_of M) ! v = (if v = 14 then pagefault_handler_at I else 0)"
    "v < 256 \<Longrightarrow> descriptor_privilege_level (idt (ints_of M) ! v) = pl_code KERNEL_PL"
proof -
  let ?M = "machine_initial m ns d"
  obtain A im1 m1 v1 c1 m2 im2 st where
    c: "init_consoles (init_immortal_allocator (kernel_code_end I) immortal_initial) ((m, vga_initial), fullscreen) = Inr (im1, (m1, v1), c1)"
    and i: "init_interrupts (collect_ctx_at I) (pagefault_handler_at I) (m1, im1, ints_of ?M) = Inr (m2, im2, st)"
    and M: "M = ?M\<lparr>kern_of := (kern_of ?M)\<lparr>memory_of := m2\<rparr>, immortal_of := im2, vga_of := v1, stdout_of := c1,
      ints_of := st, acpi_of := A\<rparr>"
    using assms by (auto simp: boot_core_def machine_initial_def tty_of_def Let_def split: option.splits sum.splits)
  show "kernel_fresh ns (kern_of M)" by (simp add: M machine_initial_def kernel_fresh_def)
  have im1: "immortal_inv im1" by (rule init_consoles_facts(10) [OF immortal_inv_init [OF immortal_inv_initial] c])
  show "immortal_inv (immortal_of M)" using init_interrupts_immortal [OF i im1] by (simp add: M)
  note T = init_interrupts_tables [OF i im1]
  show "idt_inv (ints_of M)" using T by (simp add: M)
  show "v < 256 \<Longrightarrow> handlerTable (ints_of M) ! v = (if v = 14 then pagefault_handler_at I else 0)"
    using T by (auto simp: M Let_def)
  show "v < 256 \<Longrightarrow> descriptor_privilege_level (idt (ints_of M) ! v) = pl_code KERNEL_PL"
    using init_interrupts_privilege [OF i im1] by (simp add: M)
qed

text \<open>The timer's gate leads past the trampolines, straight to its handler.\<close>

lemma boot_timer_facts:
  assumes "idt_inv (ints_of M)" "handlerTable (ints_of M) ! 32 = 0"
  shows "kern_of (boot_timer B I M) = kern_of M" "immortal_of (boot_timer B I M) = immortal_of M"
    "handlerTable (ints_of (boot_timer B I M)) = handlerTable (ints_of M)" "idt_inv (ints_of (boot_timer B I M))"
    "gate_target (idt (ints_of (boot_timer B I M)) ! 32) = timer_handler_at I"
    "present (idt (ints_of (boot_timer B I M)) ! 32) = 1"
    "\<forall>v < 256. descriptor_privilege_level (idt (ints_of M) ! v) = pl_code KERNEL_PL \<Longrightarrow>
      \<forall>v < 256. descriptor_privilege_level (idt (ints_of (boot_timer B I M)) ! v) = pl_code KERNEL_PL"
proof -
  have v: "unat SYSTEM_TIMER_VECTOR = 32" by (simp add: SYSTEM_TIMER_VECTOR_def PIC_MASTER_VECTOR_RANGE_START_def)
  have len: "length (idt (ints_of M)) = 256" using assms(1) by (simp add: idt_inv_def)
  have st: "ints_of (boot_timer B I M)
      = direct_set_interrupt_handler SYSTEM_TIMER_VECTOR INTERRUPT_GATE KERNEL_PL (timer_handler_at I) (ints_of M)"
    by (simp add: boot_timer_def init_timer_def init_timer_with_reload_value_def Let_def split: prod.split)
  show "kern_of (boot_timer B I M) = kern_of M" "immortal_of (boot_timer B I M) = immortal_of M"
    by (simp_all add: boot_timer_def Let_def split: prod.split)
  show "handlerTable (ints_of (boot_timer B I M)) = handlerTable (ints_of M)"
    by (simp add: st direct_set_interrupt_handler_def)
  show "idt_inv (ints_of (boot_timer B I M))"
    using assms unfolding st by (auto simp: idt_inv_def direct_set_interrupt_handler_def v nth_list_update)
  show "gate_target (idt (ints_of (boot_timer B I M)) ! 32) = timer_handler_at I" "present (idt (ints_of (boot_timer B I M)) ! 32) = 1"
    using len unfolding st by (simp_all add: direct_set_interrupt_handler_def v gate_target_def split_offset)
  show "\<forall>v < 256. descriptor_privilege_level (idt (ints_of (boot_timer B I M)) ! v) = pl_code KERNEL_PL"
    if "\<forall>v < 256. descriptor_privilege_level (idt (ints_of M) ! v) = pl_code KERNEL_PL"
    using that len unfolding st by (auto simp: direct_set_interrupt_handler_def v nth_list_update)
qed

lemma set_interrupt_handler_privilege:
  assumes "length (idt st) = 256" "w < 256"
  shows "descriptor_privilege_level (idt (set_interrupt_handler v ty dpl h st) ! w)
    = (if w = unat v then pl_code dpl else descriptor_privilege_level (idt st ! w))"
  using set_interrupt_handler_gate(4,5) [OF assms(1)] by auto

lemma init_ps2_keyboard_ints:
  assumes "init_ps2_keyboard B C h 0 (d, st, p) = Some (d', st', p')"
  shows "st' = set_interrupt_handler KEYBOARD_VECTOR INTERRUPT_GATE KERNEL_PL h st"
  using assms by (auto simp: init_ps2_keyboard_def Let_def bind_eq_Some_conv)

lemma init_ps2_keyboard_devices:
  assumes "init_ps2_keyboard B C h 0 (d, st, p) = Some (d', st', p')"
  shows "devices p' = devices p"
proof -
  have "devices (fold (ps2_device_enqueue_command 0) xs p) = devices p" for xs
    by (induction xs arbitrary: p) (simp_all add: ps2_device_enqueue_command_def Let_def)
  then show ?thesis using assms by (auto simp: init_ps2_keyboard_def Let_def bind_eq_Some_conv)
qed

definition keyboard_found :: "'d machine \<Rightarrow> bool" where
  "keyboard_found M \<longleftrightarrow> devices (ps2_of M) ! 0 \<in> {MF_KEYBOARD, MF_KEYBOARD1}"

lemma boot_ps2_facts:
  assumes "boot_ps2 B C I M = Some M'"
  shows "\<exists>m. kern_of M' = (kern_of M)\<lparr>memory_of := m\<rparr>" "immortal_of M' = immortal_of M"
    "ints_of M' = (if keyboard_found M'
       then set_interrupt_handler KEYBOARD_VECTOR INTERRUPT_GATE KERNEL_PL (keyboard_handler_at I) (ints_of M) else ints_of M)"
proof -
  obtain d p d' st p' m v c t cs where
    k: "(if devices p ! 0 = MF_KEYBOARD \<or> devices p ! 0 = MF_KEYBOARD1
       then init_ps2_keyboard B C (keyboard_handler_at I) 0 (d, ints_of M, p) else Some (d, ints_of M, p)) = Some (d', st, p')"
    and M': "M' = M\<lparr>dev_of := d', kern_of := (kern_of M)\<lparr>memory_of := m\<rparr>, vga_of := v, stdout_of := c, ints_of := st,
       channels_of := cs, ps2_of := p'\<rparr>"
    using assms by (auto simp: boot_ps2_def Let_def bind_eq_Some_conv split: prod.splits)
  show "\<exists>m. kern_of M' = (kern_of M)\<lparr>memory_of := m\<rparr>" "immortal_of M' = immortal_of M" by (auto simp: M')
  show "ints_of M' = (if keyboard_found M'
       then set_interrupt_handler KEYBOARD_VECTOR INTERRUPT_GATE KERNEL_PL (keyboard_handler_at I) (ints_of M) else ints_of M)"
  proof (cases "devices p ! 0 = MF_KEYBOARD \<or> devices p ! 0 = MF_KEYBOARD1")
    case True
    then have k': "init_ps2_keyboard B C (keyboard_handler_at I) 0 (d, ints_of M, p) = Some (d', st, p')" using k by simp
    show ?thesis using True init_ps2_keyboard_ints [OF k'] init_ps2_keyboard_devices [OF k'] by (simp add: M' keyboard_found_def)
  next
    case False
    then show ?thesis using k by (auto simp: M' keyboard_found_def)
  qed
qed

lemma register_syscalls_ints: "register_syscalls h st = set_interrupt_handler 0x31 INTERRUPT_GATE USER_PL h st"
  by (simp add: register_syscalls_def)

text \<open>The last phase turns the boot machine into a reachable state of the kernel.\<close>

lemma boot_process_kernel:
  assumes "boot_process B lay I M = Inr (ctx, M')" "kernel_fresh ns (kern_of M)" "immortal_inv (immortal_of M)" "abi_ok lay"
  obtains k1 k2 where "reachable lay k2" "enqueue_process lay (user_process_at I) 0 0 k1 = Inr k2"
    "kernel_inv lay k1 [] {kernel_pt (paging_of k1)}" "switch_process k2 = Inr (ctx, kern_of M')"
    "ints_of M' = register_syscalls (exit_at I) (ints_of M)" "low_kept (memory_of (kern_of M)) (memory_of k2)"
    "vga_of M' = vga_of M" "stdout_of M' = stdout_of M" "ps2_of M' = ps2_of M"
proof -
  let ?k = "kern_of M"
  have fresh: "frames_of ?k = frames_initial" "sched_of ?k = scheduler_initial ns" "reg_cr3 ?k = 0" "\<not> paging_on ?k"
    "param ?k = 0" "printed ?k = []" using assms(2) by (simp_all add: kernel_fresh_def)
  from assms(1) obtain kp s sc im k2 k3 d st where
    pg: "setup_kernel_paging (store_of ?k) = Inr (kp, s)"
    and sc: "init_scheduler lay (sched_of ?k, immortal_of M) = Inr (sc, im)"
    and e: "experiment_fn B I 1 (dev_of M, register_syscalls (exit_at I) (ints_of M)) = (user_process_at I, d, st)"
    and en: "enqueue_process lay (user_process_at I) 0 0 ((set_store s ?k)\<lparr>paging_of := kp, sched_of := sc\<rparr>) = Inr k2"
    and sw: "switch_process k2 = Inr (ctx, k3)"
    and M': "M' = M\<lparr>dev_of := d, kern_of := k3, immortal_of := im, ints_of := st\<rparr>"
    by (auto simp: boot_process_def experiment_fn_def Let_def split: sum.splits)
  have st: "st = register_syscalls (exit_at I) (ints_of M)" using e by (simp add: experiment_fn_def Let_def)
  let ?k1 = "(set_store s ?k)\<lparr>paging_of := kp, sched_of := sc\<rparr>"
  have k1: "?k1 = \<lparr>memory_of = fst s, frames_of = snd s, paging_of = kp, sched_of = sc, reg_cr3 = 0,
      paging_on = False, param = 0, printed = []\<rparr>"
    using fresh by (cases s, cases ?k) (simp add: set_store_def)
  have pg': "setup_kernel_paging (memory_of ?k, frames_initial) = Inr (kp, s)" using pg fresh by (simp add: store_of_def)
  have sc': "init_scheduler lay (scheduler_initial ns, immortal_of M) = Inr (sc, im)" using sc fresh by simp
  have r1: "reachable lay ?k1" unfolding k1 by (rule reachable.boot [OF assms(4,3) pg' sc'])
  have inv: "kernel_inv lay ?k1 [] {kernel_pt (paging_of ?k1)}"
    using boot_inv [OF assms(4,3) pg' sc'] by (simp add: k1)
  have pt: "frames_rel (fst s, snd s) {kernel_pt kp}" "same_outside (in_frames {kernel_pt kp}) (memory_of ?k) (fst s)"
    using setup_kernel_paging_ok [OF frames_rel_initial, of "memory_of ?k" kp "fst s" "snd s"] pg' by simp_all
  have "low_kept (memory_of ?k) (fst s)"
    by (rule frames_low_kept [OF pt(2)]) (rule pages.live_frames [OF pt(1)])
  moreover have "memory_of k2 = fst s" using en by (auto simp: enqueue_process_def Let_def split: sum.splits)
  ultimately show thesis
    by (intro that [OF reachable.enqueue [OF r1 en] en inv]) (use sw M' st in simp_all)
qed

section \<open>A concrete boot\<close>

text \<open>
  A machine whose controller's status port reads 1 and whose data port reads the scan code of A, always;
  every other port reads 0. So the controller's self test fails and no keyboard is looked for.
\<close>

definition quiet_bus :: "unit bus" where
  "quiet_bus = \<lparr>dev_out = (\<lambda>_ _ d. d), dev_in = (\<lambda>p d. (if p = PS2_STATUS_PORT then 1 else if p = PS2_DATA_PORT then 0x1C else 0, d))\<rparr>"

definition image0 :: image where
  "image0 = \<lparr>kernel_code_end = 0xE000, rsd_ptr_at = 0x700, facp_at = 0x710, collect_ctx_at = 0x7C80, pagefault_handler_at = 0x9000,
     timer_handler_at = 0x9100, keyboard_handler_at = 0x9200, exit_at = 0x9300, clr_at = 0x9400, hack_at = 0x9500,
     user_process_at = 0x9600, halt_at = 0x7C70, literal_at = literal_address\<rparr>"

lemma quiet_out [simp]: "outb quiet_bus p v d = d"
  by (simp add: quiet_bus_def outb_def)

lemma quiet_in [simp]: "inb quiet_bus p d = (if p = PS2_STATUS_PORT then 1 else if p = PS2_DATA_PORT then 0x1C else 0, d)"
  by (simp add: quiet_bus_def inb_def)

lemma quiet_poll [simp]: "\<not> busy (PS2Status_of 1) \<Longrightarrow> ps2_poll quiet_bus busy d = Some d"
  by (simp add: ps2_poll.simps)

lemma quiet_ps2 [simp]:
  "ps2_send_command quiet_bus cmd d = Some d" "ps2_send_data quiet_bus b d = Some d" "ps2_read_data quiet_bus d = Some (0x1C, d)"
  by (simp_all add: ps2_send_command_def ps2_send_data_def ps2_read_data_def PS2Status_of_def PS2_DATA_PORT_def PS2_STATUS_PORT_def)

lemma quiet_controller:
  obtains d' st where "init_ps2_controller quiet_bus m A (d, ps2_status_initial) = Some (d', st)"
    "channel0 st \<noteq> CHANNEL_OK" "channel1 st \<noteq> CHANNEL_OK"
  by (cases "ps2_controller_present m A")
    (auto simp: init_ps2_controller_def ps2_status_initial_def UNINITIALIZED_def CHANNEL_OK_def ABSENT_def
      PS2_SELF_TEST_SUCCESS_def Let_def)

lemma quiet_core:
  obtains M where "boot_core image0 0 (machine_initial m ns d) = Some (Inr M)" "immortal_of M = \<lparr>current = [0xE000, 0x102500]\<rparr>"
    "channels_of M = ps2_status_initial" "ps2_of M = ps2_initial"
proof -
  have n: "of_nat VECTOR_COUNT * TRAMPOLINE_SIZE = (2048 :: u32)" "8 * of_nat VECTOR_COUNT = (2048 :: u32)"
    "4 * of_nat VECTOR_COUNT = (1024 :: u32)"
    by (simp_all add: VECTOR_COUNT_def TRAMPOLINE_SIZE_def)
  have "\<exists>A. init_acpi m 0x700 0x710 (push_bit 10 0) acpi_initial = Some A"
    by (simp add: init_acpi_def find_RSDP_find Let_def)
  then obtain A where A: "init_acpi m 0x700 0x710 (push_bit 10 0) acpi_initial = Some A" by blast
  have "\<exists>t. init_consoles \<lparr>current = [0xE000, 0x100000]\<rparr> ((m, vga_initial), fullscreen) = Inr (\<lparr>current = [0xE000, 0x101100]\<rparr>, t)"
    by (simp add: init_consoles_def vga_init_printer_def malloc_immortal_def STDOUT_BUFFER_SIZE_def Let_def split: prod.split)
  then obtain m1 v1 c1 where c: "init_consoles \<lparr>current = [0xE000, 0x100000]\<rparr> ((m, vga_initial), fullscreen)
      = Inr (\<lparr>current = [0xE000, 0x101100]\<rparr>, (m1, v1), c1)" by (metis surj_pair)
  have "\<exists>m' st'. init_interrupts 0x7C80 0x9000 (m1, \<lparr>current = [0xE000, 0x101100]\<rparr>, st) = Inr (m', \<lparr>current = [0xE000, 0x102500]\<rparr>, st')" for st
    unfolding init_interrupts_def generate_idt_def generate_trampolines_def calloc_immortal_def n
    by (simp add: malloc_immortal_def Let_def split: prod.split)
  then obtain m2 st where i: "init_interrupts 0x7C80 0x9000 (m1, \<lparr>current = [0xE000, 0x101100]\<rparr>,
      ints_of (machine_initial m ns d)) = Inr (m2, \<lparr>current = [0xE000, 0x102500]\<rparr>, st)" by blast
  have im: "init_immortal_allocator 0xE000 immortal_initial = \<lparr>current = [0xE000, 0x100000]\<rparr>"
    by (simp add: init_immortal_allocator_def immortal_initial_def ARENA_START_def)
  show thesis
    by (rule that [where M = "let M = machine_initial m ns d in M\<lparr>kern_of := (kern_of M)\<lparr>memory_of := m2\<rparr>,
        immortal_of := \<lparr>current = [0xE000, 0x102500]\<rparr>, vga_of := v1, stdout_of := c1, ints_of := st, acpi_of := A\<rparr>"])
      (use A c i in \<open>simp_all add: boot_core_def machine_initial_def tty_of_def image0_def im Let_def\<close>)
qed

lemma quiet_timer: "boot_timer quiet_bus I M = M\<lparr>dev_of := dev_of M, ints_of := ints_of (boot_timer quiet_bus I M), timer_of := timer_of (boot_timer quiet_bus I M)\<rparr>"
  by (simp add: boot_timer_def Let_def split: prod.split)

lemma quiet_boot_ps2:
  assumes "channels_of M = ps2_status_initial" "ps2_of M = ps2_initial"
  obtains M' where "boot_ps2 quiet_bus C I M = Some M'" "immortal_of M' = immortal_of M" "ps2_of M' = ps2_initial"
proof -
  obtain d st where c: "init_ps2_controller quiet_bus (memory_of (kern_of M)) (acpi_of M) (dev_of M, ps2_status_initial) = Some (d, st)"
    "channel0 st \<noteq> CHANNEL_OK" "channel1 st \<noteq> CHANNEL_OK" by (rule quiet_controller)
  have "devices ps2_initial ! 0 \<noteq> MF_KEYBOARD \<and> devices ps2_initial ! 0 \<noteq> MF_KEYBOARD1"
    by (simp add: ps2_initial_def NOTHING_def MF_KEYBOARD_def MF_KEYBOARD1_def)
  then show thesis
    using c assms by (intro that [of "M\<lparr>dev_of := d, channels_of := st, ps2_of := ps2_initial\<rparr>"]) (simp_all add: boot_ps2_def assms ps2_reset_devices_def ps2_reset_device_def ps2_detect_devices_def
      Let_def tty_of_def split: prod.split)
qed

lemma quiet_boot_process:
  assumes "kernel_fresh ns (kern_of M)" "immortal_of M = \<lparr>current = [0xE000, 0x102500]\<rparr>"
  obtains ctx M' where "boot_process quiet_bus lay0 I M = Inr (ctx, M')" "ps2_of M' = ps2_of M"
proof -
  let ?k = "kern_of M"
  have fresh: "frames_of ?k = frames_initial" "sched_of ?k = scheduler_initial ns" using assms(1) by (simp_all add: kernel_fresh_def)
  have "\<exists>kp m. setup_kernel_paging (memory_of ?k, frames_initial) = Inr (kp, m, \<lparr>frame_edge = 0x401000, frame_free_list = 0\<rparr>)"
    by (simp add: setup_kernel_paging_def frames_initial_def page_numbers first_frames Let_def)
  then obtain kp m where pg: "setup_kernel_paging (store_of ?k) = Inr (kp, m, \<lparr>frame_edge = 0x401000, frame_free_list = 0\<rparr>)"
    by (auto simp: store_of_def fresh)
  let ?sc = "\<lparr>nodes = ns, scheduler_start = 0x102500, scheduler_front = 0x102500, scheduler_end = 0x102B40,
    scheduler_free_list = 0, current_process = 0\<rparr>"
  have sc: "init_scheduler lay0 (sched_of ?k, immortal_of M) = Inr (?sc, \<lparr>current = [0xE000, 0x102B40]\<rparr>)"
    by (simp add: init_scheduler_def malloc_immortal_def PID_MAX_def scheduler_initial_def lay0_def fresh assms(2))
  let ?k1 = "(set_store (m, \<lparr>frame_edge = 0x401000, frame_free_list = 0\<rparr>) ?k)\<lparr>paging_of := kp, sched_of := ?sc\<rparr>"
  obtain k2 where k2: "enqueue_process lay0 (user_process_at I) 0 0 ?k1 = Inr k2" "current_process (sched_of k2) = 0x102500"
    "process_pdt (process_of k2 0x102500) = 0" "fst (scheduler_next_process (sched_of k2)) = 0x102500"
    "frames_of k2 = \<lparr>frame_edge = 0x401000, frame_free_list = 0\<rparr>"
    by (auto simp: enqueue_process_def schedule_process_def alloc_process_def lay0_def Let_def
        update_process_def set_next_def set_prev_def scheduler_next_process_def set_store_def)
  obtain s where s: "scheduler_next_process (sched_of k2) = (0x102500, s)"
    using k2(4) by (cases "scheduler_next_process (sched_of k2)") auto
  have proc: "process_pdt (process_of (k2\<lparr>sched_of := s\<rparr>) 0x102500) = 0"
    using k2(3) s by (auto simp: process_of_def scheduler_next_process_def Let_def)
  from boot_create_VAS [of "paging_of k2" "memory_of k2"] obtain m' where
    c: "create_VAS (paging_of k2) (store_of k2) = Inr (0x401000, m', \<lparr>frame_edge = 0x404000, frame_free_list = 0\<rparr>)"
    unfolding store_of_def k2(5) by blast
  have "\<exists>ctx k3. switch_process k2 = Inr (ctx, k3)" using c s proc by (simp add: switch_process_def Let_def)
  then obtain ctx k3 where sw: "switch_process k2 = Inr (ctx, k3)" by blast
  obtain d st where e: "experiment_fn quiet_bus I 1 (dev_of M, register_syscalls (exit_at I) (ints_of M)) = (user_process_at I, d, st)"
    by (simp add: experiment_fn_def Let_def)
  show thesis
    by (rule that [where M' = "M\<lparr>dev_of := d, kern_of := k3, immortal_of := \<lparr>current = [0xE000, 0x102B40]\<rparr>, ints_of := st\<rparr>"])
      (use pg sc k2(1) sw e in \<open>simp_all add: boot_process_def Let_def\<close>)
qed

lemma quiet_boot:
  obtains ctx M where "kernel_entry quiet_bus C lay0 image0 0 (machine_initial m ns d) = Some (Inr (ctx, M))" "\<not> keyboard_found M"
proof -
  obtain M where M: "boot_core image0 0 (machine_initial m ns d) = Some (Inr M)" "immortal_of M = \<lparr>current = [0xE000, 0x102500]\<rparr>"
    "channels_of M = ps2_status_initial" "ps2_of M = ps2_initial" by (rule quiet_core)
  let ?M1 = "boot_timer quiet_bus image0 M"
  have M1: "kern_of ?M1 = kern_of M" "immortal_of ?M1 = immortal_of M" "channels_of ?M1 = ps2_status_initial" "ps2_of ?M1 = ps2_initial"
    by (subst quiet_timer, simp add: M)+
  obtain M2 where M2: "boot_ps2 quiet_bus C image0 ?M1 = Some M2" "immortal_of M2 = immortal_of ?M1" "ps2_of M2 = ps2_initial"
    by (rule quiet_boot_ps2 [OF M1(3,4)])
  have "kernel_fresh ns (kern_of M2)"
    using boot_ps2_facts(1) [OF M2(1)] boot_core_fresh(1) [OF M(1)] M1(1) by (auto simp: kernel_fresh_def)
  moreover have "immortal_of M2 = \<lparr>current = [0xE000, 0x102500]\<rparr>" using M2(2) M1(2) M(2) by simp
  ultimately obtain ctx M3 where M3: "boot_process quiet_bus lay0 image0 M2 = Inr (ctx, M3)" "ps2_of M3 = ps2_of M2"
    by (rule quiet_boot_process)
  have "\<not> keyboard_found M3"
    by (simp add: keyboard_found_def M3 M2 ps2_initial_def NOTHING_def MF_KEYBOARD_def MF_KEYBOARD1_def)
  then show thesis using M(1) M2(1) M3(1) by (intro that) (simp_all add: kernel_entry_def)
qed

lemma abi_ok_lay0: "abi_ok lay0"
  by (simp add: abi_ok_def lay0_def)

section \<open>Lemmas: the interrupt table\<close>

lemma boot_tables:
  assumes "kernel_entry B C lay I memsize (machine_initial m ns d) = Some (Inr (ctx, M))"
  shows "idt_inv (ints_of M) \<and> (\<forall>v < 256. handlerTable (ints_of M) ! v =
      (if v = 14 then pagefault_handler_at I else if v = 0x31 then exit_at I
       else if v = 0x21 \<and> keyboard_found M then keyboard_handler_at I else 0))
    \<and> gate_target (idt (ints_of M) ! 32) = timer_handler_at I \<and> present (idt (ints_of M) ! 32) = 1
    \<and> (\<forall>v < 256. callable_from USER_PL (idt (ints_of M) ! v) \<longleftrightarrow> v = 0x31)"
proof -
  from kernel_entryE [OF assms(1)] obtain M1 M2 where M1: "boot_core I memsize (machine_initial m ns d) = Some (Inr M1)"
    and M2: "boot_ps2 B C I (boot_timer B I M1) = Some M2" and M: "boot_process B lay I M2 = Inr (ctx, M)" by blast
  note core = boot_core_fresh [OF M1] and ps2 = boot_ps2_facts [OF M2]
  have h32: "handlerTable (ints_of M1) ! 32 = 0" using core(4) [of 32] by simp
  note timer = boot_timer_facts [OF core(3) h32, of B]
  let ?st1 = "ints_of (boot_timer B I M1)"
  have fin: "ints_of M = register_syscalls (exit_at I) (ints_of M2)" "ps2_of M = ps2_of M2"
    using M by (auto simp: boot_process_def experiment_fn_def Let_def split: sum.splits)
  have found: "keyboard_found M = keyboard_found M2" by (simp add: keyboard_found_def fin)
  have len: "length (idt ?st1) = 256" "length (handlerTable ?st1) = 256" using timer(4) by (simp_all add: idt_inv_def)
  have kv: "unat KEYBOARD_VECTOR = 0x21" by (simp add: KEYBOARD_VECTOR_def PIC_MASTER_VECTOR_RANGE_START_def)
  have inv2: "idt_inv (ints_of M2)" using timer(4) by (simp add: ps2(3) set_interrupt_handler_inv)
  then have len2: "length (idt (ints_of M2)) = 256" by (simp add: idt_inv_def)
  have gate2: "idt (ints_of M2) ! 32 = idt ?st1 ! 32"
    using set_interrupt_handler_gate(5) [OF len(1), of 32 KEYBOARD_VECTOR] by (simp add: ps2(3) kv)
  have gate: "idt (ints_of M) ! 32 = idt ?st1 ! 32"
    using set_interrupt_handler_gate(5) [OF len2, of 32 "0x31"] by (simp add: fin register_syscalls_ints gate2)
  have handlers: "handlerTable (ints_of M) ! v = (if v = 14 then pagefault_handler_at I else if v = 0x31 then exit_at I
       else if v = 0x21 \<and> keyboard_found M then keyboard_handler_at I else 0)" if v: "v < 256" for v
    using core(4) [OF v] len v by (auto simp: fin(1) register_syscalls_ints ps2(3) found timer(3) kv nth_list_update)
  have dpl2: "descriptor_privilege_level (idt (ints_of M2) ! v) = pl_code KERNEL_PL" if "v < 256" for v
    using timer(7) core(5) that by (simp add: ps2(3) set_interrupt_handler_privilege [OF len(1)])
  have dpl: "descriptor_privilege_level (idt (ints_of M) ! v) = (if v = 0x31 then pl_code USER_PL else pl_code KERNEL_PL)"
    if "v < 256" for v
    using dpl2 that by (simp add: fin register_syscalls_ints set_interrupt_handler_privilege [OF len2])
  have "present (idt (ints_of M) ! 0x31) = 1"
    using set_interrupt_handler_gate(2) [OF len2, of "0x31"] by (simp add: fin register_syscalls_ints)
  moreover have "callable_from USER_PL (idt (ints_of M) ! v)
      \<longleftrightarrow> present (idt (ints_of M) ! v) = 1 \<and> USER_PL \<le> (if v = 0x31 then USER_PL else KERNEL_PL)" if "v < 256" for v
    using dpl [OF that] by (intro callable_from_level) simp
  ultimately have "callable_from USER_PL (idt (ints_of M) ! v) \<longleftrightarrow> v = 0x31" if "v < 256" for v
    using that by auto
  moreover have "idt_inv (ints_of M)" using inv2 by (simp add: fin register_syscalls_ints set_interrupt_handler_inv)
  ultimately show ?thesis using handlers timer(5,6) by (simp add: gate)
qed

section \<open>Properties\<close>



text \<open>
  C38: the interrupt table of the running system. The only handlers are those of the page fault, of the
  system call \<open>exit\<close> and, if a keyboard was found on the first channel, of the keyboard; the gate of
  each is present and leads to its own trampoline, and the timer's gate leads straight to its handler.
  User code can raise one vector only, that of \<open>exit\<close>.
\<close>

theorem boot_interrupt_table:
  assumes "kernel_entry B C lay I memsize (machine_initial m ns d) = Some (Inr (ctx, M))"
  shows "idt_inv (ints_of M) \<and> (\<forall>v < 256. handlerTable (ints_of M) ! v =
      (if v = 14 then pagefault_handler_at I else if v = 0x31 then exit_at I
       else if v = 0x21 \<and> keyboard_found M then keyboard_handler_at I else 0))
    \<and> gate_target (idt (ints_of M) ! 32) = timer_handler_at I \<and> present (idt (ints_of M) ! 32) = 1
    \<and> (\<forall>v < 256. callable_from USER_PL (idt (ints_of M) ! v) \<longleftrightarrow> v = 0x31)"
  using assms by (rule boot_tables)

theorem boot_interrupt_table_witness:
  "\<exists>ctx (M :: unit machine). kernel_entry quiet_bus \<lparr>clk_millis = Pair 0, clk_fractions = Pair 0\<rparr> lay0 image0 0
      (machine_initial (\<lambda>_. 0) (\<lambda>_. undefined) ()) = Some (Inr (ctx, M))
    \<and> handlerTable (ints_of M) ! 0x31 = 0x9300 \<and> handlerTable (ints_of M) ! 0x21 = 0 \<and> gate_target (idt (ints_of M) ! 32) = 0x9100"
proof -
  obtain ctx M where b: "kernel_entry quiet_bus \<lparr>clk_millis = Pair 0, clk_fractions = Pair 0\<rparr> lay0 image0 0
      (machine_initial (\<lambda>_. 0) (\<lambda>_. undefined) ()) = Some (Inr (ctx, M))" "\<not> keyboard_found M" by (rule quiet_boot)
  from boot_interrupt_table [OF b(1)] b show ?thesis by (intro exI [of _ ctx] exI [of _ M]) (simp add: image0_def)
qed

end
