(* ===== verification/System.thy ===== *)
theory System
  imports Entry
begin

text \<open>
  The running machine: from the end of the boot sequence on, the kernel runs in interrupts. A \<open>step\<close> is one
  of them, dispatched through the interrupt table the boot has left, or a write of user code, or a change
  of the devices; \<open>runs\<close> are its histories. \<open>system_inv\<close> composes the invariants of the components: the
  kernel's (\<open>reachable\<close>), the console's with its literals, the trampolines', the keyboard's. Every step
  keeps it, the steps are always possible while frames are free, and those that end a process (\<open>ends\<close>)
  are bounded.
\<close>

section \<open>Output of the kernel's handlers\<close>

text \<open>
  \<open>exit\<close> and the page-fault handler record what they print; here it is printed. The operations on
  address spaces between two messages write frames, which no output reads or writes.
\<close>

fun print_messages :: "(string \<Rightarrow> u32) \<Rightarrow> (string \<times> u32 list) list \<Rightarrow> tty \<Rightarrow> tty option" where
  "print_messages lit [] t = Some t"
| "print_messages lit ((fmt, args) # msgs) t =
     (case printf (lit fmt) (\<lambda>n. args ! n) t of None \<Rightarrow> None | Some (_, t) \<Rightarrow> print_messages lit msgs t)"

definition set_tty :: "tty \<Rightarrow> 'd machine \<Rightarrow> 'd machine" where
  "set_tty t M = M\<lparr>kern_of := (kern_of M)\<lparr>memory_of := fst (fst t)\<rparr>, vga_of := snd (fst t), stdout_of := snd t\<rparr>"

definition print_new :: "image \<Rightarrow> 'd machine \<Rightarrow> kernel \<Rightarrow> tty option" where
  "print_new I M k = print_messages (literal_at I) (drop (length (printed (kern_of M))) (printed k)) (tty_of (M\<lparr>kern_of := k\<rparr>))"

section \<open>Steps\<close>

text \<open>The kernel image, which the loader places from \<open>0x7C00\<close> on; the literals are in it.\<close>

definition in_image :: "image \<Rightarrow> u32 \<Rightarrow> bool" where
  "in_image I a \<longleftrightarrow> 0x7C00 \<le> unat a \<and> unat a < unat (kernel_code_end I)"

definition image_ok :: "image \<Rightarrow> memory \<Rightarrow> bool" where
  "image_ok I m \<longleftrightarrow> unat (kernel_code_end I) \<le> 0xB8000
     \<and> (\<forall>s \<in> set kernel_literals. literal (\<lambda>a. \<not> in_image I a) m (literal_at I s) s)"

datatype event = Tick | Key Context | Exit Context | Fault Context CRContext | User | Device

text \<open>
  The window user code may write contains the kernel image; writes that destroy it are not steps.
\<close>

inductive step :: "'d bus \<Rightarrow> 'd clock \<Rightarrow> image \<Rightarrow> 'd machine \<times> keyboard \<Rightarrow> event \<Rightarrow> 'd machine \<times> keyboard \<Rightarrow> bool" for B C I where
  tick: "gate_target (idt (ints_of M) ! 32) = timer_handler_at I
    \<Longrightarrow> step B C I (M, k) Tick (M\<lparr>timer_of := timer_handler (timer_of M)\<rparr>, k)"
| key: "universal_interrupt_handler (ints_of M) ctx = Call (keyboard_handler_at I) ctx
    \<Longrightarrow> keyboard_handler B C (literal_at I) ctx (dev_of M, ps2_of M, k, tty_of M) = Some (d, p, k', t)
    \<Longrightarrow> step B C I (M, k) (Key ctx) (set_tty t (M\<lparr>dev_of := d, ps2_of := p\<rparr>), k')"
| exit: "universal_interrupt_handler (ints_of M) ctx = Call (exit_at I) ctx
    \<Longrightarrow> exit ctx (kern_of M) = Inr (ctx', K) \<Longrightarrow> print_new I M K = Some t
    \<Longrightarrow> step B C I (M, k) (Exit ctx) (set_tty t (M\<lparr>kern_of := K\<rparr>), k)"
| fault: "universal_interrupt_handler (ints_of M) ctx = Call (pagefault_handler_at I) ctx
    \<Longrightarrow> pagefault_handler ctx crctx (kern_of M) = Some (Inr out) \<Longrightarrow> print_new I M (kernel_after out) = Some t
    \<Longrightarrow> step B C I (M, k) (Fault ctx crctx) (set_tty t (M\<lparr>kern_of := kernel_after out\<rparr>), k)"
| user: "user_write (memory_of (kern_of M)) m' (reg_cr3 (kern_of M))
    \<Longrightarrow> same_outside (\<lambda>a. \<not> in_image I a) (memory_of (kern_of M)) m'
    \<Longrightarrow> step B C I (M, k) User (M\<lparr>kern_of := (kern_of M)\<lparr>memory_of := m'\<rparr>\<rparr>, k)"
| device: "step B C I (M, k) Device (M\<lparr>dev_of := d\<rparr>, k)"

inductive runs :: "'d bus \<Rightarrow> 'd clock \<Rightarrow> image \<Rightarrow> 'd machine \<times> keyboard \<Rightarrow> event list \<Rightarrow> 'd machine \<times> keyboard \<Rightarrow> bool" for B C I s where
  none: "runs B C I s [] s"
| more: "runs B C I s evs s' \<Longrightarrow> step B C I s' e s'' \<Longrightarrow> runs B C I s (evs @ [e]) s''"

lemma runs_invariant:
  assumes "runs B C I s evs s'" "P s" "\<And>s e s'. step B C I s e s' \<Longrightarrow> P s \<Longrightarrow> P s'"
  shows "P s'"
  using assms(1) by (induction rule: runs.induct) (use assms(2,3) in auto)

section \<open>The invariant\<close>

text \<open>The console, its literals in the image and its memory below the frames.\<close>

definition console_inv :: "image \<Rightarrow> tty \<Rightarrow> bool" where
  "console_inv I t \<longleftrightarrow> tty_ready t \<and> image_ok I (fst (fst t)) \<and> (\<forall>a. in_console t a \<longrightarrow> 0xB8000 \<le> unat a \<and> unat a < 0x400000)"

text \<open>The trampolines are where the boot has put them, and no output or user code reaches them.\<close>

definition entries_inv :: "image \<Rightarrow> interrupts \<Rightarrow> tty \<Rightarrow> bool" where
  "entries_inv I st t \<longleftrightarrow>
     (\<forall>a. in_region a (trampolines st) 2048 \<longrightarrow> \<not> in_console t a \<and> 0x80000 \<le> unat a \<and> unat a < 0x400000)
     \<and> (\<forall>v < 256. entry_effect (fst (fst t)) (trampolines st + of_nat (8 * v)) = Some (\<not> has_error_code (of_nat v), of_nat v, collect_ctx_at I))"

definition system_inv :: "abi \<Rightarrow> image \<Rightarrow> interrupts \<Rightarrow> 'd machine \<times> keyboard \<Rightarrow> bool" where
  "system_inv lay I st s \<longleftrightarrow> (let (M, k) = s in
     reachable lay (kern_of M) \<and> paging_on (kern_of M) \<and> console_inv I (tty_of M) \<and> ints_of M = st \<and> entries_inv I st (tty_of M)
     \<and> queues_ok (ps2_of M) \<and> kb_ok k)"

lemma console_inv_tty:
  assumes "console_inv I t"
  shows "tty_inv (literal_at I) t"
proof -
  have "literal (in_console t) (fst (fst t)) (literal_at I s) s" if "s \<in> set kernel_literals" for s
  proof (rule literal_mono)
    show "literal (\<lambda>a. \<not> in_image I a) (fst (fst t)) (literal_at I s) s"
      using assms that by (simp add: console_inv_def image_ok_def)
    show "\<not> in_image I a" if "in_console t a" for a
      using assms that by (fastforce simp: console_inv_def image_ok_def in_image_def)
  qed
  then show ?thesis using assms by (simp add: console_inv_def tty_inv_def literals_at_def)
qed

lemma image_kept: "image_ok I m \<Longrightarrow> same_outside (\<lambda>a. \<not> in_image I a) m m' \<Longrightarrow> image_ok I m'"
  by (auto simp: image_ok_def intro: literal_same)

lemma entries_kept_same:
  assumes "entries_inv I st t" "\<And>a. in_region a (trampolines st) 2048 \<Longrightarrow> fst (fst t') a = fst (fst t) a" "in_console t' = in_console t"
  shows "entries_inv I st t'"
proof -
  have "entry_effect (fst (fst t')) (trampolines st + of_nat (8 * v)) = entry_effect (fst (fst t)) (trampolines st + of_nat (8 * v))"
    if "v < 256" for v
  proof (rule entry_effect_cong)
    fix i :: nat
    assume "i < 8"
    then have "in_region (trampolines st + of_nat (8 * v + i)) (trampolines st) 2048"
      using that by (intro in_region_offset) auto
    then show "fst (fst t') (trampolines st + of_nat (8 * v) + of_nat i) = fst (fst t) (trampolines st + of_nat (8 * v) + of_nat i)"
      using assms(2) by (simp add: ac_simps)
  qed
  then show ?thesis using assms(1) unfolding entries_inv_def assms(3) by simp
qed

text \<open>Output keeps them.\<close>

lemma output_keeps:
  assumes "console_inv I t" "tty_step t t'"
  shows "console_inv I t'" "entries_inv I st t \<Longrightarrow> entries_inv I st t'"
    "same_outside (\<lambda>a. unat a < 0x400000) (fst (fst t)) (fst (fst t'))"
proof -
  have s: "tty_ready t'" "in_console t' = in_console t" "same_outside (in_console t) (fst (fst t)) (fst (fst t'))"
    using assms(2) by (simp_all add: tty_step_def)
  have area: "in_console t a \<Longrightarrow> 0xB8000 \<le> unat a \<and> unat a < 0x400000" for a using assms(1) by (simp add: console_inv_def)
  have i: "image_ok I (fst (fst t))" using assms(1) by (simp add: console_inv_def)
  have "image_ok I (fst (fst t'))"
    by (rule image_kept [OF i], rule same_outside_mono [OF s(3)]) (use area i in \<open>fastforce simp: in_image_def image_ok_def\<close>)
  then show "console_inv I t'" using s area by (simp add: console_inv_def)
  show "same_outside (\<lambda>a. unat a < 0x400000) (fst (fst t)) (fst (fst t'))"
    by (rule same_outside_mono [OF s(3)]) (use area in auto)
  assume e: "entries_inv I st t"
  show "entries_inv I st t'"
    by (rule entries_kept_same [OF e _ s(2)]) (use e s(3) in \<open>auto simp: entries_inv_def same_outside_def\<close>)
qed

text \<open>So do writes to frames and to the user window outside the image.\<close>

definition elsewhere :: "image \<Rightarrow> u32 \<Rightarrow> bool" where
  "elsewhere I a \<longleftrightarrow> 0x400000 \<le> unat a \<or> unat a < 0x80000 \<and> \<not> in_image I a"

lemma elsewhere_keeps:
  assumes "console_inv I (tty_of M)" "same_outside (elsewhere I) (memory_of (kern_of M)) (memory_of K)"
  shows "console_inv I (tty_of (M\<lparr>kern_of := K\<rparr>))" "entries_inv I st (tty_of M) \<Longrightarrow> entries_inv I st (tty_of (M\<lparr>kern_of := K\<rparr>))"
proof -
  let ?t = "tty_of M" and ?t' = "tty_of (M\<lparr>kern_of := K\<rparr>)"
  have mem: "fst (fst ?t) = memory_of (kern_of M)" "fst (fst ?t') = memory_of K" by (simp_all add: tty_of_def)
  have con: "in_console ?t' = in_console ?t" by (simp add: tty_of_def in_console_def fun_eq_iff)
  have c: "tty_ready ?t" "image_ok I (memory_of (kern_of M))" "\<And>a. in_console ?t a \<Longrightarrow> 0xB8000 \<le> unat a \<and> unat a < 0x400000"
    using assms(1) by (simp_all add: console_inv_def mem)
  have kept: "memory_of K a = memory_of (kern_of M) a" if "\<not> elsewhere I a" for a
    using assms(2) that by (rule same_outsideD)
  have "memory_of K a = memory_of (kern_of M) a" if "in_display (vga_of M) a" for a
    using c(3) [of a] that by (intro kept) (auto simp: in_console_def tty_of_def elsewhere_def)
  from display_outside(1) [of "memory_of (kern_of M)" "vga_of M" "stdout_of M" "memory_of K", OF _ this] c(1) have "tty_ready ?t'"
    by (auto simp: tty_ready_def tty_of_def buffer_apart_def)
  moreover have "image_ok I (memory_of K)"
    by (rule image_kept [OF c(2)], rule same_outside_mono [OF assms(2)])
      (use c(2) in \<open>auto simp: elsewhere_def in_image_def image_ok_def\<close>)
  ultimately show "console_inv I ?t'" using c(3) by (simp add: console_inv_def mem con)
  assume e: "entries_inv I st ?t"
  show "entries_inv I st ?t'"
    by (rule entries_kept_same [OF e _ con]) (use e in \<open>auto simp: entries_inv_def mem elsewhere_def intro!: kept\<close>)
qed

section \<open>Lemmas: the handlers' messages\<close>

lemma set_tty_fields [simp]:
  "tty_of (set_tty t M) = t" "ints_of (set_tty t M) = ints_of M" "ps2_of (set_tty t M) = ps2_of M"
  "kern_of (set_tty t M) = (kern_of M)\<lparr>memory_of := fst (fst t)\<rparr>"
  by (simp_all add: set_tty_def tty_of_def)

text \<open>What is recorded: nothing, or one of the \<open>end_messages\<close>.\<close>

definition end_output :: "(string \<times> u32 list) list \<Rightarrow> bool" where
  "end_output msgs \<longleftrightarrow> msgs = [] \<or> (\<exists>f \<in> set end_messages. \<exists>args. msgs = [(format_string f, args)])"

lemma print_end_output:
  assumes "tty_inv lit t" "end_output msgs"
  shows "\<exists>t'. print_messages lit msgs t = Some t' \<and> tty_step t t'"
proof (cases "msgs = []")
  case True
  then show ?thesis using tty_inv_refl [OF assms(1)] by simp
next
  case False
  then obtain f args where f: "f \<in> set end_messages" "msgs = [(format_string f, args)]" using assms(2) by (auto simp: end_output_def)
  have lit: "literal (in_console t) (fst (fst t)) (lit (format_string f)) (format_string f)"
    using f(1) by (intro literal_in_place [OF assms(1)]) (auto simp: kernel_literals_def)
  have "tty_ready t" using assms(1) by (simp add: tty_inv_def)
  moreover have "directives_ok (in_console t) (fst (fst t)) (\<lambda>_. []) ((!) args) 0 f \<and> directives_room (\<lambda>_. []) 0 f < 512"
    using f(1) by (auto simp: end_messages_def plain_text_def)
  ultimately obtain n t' where "printf (lit (format_string f)) ((!) args) t = Some (n, t')" "tty_step t t'"
    using printf_directives [OF _ lit, where strs = "\<lambda>_. []" and args = "(!) args"] by blast
  then show ?thesis using f(2) by auto
qed

lemma switch_process_printed: "switch_process k = Inr (ctx, k') \<Longrightarrow> printed k' = printed k"
  by (auto simp: switch_process_def Let_def assign_process_def set_store_def split: sum.splits prod.splits if_splits)

lemma switch_process_paging: "switch_process k = Inr (ctx, k') \<Longrightarrow> paging_on k'"
  by (auto simp: switch_process_def Let_def split: sum.splits prod.splits if_splits)

lemma exit_paging: "exit ctx k = Inr (ctx', k') \<Longrightarrow> paging_on k'"
  unfolding exit_def Let_def by (rule switch_process_paging)

lemma fault_paging: "pagefault_handler ctx crctx k = Some (Inr out) \<Longrightarrow> paging_on (kernel_after out)"
  by (auto simp: pagefault_handler_def kill_process_def Let_def switch_process_paging
      split: if_splits option.splits sum.splits prod.splits)

lemma discard_process_printed [simp]: "printed (discard_process p k) = printed k"
  by (simp add: discard_process_def Let_def assign_process_def set_store_def)

lemma exit_printed:
  assumes "exit ctx k = Inr (ctx', k')"
  shows "\<exists>msgs. printed k' = printed k @ msgs \<and> end_output msgs"
proof -
  obtain x where "printed k' = printed k @ [(''%p\<newline>'', [x])]"
    using switch_process_printed [of _ ctx' k'] assms unfolding exit_def Let_def by (fastforce simp: kprintf_def)
  then show ?thesis by (intro exI [of _ "[(''%p\<newline>'', [x])]"]) (auto simp: end_output_def end_messages_def format_string_def)
qed

lemma kill_printed:
  assumes "kill_process msg p k = Some (Inr out)" "[Text msg] \<in> set end_messages"
  shows "\<exists>msgs. printed (kernel_after out) = printed k @ msgs \<and> end_output msgs"
proof -
  obtain ctx' k' where "switch_process (discard_process p (kprintf msg [] k)) = Inr (ctx', k')" "out = Switched ctx' k'"
    using assms(1) by (auto simp: kill_process_def split: sum.splits)
  then have "printed (kernel_after out) = printed k @ [(msg, [])]" using switch_process_printed by (fastforce simp: kprintf_def)
  moreover have "msg = format_string [Text msg]" by (simp add: format_string_def)
  ultimately show ?thesis using assms(2) unfolding end_output_def by metis
qed

lemma fault_printed:
  assumes "pagefault_handler ctx crctx k = Some (Inr out)"
  shows "\<exists>msgs. printed (kernel_after out) = printed k @ msgs \<and> end_output msgs"
proof -
  consider (kill) msg where "kill_process msg (scheduler_current_process (sched_of k)) (k\<lparr>paging_on := False\<rparr>) = Some (Inr out)"
      "[Text msg] \<in> set end_messages"
    | (grow) "printed (kernel_after out) = printed k"
    using assms by (auto simp: pagefault_handler_def Let_def end_messages_def assign_process_def set_store_def
        split: if_splits option.splits sum.splits prod.splits)
  then show ?thesis
  proof cases
    case kill
    then show ?thesis using kill_printed [OF kill] by simp
  next
    case grow
    then show ?thesis by (auto simp: end_output_def)
  qed
qed

section \<open>Lemmas: every step keeps the invariant\<close>

lemma system_invD:
  assumes "system_inv lay I st (M, k)"
  shows "reachable lay (kern_of M)" "console_inv I (tty_of M)" "ints_of M = st" "entries_inv I st (tty_of M)"
    "queues_ok (ps2_of M)" "kb_ok k" "paging_on (kern_of M)"
  using assms by (simp_all add: system_inv_def)

text \<open>Printing, then the machine goes on with the output on its screen.\<close>

lemma output_step:
  assumes "reachable lay (kern_of M)" "console_inv I (tty_of M)" "entries_inv I (ints_of M) (tty_of M)" "tty_step (tty_of M) t"
    and "queues_ok (ps2_of M)" "kb_ok k" "paging_on (kern_of M)"
  shows "system_inv lay I (ints_of M) (set_tty t M, k)"
proof -
  note keep = output_keeps [OF assms(2,4)]
  have "reachable lay ((kern_of M)\<lparr>memory_of := fst (fst t)\<rparr>)"
    by (rule reachable.others [OF assms(1)]) (use keep(3) in \<open>simp add: tty_of_def\<close>)
  then show ?thesis using keep(1) keep(2) [OF assms(3)] assms(5-7) by (simp add: system_inv_def)
qed

lemma kernel_step:
  assumes "system_inv lay I st (M, k)" "reachable lay K" "paging_on K" "low_kept (memory_of (kern_of M)) (memory_of K)"
    and "\<exists>msgs. printed K = printed (kern_of M) @ msgs \<and> end_output msgs"
  shows "\<exists>t. print_new I M K = Some t \<and> system_inv lay I st (set_tty t (M\<lparr>kern_of := K\<rparr>), k)"
proof -
  let ?M = "M\<lparr>kern_of := K\<rparr>"
  note i = system_invD [OF assms(1)]
  have "same_outside (elsewhere I) (memory_of (kern_of M)) (memory_of K)"
    using assms(4) unfolding low_kept_def by (rule same_outside_mono) (simp add: elsewhere_def)
  note keep = elsewhere_keeps [OF i(2) this]
  obtain msgs where msgs: "printed K = printed (kern_of M) @ msgs" "end_output msgs" using assms(5) by blast
  from print_end_output [OF console_inv_tty [OF keep(1)] msgs(2)] obtain t where
    "print_messages (literal_at I) msgs (tty_of ?M) = Some t" "tty_step (tty_of ?M) t" by blast
  then have "print_new I M K = Some t" "tty_step (tty_of ?M) t" by (simp_all add: print_new_def msgs(1))
  moreover from this(2) have "system_inv lay I (ints_of ?M) (set_tty t ?M, k)"
    by (intro output_step) (use assms(2,3) i keep in simp_all)
  ultimately show ?thesis using i(3) by auto
qed

lemma exit_step:
  assumes "system_inv lay I st (M, k)" "exit ctx (kern_of M) = Inr (ctx', K)"
  shows "\<exists>t. print_new I M K = Some t \<and> system_inv lay I st (set_tty t (M\<lparr>kern_of := K\<rparr>), k)"
proof (rule kernel_step [OF assms(1)])
  note r = system_invD(1,7) [OF assms(1)]
  show "paging_on K" by (rule exit_paging [OF assms(2)])
  show "reachable lay K" by (rule reachable.exit [OF r assms(2)])
  from reachable_inv [OF r(1)] obtain xs L where "kernel_inv lay (kern_of M) xs L" by blast
  then show "low_kept (memory_of (kern_of M)) (memory_of K)" using exit_inv [OF _ r(2) assms(2)] by blast
  show "\<exists>msgs. printed K = printed (kern_of M) @ msgs \<and> end_output msgs" by (rule exit_printed [OF assms(2)])
qed

lemma fault_step:
  assumes "system_inv lay I st (M, k)" "pagefault_handler ctx crctx (kern_of M) = Some (Inr out)"
  shows "\<exists>t. print_new I M (kernel_after out) = Some t \<and> system_inv lay I st (set_tty t (M\<lparr>kern_of := kernel_after out\<rparr>), k)"
proof (rule kernel_step [OF assms(1)])
  note r = system_invD(1,7) [OF assms(1)]
  show "paging_on (kernel_after out)" by (rule fault_paging [OF assms(2)])
  show "reachable lay (kernel_after out)" by (rule reachable.fault [OF r assms(2)])
  from reachable_inv [OF r(1)] obtain xs L where "kernel_inv lay (kern_of M) xs L" by blast
  then show "low_kept (memory_of (kern_of M)) (memory_of (kernel_after out))" using fault_inv [OF _ r(2) assms(2)] by blast
  show "\<exists>msgs. printed (kernel_after out) = printed (kern_of M) @ msgs \<and> end_output msgs" by (rule fault_printed [OF assms(2)])
qed

lemma key_step:
  assumes "system_inv lay I st (M, k)"
    and "keyboard_handler B C (literal_at I) ctx (dev_of M, ps2_of M, k, tty_of M) = Some (d, p, k', t)"
  shows "system_inv lay I st (set_tty t (M\<lparr>dev_of := d, ps2_of := p\<rparr>), k')"
proof -
  let ?M = "M\<lparr>dev_of := d, ps2_of := p\<rparr>"
  note i = system_invD [OF assms(1)]
  note h = keyboard_handler_step [OF assms(2) console_inv_tty [OF i(2)] i(6,5)]
  have same: "tty_of ?M = tty_of M" by (simp add: tty_of_def)
  have "system_inv lay I (ints_of ?M) (set_tty t ?M, k')"
    by (rule output_step) (use i h in \<open>simp_all add: same\<close>)
  then show ?thesis using i(3) by simp
qed

lemma user_step:
  assumes "system_inv lay I st (M, k)" "user_write (memory_of (kern_of M)) m' (reg_cr3 (kern_of M))"
    and "same_outside (\<lambda>a. \<not> in_image I a) (memory_of (kern_of M)) m'"
  shows "system_inv lay I st (M\<lparr>kern_of := (kern_of M)\<lparr>memory_of := m'\<rparr>\<rparr>, k)"
proof -
  let ?K = "(kern_of M)\<lparr>memory_of := m'\<rparr>"
  note i = system_invD [OF assms(1)]
  from reachable_inv [OF i(1)] obtain xs L where inv: "kernel_inv lay (kern_of M) xs L" by blast
  have "m' a = memory_of (kern_of M) a" if "\<not> elsewhere I a" for a
  proof (cases "in_image I a")
    case True
    then show ?thesis using assms(3) by (simp add: same_outside_def)
  next
    case False
    then show ?thesis using that by (intro user_write_window [OF inv i(7) assms(2)]) (auto simp: elsewhere_def word_less_nat_alt)
  qed
  then have "same_outside (elsewhere I) (memory_of (kern_of M)) (memory_of ?K)" by (simp add: same_outside_def)
  note keep = elsewhere_keeps [OF i(2) this]
  show ?thesis
    using keep(1) keep(2) [OF i(4)] reachable.user [OF i(1,7) assms(2)] i(3,5,6,7) by (simp add: system_inv_def)
qed

lemma step_inv:
  assumes "step B C I s e s'" "system_inv lay I st s"
  shows "system_inv lay I st s'"
  using assms
proof (cases rule: step.cases)
  case (tick M k)
  then show ?thesis using assms(2) by (simp add: system_inv_def tty_of_def)
next
  case (key M ctx k d p k' t)
  then show ?thesis using key_step [OF assms(2) [unfolded key(1)] key(5)] by simp
next
  case (exit M ctx ctx' K t k)
  then show ?thesis using exit_step [of lay I st M k ctx ctx' K] assms(2) by auto
next
  case (fault M ctx crctx out t k)
  then show ?thesis using fault_step [of lay I st M k ctx crctx out] assms(2) by auto
next
  case (user M m' k)
  then show ?thesis using user_step [OF assms(2) [unfolded user(1)] user(4,5)] by simp
next
  case (device M k d)
  then show ?thesis using assms(2) by (simp add: system_inv_def tty_of_def)
qed

section \<open>Lemmas: the boot establishes the invariant\<close>

lemma entries_inv_cong: "trampolines st' = trampolines st \<Longrightarrow> entries_inv I st' t = entries_inv I st t"
  by (simp add: entries_inv_def)

lemma set_interrupt_handler_trampolines [simp]:
  "trampolines (set_interrupt_handler v ty dpl h st) = trampolines st"
  "trampolines (direct_set_interrupt_handler v ty dpl h st) = trampolines st"
  by (simp_all add: set_interrupt_handler_def direct_set_interrupt_handler_def)

text \<open>After \<open>init_consoles\<close> the console is below the rest of the arena.\<close>

lemma init_consoles_inv:
  assumes "immortal_inv im" "init_consoles im ((m, v), c) = Inr (im', t')" "image_ok I m"
  shows "console_inv I t'" "\<And>a. in_console t' a \<Longrightarrow> 0xB8000 \<le> unat a \<and> unat a < unat (current im' ! 1)"
proof -
  obtain m' v' c' where t': "t' = ((m', v'), c')" by (metis surj_pair)
  note F = init_consoles_facts [OF assms(1) assms(2) [unfolded t']]
  have v: "vga_ok v'" using F(1) by (simp add: console_ok_def)
  have cells: "screen_cells v' = 1920" by (simp add: screen_cells_def F(6,7))
  have low: "0x100000 \<le> unat (con_buffer c')" using F(13) assms(1) by (simp add: immortal_inv_def)
  have top: "unat (current im' ! 1) \<le> 0x400000" using F(10) by (simp add: immortal_inv_def)
  show area: "0xB8000 \<le> unat a \<and> unat a < unat (current im' ! 1)" if con: "in_console t' a" for a
  proof -
    have "in_screen v' a = in_region a VGA_TEXT_BASE 3840" "in_shadow v' a = in_region a (vga_buffer v') 3840"
      unfolding in_screen_def in_shadow_def cells by simp_all
    then consider "in_region a VGA_TEXT_BASE 3840" | "in_region a (vga_buffer v') 3840" | "in_region a (con_buffer c') 512"
      using con unfolding t' in_console_def in_display_def by (auto simp: STDOUT_BUFFER_SIZE_def)
    then show ?thesis
      by cases (use in_region_bounds [of a VGA_TEXT_BASE 3840] in_region_bounds [of a "vga_buffer v'" 3840]
        in_region_bounds [of a "con_buffer c'" 512] low top F(14,15) in \<open>auto simp: VGA_TEXT_BASE_def\<close>)
  qed
  have "tty_ready t'" using F(1-3,5) by (simp add: tty_ready_def t' STDOUT_BUFFER_SIZE_def)
  moreover have "image_ok I m'"
  proof (rule image_kept [OF assms(3)], rule same_outside_mono [OF F(12)])
    show "\<not> in_image I a" if "in_display v' a" for a
      using area [of a] that assms(3) by (auto simp: in_console_def t' in_image_def image_ok_def)
  qed
  ultimately show "console_inv I t'" using area top by (fastforce simp: console_inv_def t')
qed

lemma boot_core_inv:
  assumes "boot_core I memsize (machine_initial m ns d) = Some (Inr M)" "image_ok I m"
  shows "console_inv I (tty_of M)" "entries_inv I (ints_of M) (tty_of M)" "queues_ok (ps2_of M)"
proof -
  let ?M = "machine_initial m ns d"
  obtain A im1 m1 v1 c1 m2 im2 st where
    c: "init_consoles (init_immortal_allocator (kernel_code_end I) immortal_initial) ((m, vga_initial), fullscreen) = Inr (im1, (m1, v1), c1)"
    and i: "init_interrupts (collect_ctx_at I) (pagefault_handler_at I) (m1, im1, ints_of ?M) = Inr (m2, im2, st)"
    and M: "M = ?M\<lparr>kern_of := (kern_of ?M)\<lparr>memory_of := m2\<rparr>, immortal_of := im2, vga_of := v1, stdout_of := c1,
      ints_of := st, acpi_of := A\<rparr>"
    using assms(1) by (auto simp: boot_core_def machine_initial_def tty_of_def Let_def split: option.splits sum.splits)
  note im0 = immortal_inv_init [OF immortal_inv_initial, of "kernel_code_end I"]
  note C = init_consoles_inv [OF im0 c assms(2)]
  have im1: "immortal_inv im1" by (rule init_consoles_facts(10) [OF im0 c])
  note T = init_interrupts_memory [OF i im1]
  let ?t1 = "((m1, v1), c1)" and ?t2 = "((m2, v1), c1)"
  have t2: "tty_of M = ?t2" "ints_of M = st" by (simp_all add: M tty_of_def)
  have con: "in_console ?t2 = in_console ?t1" by (simp add: in_console_def fun_eq_iff)
  have kept: "m2 a = m1 a" if "unat a < unat (current im1 ! 1)" for a using T(1) that by (simp add: same_outside_def)
  have ready: "tty_ready ?t1" "image_ok I m1" and area: "in_console ?t1 a \<Longrightarrow> 0xB8000 \<le> unat a \<and> unat a < 0x400000" for a
    using C(1) by (simp_all add: console_inv_def)
  have "m2 a = m1 a" if "in_display v1 a" for a using C(2) [of a] that by (intro kept) (simp add: in_console_def)
  from display_outside(1) [of m1 v1 c1 m2, OF _ this] ready(1) have "tty_ready ?t2"
    by (auto simp: tty_ready_def buffer_apart_def)
  moreover have "0x100000 \<le> unat (current im1 ! 1)" using im1 by (simp add: immortal_inv_def)
  then have "image_ok I m2"
    by (intro image_kept [OF ready(2)] same_outside_mono [OF T(1)]) (use ready(2) in \<open>auto simp: in_image_def image_ok_def\<close>)
  ultimately show "console_inv I (tty_of M)" using area unfolding t2 console_inv_def con by simp
  have "\<not> in_console ?t2 a \<and> 0x80000 \<le> unat a \<and> unat a < 0x400000" if "in_region a (trampolines st) 2048" for a
  proof -
    have "unat (trampolines st) \<le> unat a" "unat a < unat (trampolines st) + 2048"
      using in_region_bounds [OF that] T(3) by simp_all
    then show ?thesis using C(2) [of a] T(2,3) \<open>0x100000 \<le> unat (current im1 ! 1)\<close> unfolding con by fastforce
  qed
  then show "entries_inv I (ints_of M) (tty_of M)" using T(4) by (simp add: entries_inv_def t2)
  show "queues_ok (ps2_of M)" using queue_ok_initial [of 0] queue_ok_initial [of 1] by (simp add: M queues_ok_def machine_initial_def)
qed

lemma enqueue_queues_ok: "queues_ok p \<Longrightarrow> queues_ok (ps2_device_enqueue_command 0 x p)"
  by (auto simp: queues_ok_def queue_ok_def ps2_device_enqueue_command_def Let_def inc_mod_32)

lemma boot_ps2_inv:
  assumes "boot_ps2 B C I M = Some M'" "console_inv I (tty_of M)" "entries_inv I (ints_of M) (tty_of M)" "queues_ok (ps2_of M)"
  shows "console_inv I (tty_of M')" "entries_inv I (ints_of M') (tty_of M')" "queues_ok (ps2_of M')"
proof -
  obtain d0 st d1 t1 d2 p2 t2 d3 ints p3 where
    r: "ps2_reset_devices B C (literal_at I) st (d0, tty_of M) = Some (d1, t1)"
    and f: "ps2_detect_devices B C (literal_at I) st (d1, ps2_of M, t1) = Some (d2, p2, t2)"
    and k: "(if devices p2 ! 0 = MF_KEYBOARD \<or> devices p2 ! 0 = MF_KEYBOARD1
       then init_ps2_keyboard B C (keyboard_handler_at I) 0 (d2, ints_of M, p2) else Some (d2, ints_of M, p2)) = Some (d3, ints, p3)"
    and M': "tty_of M' = t2" "ints_of M' = ints" "ps2_of M' = p3"
    using assms(1) by (auto simp: boot_ps2_def tty_of_def Let_def bind_eq_Some_conv split: prod.splits)
  note tty = console_inv_tty [OF assms(2)]
  note s1 = ps2_reset_devices_step [OF r tty]
  note s2 = ps2_detect_devices_step [OF f tty_inv_step [OF tty s1]]
  note keep = output_keeps [OF assms(2) tty_step_trans [OF s1 s2(1)]]
  have q2: "queues_ok p2" using assms(4) s2(2) by (simp add: queues_ok_def queue_ok_def)
  have "queues_ok (fold (ps2_device_enqueue_command 0) cmds p2)" for cmds
    using q2 by (induction cmds arbitrary: p2) (auto intro: enqueue_queues_ok)
  then have "queues_ok p3 \<and> trampolines ints = trampolines (ints_of M)"
    using k q2 by (auto simp: init_ps2_keyboard_def Let_def bind_eq_Some_conv split: if_splits)
  then show "console_inv I (tty_of M')" "entries_inv I (ints_of M') (tty_of M')" "queues_ok (ps2_of M')"
    using keep(1) keep(2) [OF assms(3)] entries_inv_cong [of ints "ints_of M" I t2] by (simp_all add: M')
qed

lemma start_low_kept:
  assumes "reachable lay k" "current_process (sched_of k) \<noteq> 0" "switch_process k = Inr (ctx, k')"
  shows "low_kept (memory_of k) (memory_of k')"
proof -
  from reachable_inv [OF assms(1)] obtain xs L where i: "kernel_inv lay k xs L" by blast
  then have "xs \<noteq> []" using assms(2) by (auto simp: kernel_inv_def sched_inv_def Scheduler.ring_def)
  then obtain x ys where "xs = x # ys" by (meson neq_Nil_conv)
  with switch_process_inv [of lay k x ys L] i assms(3) show ?thesis by blast
qed

lemma kernel_entry_inv:
  assumes "abi_ok lay" "image_ok I m" "kernel_entry B C lay I memsize (machine_initial m ns d) = Some (Inr (ctx, M))"
  shows "system_inv lay I (ints_of M) (M, keyboard_initial)"
proof -
  from kernel_entryE [OF assms(3)] obtain M1 M2 where M1: "boot_core I memsize (machine_initial m ns d) = Some (Inr M1)"
    and M2: "boot_ps2 B C I (boot_timer B I M1) = Some M2" and M: "boot_process B lay I M2 = Inr (ctx, M)" by blast
  note core = boot_core_fresh [OF M1] and ps2 = boot_ps2_facts [OF M2]
  have "handlerTable (ints_of M1) ! 32 = 0" using core(4) [of 32] by simp
  note timer = boot_timer_facts [OF core(3) this, of B]
  have fresh: "kernel_fresh ns (kern_of M2)" using core(1) ps2(1) timer(1) by (auto simp: kernel_fresh_def)
  have im: "immortal_inv (immortal_of M2)" using core(2) ps2(2) timer(2) by simp
  let ?T = "boot_timer B I M1"
  have t: "tty_of ?T = tty_of M1" "ps2_of ?T = ps2_of M1" "trampolines (ints_of ?T) = trampolines (ints_of M1)"
    by (simp_all add: boot_timer_def init_timer_def init_timer_with_reload_value_def Let_def tty_of_def split: prod.splits)
  note c = boot_core_inv [OF M1 assms(2)]
  have "entries_inv I (ints_of ?T) (tty_of ?T)" using c(2) unfolding t(1) entries_inv_cong [OF t(3)] .
  from boot_ps2_inv [OF M2 _ this] c(1,3) have p: "console_inv I (tty_of M2)" "entries_inv I (ints_of M2) (tty_of M2)" "queues_ok (ps2_of M2)"
    by (simp_all add: t)
  from boot_process_kernel [OF M fresh im assms(1)] obtain k1 k2 where k: "reachable lay k2"
    "enqueue_process lay (user_process_at I) 0 0 k1 = Inr k2" "kernel_inv lay k1 [] {kernel_pt (paging_of k1)}"
    "switch_process k2 = Inr (ctx, kern_of M)" "ints_of M = register_syscalls (exit_at I) (ints_of M2)"
    "low_kept (memory_of (kern_of M2)) (memory_of k2)" "vga_of M = vga_of M2" "stdout_of M = stdout_of M2" "ps2_of M = ps2_of M2" by blast
  note first = first_process [OF k(3,2)]
  have reach: "reachable lay (kern_of M)" using reachable.start [OF k(1) first(1) k(4)] .
  have "low_kept (memory_of (kern_of M2)) (memory_of (kern_of M))"
    by (rule low_kept_trans [OF k(6) start_low_kept [OF k(1) first(1) k(4)]])
  then have "same_outside (elsewhere I) (memory_of (kern_of M2)) (memory_of (kern_of M))"
    unfolding low_kept_def by (rule same_outside_mono) (simp add: elsewhere_def)
  note keep = elsewhere_keeps [OF p(1) this]
  have tty: "tty_of (M2\<lparr>kern_of := kern_of M\<rparr>) = tty_of M" by (simp add: tty_of_def k(7,8))
  have "trampolines (ints_of M) = trampolines (ints_of M2)" by (simp add: k(5) register_syscalls_ints)
  from entries_inv_cong [OF this] have "entries_inv I (ints_of M) (tty_of M)" using keep(2) [OF p(2)] by (simp add: tty)
  moreover have "paging_on (kern_of M)" by (rule switch_process_paging [OF k(4)])
  moreover have "kb_ok keyboard_initial" by (simp add: kb_ok_def keyboard_initial_def)
  ultimately show ?thesis using reach keep(1) p(3) by (simp add: system_inv_def tty k(9))
qed

lemma machine_inv:
  assumes "abi_ok lay" "image_ok I m" "kernel_entry B C lay I memsize (machine_initial m ns d) = Some (Inr (ctx, M0))"
    and "runs B C I (M0, keyboard_initial) evs s"
  shows "system_inv lay I (ints_of M0) s"
  using runs_invariant [OF assms(4), where P = "system_inv lay I (ints_of M0)"] kernel_entry_inv [OF assms(1-3)] step_inv by metis

section \<open>Lemmas: processes that end\<close>

text \<open>The events that end a process: \<open>exit\<close>, and a fault of user code outside the stack area.\<close>

fun ends :: "event \<Rightarrow> bool" where
  "ends (Exit ctx) \<longleftrightarrow> True"
| "ends (Fault ctx crctx) \<longleftrightarrow> \<not> (0x400000 \<le> cr2 crctx \<and> cr2 crctx < 0x800000)"
| "ends _ \<longleftrightarrow> False"

lemma fault_param:
  assumes "pagefault_handler ctx crctx k = Some (Inr out)"
  shows "param (kernel_after out) = (if 0x400000 \<le> cr2 crctx \<and> cr2 crctx < 0x800000 then param k else param k + 1)"
proof -
  have kill: "param (kernel_after out) = param k + 1" if "kill_process msg p (k\<lparr>paging_on := False\<rparr>) = Some (Inr out)" for msg p
    using that by (auto simp: kill_process_def kprintf_def discard_process_def Let_def dest!: switch_process_param split: sum.splits)
  have apart: "\<not> cr2 crctx < 0x7000" "\<not> cr2 crctx < 0x400000" if "0x400000 \<le> cr2 crctx"
    using that by (auto simp: word_le_nat_alt word_less_nat_alt)
  show ?thesis
  proof (cases "0x400000 \<le> cr2 crctx \<and> cr2 crctx < 0x800000")
    case True
    then show ?thesis using assms apart by (auto simp: pagefault_handler_def Let_def split: if_splits option.splits sum.splits prod.splits)
  next
    case False
    then show ?thesis using assms kill by (auto simp: pagefault_handler_def Let_def split: if_splits)
  qed
qed

lemma step_param:
  assumes "step B C I s e s'" "system_inv lay I st s"
  shows "unat (param (kern_of (fst s'))) = unat (param (kern_of (fst s))) + (if ends e then 1 else 0)"
proof -
  have "reachable lay (kern_of (fst s))" using assms(2) by (auto simp: system_inv_def split: prod.splits)
  then obtain xs L where "kernel_inv lay (kern_of (fst s)) xs L" using reachable_inv by blast
  note count = param_counts [OF this]
  from assms(1) show ?thesis
  proof (cases rule: step.cases)
    case (exit M ctx ctx' K t k)
    then show ?thesis using count exit_param [OF exit(5)] by simp
  next
    case (fault M ctx crctx out t k)
    then show ?thesis using count fault_param [OF fault(5)] by simp
  qed simp_all
qed

lemma runs_param:
  assumes "runs B C I s evs s'" "system_inv lay I st s"
  shows "unat (param (kern_of (fst s'))) = unat (param (kern_of (fst s))) + length (filter ends evs)"
proof -
  have "system_inv lay I st s' \<and> ?thesis"
    using assms(1)
  proof (induction rule: runs.induct)
    case none
    then show ?case using assms(2) by simp
  next
    case (more evs s' e s'')
    then show ?case using step_inv [OF more(2), of lay st] step_param [OF more(2), of lay st] by simp
  qed
  then show ?thesis by blast
qed

text \<open>The boot takes four frames and ends no process.\<close>

lemma boot_frames:
  assumes "abi_ok lay" "kernel_entry B C lay I memsize (machine_initial m ns d) = Some (Inr (ctx, M))"
  shows "param (kern_of M) = 0 \<and> (\<exists>L. frames_rel (store_of (kern_of M)) L \<and> card L + 3 \<le> 261119)"
proof -
  from kernel_entryE [OF assms(2)] obtain M1 M2 where M1: "boot_core I memsize (machine_initial m ns d) = Some (Inr M1)"
    and M2: "boot_ps2 B C I (boot_timer B I M1) = Some M2" and M: "boot_process B lay I M2 = Inr (ctx, M)" by blast
  note core = boot_core_fresh [OF M1] and ps2 = boot_ps2_facts [OF M2]
  have "handlerTable (ints_of M1) ! 32 = 0" using core(4) [of 32] by simp
  note timer = boot_timer_facts [OF core(3) this, of B]
  have fresh: "kernel_fresh ns (kern_of M2)" using core(1) ps2(1) timer(1) by (auto simp: kernel_fresh_def)
  have im: "immortal_inv (immortal_of M2)" using core(2) ps2(2) timer(2) by simp
  from boot_process_kernel [OF M fresh im assms(1)] obtain k1 k2 where
    k: "enqueue_process lay (user_process_at I) 0 0 k1 = Inr k2" "kernel_inv lay k1 [] {kernel_pt (paging_of k1)}"
      "switch_process k2 = Inr (ctx, kern_of M)" by blast
  from enqueue_process_inv [OF k(2,1)] obtain q where inv: "kernel_inv lay k2 [q] {kernel_pt (paging_of k1)}" by auto
  from switch_process_inv [OF this k(3)] obtain L where L: "kernel_inv lay (kern_of M) [q] L" "card L \<le> 4" by auto
  have "unat (param k1) = 0" using k(2) by (simp add: kernel_inv_def stray_def)
  moreover have "param k2 = param k1" using k(1) by (auto simp: enqueue_process_def Let_def split: sum.splits)
  ultimately have "param (kern_of M) = 0" using switch_process_param [OF k(3)] by (simp add: unat_eq_0)
  then show ?thesis using kernel_invD(2) [OF L(1)] L(2) by auto
qed

section \<open>Lemmas: progress\<close>

lemma exit_progress:
  assumes "system_inv lay I st (M, k)" "universal_interrupt_handler (ints_of M) ctx = Call (exit_at I) ctx"
    and "frames_rel (store_of (kern_of M)) L" "card L + 3 \<le> 261119"
  shows "\<exists>s. step B C I (M, k) (Exit ctx) s"
proof -
  from exit_available [OF system_invD(1,7) [OF assms(1)] assms(3,4)] obtain c' K where
    e: "exit ctx (kern_of M) = Inr (c', K)" by (metis surj_pair)
  from exit_step [OF assms(1) e] obtain t where "print_new I M K = Some t" by blast
  then show ?thesis using step.exit [OF assms(2) e] by blast
qed

lemma fault_progress:
  assumes "system_inv lay I st (M, k)" "universal_interrupt_handler (ints_of M) ctx = Call (pagefault_handler_at I) ctx"
    and "error_code ctx AND USER_FLAG \<noteq> 0" "frames_rel (store_of (kern_of M)) L" "card L + 2048 \<le> 261119"
  shows "\<exists>s. step B C I (M, k) (Fault ctx crctx) s"
proof -
  note r = system_invD(1,7) [OF assms(1)]
  have "\<exists>out. pagefault_handler ctx crctx (kern_of M) = Some (Inr out)"
    using kill_available [OF r assms(4) _ assms(3), of crctx] grow_available [OF r assms(4,5,3), of crctx] assms(5) by fastforce
  then obtain out where f: "pagefault_handler ctx crctx (kern_of M) = Some (Inr out)" ..
  from fault_step [OF assms(1) f] obtain t where "print_new I M (kernel_after out) = Some t" by blast
  then show ?thesis using step.fault [OF assms(2) f] by blast
qed

lemma key_progress:
  assumes "system_inv lay I st (M, k)" "universal_interrupt_handler (ints_of M) ctx = Call (keyboard_handler_at I) ctx"
    and "fst (inb B PS2_DATA_PORT (dev_of M)) \<noteq> ACK"
      "fst (inb B PS2_DATA_PORT (dev_of M)) = RSD \<longrightarrow> fail_count k + 1 = COMMAND_RESEND_THRESHOLD"
  shows "\<exists>s. step B C I (M, k) (Key ctx) s"
proof -
  from keyboard_handler_returns [OF console_inv_tty [OF system_invD(2) [OF assms(1)]] assms(3,4), of C ctx "ps2_of M"]
  obtain d p k' t where "keyboard_handler B C (literal_at I) ctx (dev_of M, ps2_of M, k, tty_of M) = Some (d, p, k', t)"
    by (metis surj_pair)
  then show ?thesis using step.key [OF assms(2)] by blast
qed

section \<open>Properties\<close>

text \<open>
  C2: whatever happens after the boot, timer and keyboard interrupts, exits, page faults and writes of
  user code that spare the kernel's image, the machine keeps the invariants of all its parts together: the
  kernel's state is one that process isolation holds of, the console is in order and its buffer
  empty, the interrupt table is the one the boot has left, and every vector with a handler
  still leads through its own intact trampoline to \<open>collect_ctx\<close>.
\<close>

theorem machine_invariant:
  assumes "abi_ok lay" "image_ok I m" "kernel_entry B C lay I memsize (machine_initial m ns d) = Some (Inr (ctx, M0))"
    and "runs B C I (M0, keyboard_initial) evs (M, k)"
  shows "reachable lay (kern_of M) \<and> paging_on (kern_of M) \<and> console_ok (tty_of M) \<and> con_buffer_pos (stdout_of M) = 0 \<and> ints_of M = ints_of M0
    \<and> (\<forall>v < 256. handlerTable (ints_of M) ! v \<noteq> 0 \<longrightarrow> present (idt (ints_of M) ! v) = 1
        \<and> entry_effect (memory_of (kern_of M)) (gate_target (idt (ints_of M) ! v))
          = Some (\<not> has_error_code (of_nat v), of_nat v, collect_ctx_at I))
    \<and> kb_ok k \<and> queue_ok 0 (ps2_of M) \<and> queue_ok 1 (ps2_of M)"
proof -
  note i = system_invD [OF machine_inv [OF assms]]
  have "idt_inv (ints_of M)" using boot_tables [OF assms(3)] i(3) by simp
  moreover have "fst (fst (tty_of M)) = memory_of (kern_of M)" "snd (tty_of M) = stdout_of M" by (simp_all add: tty_of_def)
  ultimately show ?thesis
    using i by (auto simp: idt_inv_def entries_inv_def console_inv_def tty_ready_def queues_ok_def)
qed

text \<open>A machine that has booted and ticked, for the witnesses.\<close>

lemma image0_ok: "image_ok image0 literal_memory"
  using literal_placed by (fastforce simp: image_ok_def literal_def in_image_def image0_def)

lemma ticking_machine:
  obtains C d ctx and M0 M :: "unit machine" where
    "kernel_entry quiet_bus C lay0 image0 0 (machine_initial literal_memory (\<lambda>_. undefined) d) = Some (Inr (ctx, M0))"
    "runs quiet_bus C image0 (M0, keyboard_initial) [Tick] (M, keyboard_initial)" "kern_of M = kern_of M0"
proof -
  let ?C = "\<lparr>clk_millis = Pair 0, clk_fractions = Pair 0\<rparr>"
  obtain ctx and M0 :: "unit machine" where b: "kernel_entry quiet_bus ?C lay0 image0 0 (machine_initial literal_memory (\<lambda>_. undefined) ())
      = Some (Inr (ctx, M0))" "\<not> keyboard_found M0" by (rule quiet_boot)
  have "gate_target (idt (ints_of M0) ! 32) = timer_handler_at image0" using boot_tables [OF b(1)] by blast
  from runs.more [OF runs.none step.tick [OF this]] have
    "runs quiet_bus ?C image0 (M0, keyboard_initial) [Tick] (M0\<lparr>timer_of := timer_handler (timer_of M0)\<rparr>, keyboard_initial)" by simp
  then show thesis by (rule that [OF b(1)]) simp
qed

theorem machine_invariant_witness:
  "\<exists>C ctx M0 M. runs quiet_bus C image0 (M0 :: unit machine, keyboard_initial) [Tick] (M, keyboard_initial)
    \<and> kernel_entry quiet_bus C lay0 image0 0 (machine_initial literal_memory (\<lambda>_. undefined) ()) = Some (Inr (ctx, M0))
    \<and> handlerTable (ints_of M) ! 0x31 = 0x9300
    \<and> entry_effect (memory_of (kern_of M)) (gate_target (idt (ints_of M) ! 0x31)) = Some (True, 0x31, 0x7C80)"
proof -
  obtain C d ctx and M0 M :: "unit machine" where
    b: "kernel_entry quiet_bus C lay0 image0 0 (machine_initial literal_memory (\<lambda>_. undefined) d) = Some (Inr (ctx, M0))"
      "runs quiet_bus C image0 (M0, keyboard_initial) [Tick] (M, keyboard_initial)" "kern_of M = kern_of M0" by (rule ticking_machine)
  note * = machine_invariant [OF abi_ok_lay0 image0_ok b(1,2)]
  have h: "handlerTable (ints_of M) ! 0x31 = 0x9300" using * boot_tables [OF b(1)] by (simp add: image0_def)
  have "\<not> has_error_code 0x31" by (simp add: has_error_code_def DOUBLE_FAULT_VECTOR_def INVALID_TSS_VECTOR_def
    SEGMENT_NOT_PRESENT_VECTOR_def STACK_SEGMENT_FAULT_VECTOR_def GENERAL_PROTECTION_FAULT_VECTOR_def PAGE_FAULT_VECTOR_def
    ALIGNMENT_CHECK_VECTOR_def CONTROL_PROTECTION_VECTOR_def)
  moreover have "\<forall>v < 256. handlerTable (ints_of M) ! v \<noteq> 0 \<longrightarrow> entry_effect (memory_of (kern_of M)) (gate_target (idt (ints_of M) ! v))
      = Some (\<not> has_error_code (of_nat v), of_nat v, collect_ctx_at image0)" using * by blast
  from spec [OF this, of "0x31"] h have "entry_effect (memory_of (kern_of M)) (gate_target (idt (ints_of M) ! 0x31))
      = Some (\<not> has_error_code 0x31, 0x31, collect_ctx_at image0)" by simp
  ultimately show ?thesis using b(1,2) h by (auto simp: image0_def)
qed





text \<open>
  C5: the machine ends at most 261118 processes: in every run each event that ends one, an \<open>exit\<close> or a fault
  outside the stack area, has taken a page frame that is never given back, and there are 261119 frames.
\<close>

theorem machine_wears_out:
  assumes "abi_ok lay" "image_ok I m" "kernel_entry B C lay I memsize (machine_initial m ns d) = Some (Inr (ctx, M0))"
    and "runs B C I (M0, keyboard_initial) evs (M, k)"
  shows "unat (param (kern_of M)) = length (filter ends evs) \<and> length (filter ends evs) < 261119
    \<and> (\<exists>L. frames_rel (store_of (kern_of M)) L \<and> length (filter ends evs) < card L)"
proof -
  note i = kernel_entry_inv [OF assms(1-3)] and inv = machine_inv [OF assms]
  have n: "unat (param (kern_of M)) = length (filter ends evs)"
    using runs_param [OF assms(4) i] boot_frames [OF assms(1,3)] by simp
  from reachable_inv [OF system_invD(1) [OF inv]] obtain xs L where K: "kernel_inv lay (kern_of M) xs L" by blast
  have "card (stray (kern_of M) xs L) \<le> card L" by (intro card_mono) (auto simp: stray_def)
  then have "unat (param (kern_of M)) < card L" using K by (simp add: kernel_inv_def)
  then show ?thesis using n param_bound [OF K] kernel_invD(2) [OF K] by auto
qed

text \<open>A booted machine whose first process exits.\<close>

lemma exiting_machine:
  obtains C d ctx c and M0 M :: "unit machine" where
    "kernel_entry quiet_bus C lay0 image0 0 (machine_initial literal_memory (\<lambda>_. undefined) d) = Some (Inr (ctx, M0))"
    "runs quiet_bus C image0 (M0, keyboard_initial) [Exit c] (M, keyboard_initial)"
proof -
  let ?C = "\<lparr>clk_millis = Pair 0, clk_fractions = Pair 0\<rparr>"
  obtain ctx and M0 :: "unit machine" where b: "kernel_entry quiet_bus ?C lay0 image0 0 (machine_initial literal_memory (\<lambda>_. undefined) ())
      = Some (Inr (ctx, M0))" "\<not> keyboard_found M0" by (rule quiet_boot)
  let ?c = "context_of (initial_context 0) \<lparr>vector := 0x31\<rparr>"
  note inv = kernel_entry_inv [OF abi_ok_lay0 image0_ok b(1)]
  have "handlerTable (ints_of M0) ! 0x31 = exit_at image0" using boot_tables [OF b(1)] by simp
  then have call: "universal_interrupt_handler (ints_of M0) ?c = Call (exit_at image0) ?c"
    by (simp add: universal_interrupt_handler_def image0_def)
  from exit_available [OF system_invD(1,7) [OF inv]] boot_frames [OF abi_ok_lay0 b(1)] obtain c' K where
    e: "exit ?c (kern_of M0) = Inr (c', K)" by (metis surj_pair)
  from exit_step [OF inv e] obtain t where t: "print_new image0 M0 K = Some t" by blast
  from runs.more [OF runs.none step.exit [OF call e t]] have
    "runs quiet_bus ?C image0 (M0, keyboard_initial) [Exit ?c] (set_tty t (M0\<lparr>kern_of := K\<rparr>), keyboard_initial)" by simp
  then show thesis by (rule that [OF b(1)])
qed

theorem machine_wears_out_witness:
  "\<exists>C c M0 M. runs quiet_bus C image0 (M0 :: unit machine, keyboard_initial) [Exit c] (M, keyboard_initial)
    \<and> unat (param (kern_of M)) = 1 \<and> (\<exists>L. frames_rel (store_of (kern_of M)) L \<and> 1 < card L)"
proof -
  obtain C d ctx c and M0 M :: "unit machine" where
    b: "kernel_entry quiet_bus C lay0 image0 0 (machine_initial literal_memory (\<lambda>_. undefined) d) = Some (Inr (ctx, M0))"
      "runs quiet_bus C image0 (M0, keyboard_initial) [Exit c] (M, keyboard_initial)" by (rule exiting_machine)
  from machine_wears_out [OF abi_ok_lay0 image0_ok b] have "unat (param (kern_of M)) = 1
      \<and> (\<exists>L. frames_rel (store_of (kern_of M)) L \<and> 1 < card L)" by simp
  then show ?thesis using b(2) by blast
qed

end
